(* ===== verification/Prelude.thy ===== *)
theory Prelude
  imports Main "HOL-Library.Finite_Map" "HOL-Library.List_Lexorder" "HOL-Library.Char_ord"
begin

text \<open>
  Shared vocabulary of the development: Go's machine integers as naturals with the
  wrap-around written out, Go maps (a total lookup with the zero value, iteration in key
  order), the \<open>error\<close> return value, and the generic lemmas on lists, finite maps and
  majorities that the component theories use.  The collections declared here
  (\<open>go_defs\<close>, \<open>frame\<close>) gather the unfolding equations of the modelling layer and the
  frame facts of the operations (which fields an operation leaves alone).
\<close>

named_theorems go_defs \<open>definitions of the modelling layer that proofs unfold\<close>
named_theorems frame \<open>fields an operation leaves unchanged\<close>

section \<open>Machine integers\<close>

text \<open>
  A Go \<open>uint64\<close> is a natural number below \<open>two64\<close>; \<open>+\<close> and \<open>-\<close> wrap around.  The
  operators are kept as constants so that every place where the code could wrap is visible
  in the definitions; under a bound they are the operations on \<open>nat\<close>.
\<close>

type_synonym uint64 = nat

definition two64 :: nat where
  "two64 = 2 ^ 64"

definition add64 :: "uint64 \<Rightarrow> uint64 \<Rightarrow> uint64" where
  "add64 a b = (a + b) mod two64"

definition sub64 :: "uint64 \<Rightarrow> uint64 \<Rightarrow> uint64" where
  "sub64 a b = (if b \<le> a then a - b else a + two64 - b)"

lemma two64_pos [simp]: "0 < two64"
  by (simp add: two64_def)

lemma add64_lt [simp]: "add64 a b < two64"
  by (simp add: add64_def)

lemma add64_nowrap [simp]: "a + b < two64 \<Longrightarrow> add64 a b = a + b"
  by (simp add: add64_def)

lemma add64_wraps: "add64 (two64 - 1) 1 = 0"
  by (simp add: add64_def two64_def)

lemma sub64_nowrap [simp]: "b \<le> a \<Longrightarrow> sub64 a b = a - b"
  by (simp add: sub64_def)

lemma sub64_lt: "a < two64 \<Longrightarrow> b < two64 \<Longrightarrow> sub64 a b < two64"
  by (auto simp: sub64_def)

definition min64 :: "uint64 \<Rightarrow> uint64 \<Rightarrow> uint64" where
  "min64 a b = (if a < b then a else b)"

lemma min64_min [simp]: "min64 a b = min a b"
  by (simp add: min64_def min_def)

section \<open>Errors and maps\<close>

text \<open>Go's \<open>error\<close> interface value: \<open>None\<close> is \<open>nil\<close>, \<open>Some\<close> carries the message.\<close>

type_synonym error = "string option"

text \<open>Indexing a Go map of numbers yields the zero value for an absent key.\<close>

definition mget :: "('k \<rightharpoonup> nat) \<Rightarrow> 'k \<Rightarrow> nat" where
  "mget m k = (case m k of None \<Rightarrow> 0 | Some v \<Rightarrow> v)"

lemma mget_upd [simp]: "mget (m(k \<mapsto> v)) k' = (if k' = k then v else mget m k')"
  by (simp add: mget_def)

lemma mget_empty [simp]: "mget Map.empty k = 0"
  by (simp add: mget_def)

text \<open>
  A Go map that the code iterates over or takes the length of is a finite map.  Where the
  result does not depend on the iteration order the model iterates in key order;
  \<open>encoding/json\<close> does so itself.
\<close>

definition keys_sorted :: "('k::linorder, 'v) fmap \<Rightarrow> 'k list" where
  "keys_sorted m = sorted_list_of_fset (fmdom m)"

definition items_sorted :: "('k::linorder, 'v) fmap \<Rightarrow> ('k \<times> 'v) list" where
  "items_sorted m = map (\<lambda>k. (k, the (fmlookup m k))) (keys_sorted m)"

definition fmlen :: "('k, 'v) fmap \<Rightarrow> nat" where
  "fmlen m = fcard (fmdom m)"

lemma set_keys_sorted [simp]: "set (keys_sorted m) = fset (fmdom m)"
  by (simp add: keys_sorted_def)

lemma distinct_keys_sorted [simp]: "distinct (keys_sorted m)"
  by (simp add: keys_sorted_def sorted_list_of_fset.rep_eq)

lemma sorted_keys_sorted [simp]: "sorted (keys_sorted m)"
  by (simp add: keys_sorted_def sorted_list_of_fset.rep_eq)

lemma keys_sorted_empty [simp]: "keys_sorted fmempty = []"
  by (simp add: keys_sorted_def sorted_list_of_fset.rep_eq)

lemma items_sorted_empty [simp]: "items_sorted fmempty = []"
  by (simp add: items_sorted_def)

lemma map_of_items_sorted: "map_of (items_sorted m) k = fmlookup m k"
proof -
  have "map_of (map (\<lambda>k. (k, the (fmlookup m k))) ks) k =
      (if k \<in> set ks then Some (the (fmlookup m k)) else None)" for ks
    by (induction ks) auto
  then show ?thesis
    by (auto simp: items_sorted_def fmlookup_dom_iff dest: fmdom_notD split: if_splits)
qed

lemma fmap_of_items_sorted [simp]: "fmap_of_list (items_sorted m) = m"
  by (rule fmap_ext) (simp add: fmlookup_of_list map_of_items_sorted)

lemma keys_sorted_eqI:
  assumes "sorted ks" "distinct ks" "set ks = fset (fmdom m)"
  shows "keys_sorted m = ks"
  using assms by (metis distinct_keys_sorted set_keys_sorted sorted_distinct_set_unique sorted_keys_sorted)

lemma fmlen_upd: "fmlen (fmupd k v m) = (if k |\<in>| fmdom m then fmlen m else Suc (fmlen m))"
  by (auto simp: fmlen_def fcard_finsert_if)

lemma fmlen_empty [simp]: "fmlen fmempty = 0"
  by (simp add: fmlen_def)

section \<open>Lists\<close>

text \<open>Go's \<open>strings.Join\<close> and \<open>strings.Split\<close> for a one-byte separator.\<close>

fun join_sep :: "char \<Rightarrow> string list \<Rightarrow> string" where
  "join_sep c [] = []"
| "join_sep c [x] = x"
| "join_sep c (x # y # ys) = x @ c # join_sep c (y # ys)"

fun split_sep :: "char \<Rightarrow> string \<Rightarrow> string list" where
  "split_sep c [] = [[]]"
| "split_sep c (x # xs) =
     (if x = c then [] # split_sep c xs
      else case split_sep c xs of [] \<Rightarrow> [[x]] | p # ps \<Rightarrow> (x # p) # ps)"

lemma split_sep_not_Nil [simp]: "split_sep c s \<noteq> []"
  by (induction s) (auto split: list.splits)

lemma split_sep_prefix:
  "c \<notin> set x \<Longrightarrow> split_sep c (x @ c # s) = x # split_sep c s"
  by (induction x) auto

lemma split_sep_plain: "c \<notin> set x \<Longrightarrow> split_sep c x = [x]"
  by (induction x) auto

lemma split_join_sep:
  "xs \<noteq> [] \<Longrightarrow> \<forall>x\<in>set xs. c \<notin> set x \<Longrightarrow> split_sep c (join_sep c xs) = xs"
  by (induction c xs rule: join_sep.induct) (auto simp: split_sep_prefix split_sep_plain)

text \<open>The first position at which a list satisfies a predicate (a \<open>for ... break\<close> search).\<close>

fun find_index :: "('a \<Rightarrow> bool) \<Rightarrow> 'a list \<Rightarrow> nat option" where
  "find_index P [] = None"
| "find_index P (x # xs) = (if P x then Some 0 else map_option Suc (find_index P xs))"

lemma find_index_None: "find_index P xs = None \<longleftrightarrow> (\<forall>x\<in>set xs. \<not> P x)"
  by (induction xs) auto

lemma find_index_Some:
  "find_index P xs = Some i \<Longrightarrow> i < length xs \<and> P (xs ! i) \<and> (\<forall>j<i. \<not> P (xs ! j))"
proof (induction xs arbitrary: i)
  case Nil
  then show ?case by simp
next
  case (Cons x xs)
  then show ?case
    by (auto simp: nth_Cons split: if_splits nat.splits)
qed

section \<open>Majorities\<close>

lemma majorities_meet:
  assumes "finite E" "S \<subseteq> E" "T \<subseteq> E" "card E div 2 < card S" "card E div 2 < card T"
  shows "\<exists>p. p \<in> S \<and> p \<in> T"
proof (rule ccontr)
  assume "\<nexists>p. p \<in> S \<and> p \<in> T"
  then have disj: "S \<inter> T = {}" by blast
  from assms have "finite S" "finite T" by (auto intro: finite_subset)
  then have "card S + card T = card (S \<union> T)" using disj by (simp add: card_Un_disjoint)
  also have "\<dots> \<le> card E" using assms by (intro card_mono) auto
  finally show False using assms(4,5) by linarith
qed

end
