(* ===== verification/Json.thy ===== *)
theory Json
  imports Prelude
begin

text \<open>
  What the program uses of \<open>encoding/json\<close>.  A byte slice that crosses the model is the
  JSON document its text denotes: \<open>NoBytes\<close> is the empty slice, \<open>BadJson\<close> a text that is
  not JSON (with the syntax error \<open>Unmarshal\<close> reports), \<open>JsonText\<close> a valid document; the
  textual layer below that (escapes, white space, base64 digits) is not modelled.  Integers
  and other number literals are kept apart because Go refuses a fraction for an integer
  field.  \<open>JB64\<close> is the base64 string \<open>Marshal\<close> writes for a \<open>[]byte\<close> field.

  Decoding follows \<open>Unmarshal\<close> into a struct: members are processed in order, a later
  duplicate overwrites an earlier one, keys match up to ASCII case, unknown keys are ignored,
  \<open>null\<close> leaves a scalar field alone, and a value of the wrong type is remembered as the
  error while decoding goes on.
\<close>

datatype bytes = NoBytes | BadJson string | JsonText json
  and json = JNull | JBool bool | JInt int | JFrac string | JStr string | JB64 bytes
    | JArr "json list" | JObj "(string \<times> json) list"

section \<open>Keys\<close>

definition lower_char :: "char \<Rightarrow> char" where
  "lower_char c = (let k = of_char c :: nat in if 65 \<le> k \<and> k \<le> 90 then char_of (k + 32) else c)"

definition key_is :: "string \<Rightarrow> string \<Rightarrow> bool" where
  "key_is name k \<longleftrightarrow> map lower_char k = map lower_char name"

lemma key_is_refl [simp]: "key_is n n"
  by (simp add: key_is_def)

section \<open>Decoding\<close>

text \<open>A decoder takes the JSON value and the current value of the target.\<close>

type_synonym 'a decoder = "json \<Rightarrow> 'a \<Rightarrow> 'a \<times> error"

fun json_kind :: "json \<Rightarrow> string" where
  "json_kind JNull = ''null''"
| "json_kind (JBool b) = ''bool''"
| "json_kind (JInt i) = ''number''"
| "json_kind (JFrac s) = ''number '' @ s"
| "json_kind (JStr s) = ''string''"
| "json_kind (JB64 b) = ''string''"
| "json_kind (JArr xs) = ''array''"
| "json_kind (JObj ms) = ''object''"

definition type_error :: "json \<Rightarrow> string \<Rightarrow> error" where
  "type_error j t = Some (''json: cannot unmarshal '' @ json_kind j @ '' into Go value of type '' @ t)"

fun dec_string :: "string decoder" where
  "dec_string JNull a = (a, None)"
| "dec_string (JStr s) a = (s, None)"
| "dec_string j a = (a, type_error j ''string'')"

fun dec_bool :: "bool decoder" where
  "dec_bool JNull a = (a, None)"
| "dec_bool (JBool b) a = (b, None)"
| "dec_bool j a = (a, type_error j ''bool'')"

fun dec_uint64 :: "uint64 decoder" where
  "dec_uint64 JNull a = (a, None)"
| "dec_uint64 (JInt i) a =
     (if 0 \<le> i \<and> nat i < two64 then (nat i, None) else (a, type_error (JInt i) ''uint64''))"
| "dec_uint64 j a = (a, type_error j ''uint64'')"

fun dec_int :: "int decoder" where
  "dec_int JNull a = (a, None)"
| "dec_int (JInt i) a =
     (if - (2 ^ 63) \<le> i \<and> i < 2 ^ 63 then (i, None) else (a, type_error (JInt i) ''int''))"
| "dec_int j a = (a, type_error j ''int'')"

fun dec_bytes :: "bytes decoder" where
  "dec_bytes JNull a = (NoBytes, None)"
| "dec_bytes (JB64 b) a = (b, None)"
| "dec_bytes j a = (a, type_error j ''[]uint8'')"

fun dec_members :: "(string \<Rightarrow> 'a decoder) \<Rightarrow> (string \<times> json) list \<Rightarrow> 'a \<Rightarrow> 'a \<times> error" where
  "dec_members f [] a = (a, None)"
| "dec_members f ((k, v) # ms) a =
     (case f k v a of (a', e) \<Rightarrow>
      case dec_members f ms a' of (a'', e') \<Rightarrow> (a'', if e = None then e' else e))"

definition dec_struct :: "string \<Rightarrow> (string \<Rightarrow> 'a decoder) \<Rightarrow> 'a decoder" where
  "dec_struct t f j a =
     (case j of JObj ms \<Rightarrow> dec_members f ms a | JNull \<Rightarrow> (a, None) | _ \<Rightarrow> (a, type_error j t))"

text \<open>A pointer to a struct: \<open>null\<close> stores \<open>nil\<close>, an object fills the struct pointed to.\<close>

definition dec_ptr :: "'a \<Rightarrow> 'a decoder \<Rightarrow> 'a option decoder" where
  "dec_ptr z d j a =
     (case j of JNull \<Rightarrow> (None, None)
      | _ \<Rightarrow> (case d j (case a of None \<Rightarrow> z | Some x \<Rightarrow> x) of (x, e) \<Rightarrow> (Some x, e)))"

definition dec_map :: "string \<Rightarrow> 'v \<Rightarrow> 'v decoder \<Rightarrow> (string, 'v) fmap decoder" where
  "dec_map t z d j m =
     (case j of
        JNull \<Rightarrow> (fmempty, None)
      | JObj ms \<Rightarrow>
          dec_members (\<lambda>k v m. case d v z of (x, e) \<Rightarrow> if e = None then (fmupd k x m, None) else (m, e)) ms m
      | _ \<Rightarrow> (m, type_error j t))"

text \<open>
  A slice of struct pointers.  \<open>Marshal\<close> of the program's slices never writes a \<open>null\<close>
  element (every element is the address of a song), so the model has no \<open>nil\<close> element and
  reports one as an error.
\<close>

fun dec_elems :: "'a \<Rightarrow> 'a decoder \<Rightarrow> json list \<Rightarrow> 'a list \<times> error" where
  "dec_elems z d [] = ([], None)"
| "dec_elems z d (j # js) =
     (case (if j = JNull then (z, type_error JNull ''element'') else d j z) of (x, e) \<Rightarrow>
      case dec_elems z d js of (xs, e') \<Rightarrow> (x # xs, if e = None then e' else e))"

definition dec_slice :: "string \<Rightarrow> 'a \<Rightarrow> 'a decoder \<Rightarrow> 'a list decoder" where
  "dec_slice t z d j xs =
     (case j of JNull \<Rightarrow> ([], None) | JArr js \<Rightarrow> dec_elems z d js | _ \<Rightarrow> (xs, type_error j t))"

definition unmarshal :: "'a decoder \<Rightarrow> bytes \<Rightarrow> 'a \<Rightarrow> 'a \<times> error" where
  "unmarshal d b a =
     (case b of NoBytes \<Rightarrow> (a, Some ''unexpected end of JSON input'')
      | BadJson e \<Rightarrow> (a, Some e)
      | JsonText j \<Rightarrow> d j a)"

section \<open>Encoding\<close>

text \<open>\<open>omitempty\<close>: the member is written only when the value is not the zero value.\<close>

definition omitempty :: "bool \<Rightarrow> string \<Rightarrow> json \<Rightarrow> (string \<times> json) list" where
  "omitempty isempty k v = (if isempty then [] else [(k, v)])"

definition enc_map :: "('v \<Rightarrow> json) \<Rightarrow> (string, 'v) fmap \<Rightarrow> json" where
  "enc_map f m = JObj (map (\<lambda>(k, v). (k, f v)) (items_sorted m))"

section \<open>Round trips\<close>

lemma dec_members_append:
  "dec_members f (xs @ ys) a =
     (case dec_members f xs a of (a', e) \<Rightarrow>
      case dec_members f ys a' of (a'', e') \<Rightarrow> (a'', if e = None then e' else e))"
  by (induction xs arbitrary: a) (auto split: prod.splits)

text \<open>A member that decodes without error can be peeled off the front.\<close>

lemma dec_members_ok:
  "f k v a = (a', None) \<Longrightarrow> dec_members f ((k, v) # ms) a = dec_members f ms a'"
  by (simp split: prod.splits)

lemma dec_members_omitempty:
  assumes "f k v a = (a', None)" and "isempty \<longrightarrow> a' = a"
  shows "dec_members f (omitempty isempty k v @ ms) a = dec_members f ms a'"
  using assms by (auto simp: omitempty_def dec_members_ok)

lemma dec_map_items:
  assumes "\<forall>kv \<in> set kvs. d (f (snd kv)) z = (snd kv, None)"
  shows "dec_members (\<lambda>k v m. case d v z of (x, e) \<Rightarrow> if e = None then (fmupd k x m, None) else (m, e))
      (map (\<lambda>(k, v). (k, f v)) kvs) m = (fold (\<lambda>(k, v). fmupd k v) kvs m, None)"
  using assms by (induction kvs arbitrary: m) auto

lemma fmlookup_fold_upd:
  "fmlookup (fold (\<lambda>(k, v). fmupd k v) kvs m) x = (m' ++ map_of (rev kvs)) x"
  if "fmlookup m = m'"
  using that by (induction kvs arbitrary: m m') (auto simp: map_add_def split: option.splits)

lemma map_of_rev_distinct:
  assumes "distinct (map fst xs)"
  shows "map_of (rev xs) k = map_of xs k"
proof -
  have "distinct (map fst (rev xs))"
    using assms by (simp add: rev_map [symmetric])
  then have "map_of (rev xs) k = Some v \<longleftrightarrow> map_of xs k = Some v" for v
    using assms by (simp add: map_of_eq_Some_iff)
  then show ?thesis by (metis not_Some_eq)
qed

lemma fold_upd_items: "fold (\<lambda>(k, v). fmupd k v) (items_sorted m) fmempty = m"
proof (rule fmap_ext)
  fix x
  have "distinct (map fst (items_sorted m))"
    by (simp add: items_sorted_def comp_def)
  then have "map_of (rev (items_sorted m)) x = map_of (items_sorted m) x"
    by (rule map_of_rev_distinct)
  then show "fmlookup (fold (\<lambda>(k, v). fmupd k v) (items_sorted m) fmempty) x = fmlookup m x"
    by (simp add: fmlookup_fold_upd map_of_items_sorted map_add_def fmempty_lookup split: option.splits)
qed

lemma dec_map_enc_map:
  assumes "\<And>k v. fmlookup m k = Some v \<Longrightarrow> d (f v) z = (v, None)"
  shows "dec_map t z d (enc_map f m) fmempty = (m, None)"
proof -
  have "\<forall>kv \<in> set (items_sorted m). d (f (snd kv)) z = (snd kv, None)"
    by (auto simp: items_sorted_def fmlookup_dom_iff intro: assms)
  then show ?thesis
    by (simp add: dec_map_def enc_map_def dec_map_items fold_upd_items)
qed

lemma dec_slice_map:
  assumes "\<And>x. x \<in> set xs \<Longrightarrow> d (f x) z = (x, None)" and "\<And>x. f x \<noteq> JNull"
  shows "dec_slice t z d (JArr (map f xs)) ys = (xs, None)"
proof -
  have "dec_elems z d (map f xs) = (xs, None)"
    using assms(1) by (induction xs) (simp_all add: assms(2))
  then show ?thesis by (simp add: dec_slice_def)
qed

end
