(* ===== verification/Interfaces.thy ===== *)
theory Interfaces
  imports Json
begin

text \<open>
  The application interface of the Raft core (\<open>StateMachine\<close> of
  \<open>src/internal/raft/node.go\<close>).  A Go interface value is a record of its methods over the
  type of the object behind it; the contract the core relies on is the locale
  \<open>state_machine\<close>: applying keeps the application's invariant and restoring a snapshot gives
  back the state it was taken of.
\<close>

record 'm StateMachine =
  sm_Apply :: "'m \<Rightarrow> bytes \<Rightarrow> 'm \<times> bytes"
  sm_Snapshot :: "'m \<Rightarrow> bytes"
  sm_Restore :: "'m \<Rightarrow> bytes \<Rightarrow> 'm \<times> error"

text \<open>Replaying a list of committed commands, as the apply loop does.\<close>

fun replay :: "'m StateMachine \<Rightarrow> 'm \<Rightarrow> bytes list \<Rightarrow> 'm" where
  "replay S m [] = m"
| "replay S m (c # cs) = replay S (fst (sm_Apply S m c)) cs"

lemma replay_append: "replay S m (xs @ ys) = replay S (replay S m xs) ys"
  by (induction xs arbitrary: m) auto

locale state_machine =
  fixes S :: "'m StateMachine" and inv :: "'m \<Rightarrow> bool"
  assumes inv_apply: "inv m \<Longrightarrow> inv (fst (sm_Apply S m c))"
    and restore_snapshot: "inv m \<Longrightarrow> sm_Restore S m0 (sm_Snapshot S m) = (m, None)"
    and snapshot_nonempty: "sm_Snapshot S m \<noteq> NoBytes"
begin

lemma inv_replay: "inv m \<Longrightarrow> inv (replay S m cs)"
  by (induction cs arbitrary: m) (auto intro: inv_apply)

text \<open>
  A replica that restores a snapshot taken after \<open>pre\<close> and then applies \<open>suf\<close> is in the
  state of a replica that applied the whole log.
\<close>

lemma catch_up:
  assumes "inv m"
  shows "replay S (fst (sm_Restore S m0 (sm_Snapshot S (replay S m pre)))) suf = replay S m (pre @ suf)"
  using assms by (simp add: restore_snapshot inv_replay replay_append)

end

end
