(* ===== verification/Jukebox.thy ===== *)
theory Jukebox
  imports Interfaces "HOL-Library.Multiset"
begin

text \<open>
  The replicated application, \<open>src/internal/jukebox/jukebox.go\<close>: songs, commands, results,
  the state with its client sessions, and the operations \<open>Apply\<close>, \<open>applyInner\<close>, \<open>View\<close>,
  \<open>Snapshot\<close> and \<open>Restore\<close>.  The lemmas show that no song is lost, duplicated or reordered,
  that a command takes effect at most once and its retries see the first answer, what each
  operation does on every branch, and that a snapshot restores exactly.  The mutex of the
  wrapper makes each method atomic; it does not appear.

  A slice is a list: \<open>nil\<close> and the empty slice, which the program never tells apart, are
  both \<open>[]\<close>, and songs are values because no method changes a song after it is queued.
\<close>

section \<open>Data\<close>

record Song =
  sID :: string
  sTitle :: string
  sAddedBy :: string

record Command =
  cOp :: string
  cClientID :: string
  cSeq :: uint64
  cSong :: "Song option"
  cSongID :: string
  cToIndex :: int
  cVoter :: string

record Result =
  rOK :: bool
  rError :: string
  rNowPlaying :: "Song option"
  rQueue :: "Song list"
  rSkipVotes :: nat

record State =
  Queue :: "Song list"
  NowPlaying :: "Song option"
  History :: "Song list"
  SkipVotes :: "(string, bool) fmap"
  SkipThreshold :: int
  LastSeq :: "(string, uint64) fmap"
  LastResult :: "(string, bytes) fmap"

definition OpEnqueue :: string where "OpEnqueue = ''enqueue''"
definition OpPlayNext :: string where "OpPlayNext = ''play-next''"
definition OpVoteSkip :: string where "OpVoteSkip = ''vote-skip''"
definition OpReorder :: string where "OpReorder = ''reorder''"
definition OpNoop :: string where "OpNoop = ''noop''"

lemmas op_defs = OpEnqueue_def OpPlayNext_def OpVoteSkip_def OpReorder_def OpNoop_def

text \<open>Zero values: what \<open>Command{Op: op}\<close> and \<open>var st State\<close> leave in the other fields.\<close>

definition zero_song :: Song where
  "zero_song = \<lparr>sID = '''', sTitle = '''', sAddedBy = ''''\<rparr>"

definition op_command :: "string \<Rightarrow> Command" where
  "op_command op = \<lparr>cOp = op, cClientID = '''', cSeq = 0, cSong = None, cSongID = '''',
     cToIndex = 0, cVoter = ''''\<rparr>"

definition fail_result :: "string \<Rightarrow> Result" where
  "fail_result e = \<lparr>rOK = False, rError = e, rNowPlaying = None, rQueue = [], rSkipVotes = 0\<rparr>"

definition zero_state :: State where
  "zero_state = \<lparr>Queue = [], NowPlaying = None, History = [], SkipVotes = fmempty,
     SkipThreshold = 0, LastSeq = fmempty, LastResult = fmempty\<rparr>"

definition New_jukebox :: State where
  "New_jukebox = zero_state\<lparr>SkipVotes := fmempty, SkipThreshold := 3, LastSeq := fmempty,
     LastResult := fmempty\<rparr>"

section \<open>Marshalling\<close>

definition enc_song :: "Song \<Rightarrow> json" where
  "enc_song s = JObj ([(''id'', JStr (sID s)), (''title'', JStr (sTitle s))] @
     omitempty (sAddedBy s = '''') ''addedBy'' (JStr (sAddedBy s)))"

definition enc_song_ptr :: "Song option \<Rightarrow> json" where
  "enc_song_ptr p = (case p of None \<Rightarrow> JNull | Some s \<Rightarrow> enc_song s)"

definition Encode :: "Command \<Rightarrow> bytes" where
  "Encode c = JsonText (JObj ([(''op'', JStr (cOp c))] @
     omitempty (cClientID c = '''') ''clientId'' (JStr (cClientID c)) @
     omitempty (cSeq c = 0) ''seq'' (JInt (int (cSeq c))) @
     omitempty (cSong c = None) ''song'' (enc_song_ptr (cSong c)) @
     omitempty (cSongID c = '''') ''songId'' (JStr (cSongID c)) @
     omitempty (cToIndex c = 0) ''toIndex'' (JInt (cToIndex c)) @
     omitempty (cVoter c = '''') ''voter'' (JStr (cVoter c))))"

definition marshal_result :: "Result \<Rightarrow> bytes" where
  "marshal_result r = JsonText (JObj ([(''ok'', JBool (rOK r))] @
     omitempty (rError r = '''') ''error'' (JStr (rError r)) @
     omitempty (rNowPlaying r = None) ''nowPlaying'' (enc_song_ptr (rNowPlaying r)) @
     omitempty (rQueue r = []) ''queue'' (JArr (map enc_song (rQueue r))) @
     omitempty (rSkipVotes r = 0) ''skipVotes'' (JInt (int (rSkipVotes r)))))"

text \<open>Decoding one member into a field of a struct.\<close>

definition into :: "('r \<Rightarrow> 'a) \<Rightarrow> (('a \<Rightarrow> 'a) \<Rightarrow> 'r \<Rightarrow> 'r) \<Rightarrow> 'a decoder \<Rightarrow> 'r decoder" where
  "into get upd d j r = (case d j (get r) of (x, e) \<Rightarrow> (upd (\<lambda>_. x) r, e))"

definition song_field :: "string \<Rightarrow> Song decoder" where
  "song_field k j s =
     (if key_is ''id'' k then into sID sID_update dec_string j s
      else if key_is ''title'' k then into sTitle sTitle_update dec_string j s
      else if key_is ''addedBy'' k then into sAddedBy sAddedBy_update dec_string j s
      else (s, None))"

definition dec_song :: "Song decoder" where
  "dec_song = dec_struct ''jukebox.Song'' song_field"

definition command_field :: "string \<Rightarrow> Command decoder" where
  "command_field k j c =
     (if key_is ''op'' k then into cOp cOp_update dec_string j c
      else if key_is ''clientId'' k then into cClientID cClientID_update dec_string j c
      else if key_is ''seq'' k then into cSeq cSeq_update dec_uint64 j c
      else if key_is ''song'' k then into cSong cSong_update (dec_ptr zero_song dec_song) j c
      else if key_is ''songId'' k then into cSongID cSongID_update dec_string j c
      else if key_is ''toIndex'' k then into cToIndex cToIndex_update dec_int j c
      else if key_is ''voter'' k then into cVoter cVoter_update dec_string j c
      else (c, None))"

definition dec_command :: "Command decoder" where
  "dec_command = dec_struct ''jukebox.Command'' command_field"

definition unmarshal_command :: "bytes \<Rightarrow> Command \<times> error" where
  "unmarshal_command b = unmarshal dec_command b (op_command '''')"

section \<open>Operations\<close>

definition cloneQueue :: "State \<Rightarrow> Song list" where
  "cloneQueue st = Queue st"

definition snapshotResult :: "State \<Rightarrow> bool \<Rightarrow> string \<Rightarrow> Result" where
  "snapshotResult st ok errMsg = \<lparr>rOK = ok, rError = errMsg, rNowPlaying = NowPlaying st,
     rQueue = cloneQueue st, rSkipVotes = fmlen (SkipVotes st)\<rparr>"

definition applyPlayNext :: "State \<Rightarrow> State \<times> Result" where
  "applyPlayNext st =
     (let st = (case NowPlaying st of None \<Rightarrow> st | Some s \<Rightarrow> st\<lparr>History := History st @ [s]\<rparr>);
          st = (case Queue st of [] \<Rightarrow> st\<lparr>NowPlaying := None\<rparr>
                | s # q \<Rightarrow> st\<lparr>NowPlaying := Some s, Queue := q\<rparr>);
          st = st\<lparr>SkipVotes := fmempty\<rparr>
      in (st, snapshotResult st True ''''))"

definition applyEnqueue :: "State \<Rightarrow> Command \<Rightarrow> State \<times> Result" where
  "applyEnqueue st c =
     (case cSong c of
        None \<Rightarrow> (st, fail_result ''enqueue requires a song with a title'')
      | Some s \<Rightarrow>
          if sTitle s = '''' then (st, fail_result ''enqueue requires a song with a title'')
          else let st = st\<lparr>Queue := Queue st @ [s]\<rparr> in (st, snapshotResult st True ''''))"

definition applyVoteSkip :: "State \<Rightarrow> Command \<Rightarrow> State \<times> Result" where
  "applyVoteSkip st c =
     (if NowPlaying st = None then (st, fail_result ''nothing playing'')
      else
        let voter = (if cVoter c = '''' then cClientID c else cVoter c) in
        if voter = '''' then (st, fail_result ''vote-skip requires a voter'')
        else
          let st = st\<lparr>SkipVotes := fmupd voter True (SkipVotes st)\<rparr> in
          if SkipThreshold st \<le> int (fmlen (SkipVotes st)) then applyPlayNext st
          else (st, snapshotResult st True ''''))"

text \<open>
  Moving a song: the removal is \<open>append(q[:from], q[from+1:]...)\<close>; growing by one,
  \<open>copy(q[to+1:], q[to:])\<close> and the store at \<open>to\<close> insert it in front of position \<open>to\<close>.
\<close>

definition move :: "'a list \<Rightarrow> nat \<Rightarrow> nat \<Rightarrow> 'a list" where
  "move q from to =
     (let s = q ! from; q' = take from q @ drop (from + 1) q in take to q' @ s # drop to q')"

definition clamp_to :: "int \<Rightarrow> nat \<Rightarrow> nat" where
  "clamp_to to n =
     (let to = (if to < 0 then 0 else to);
          to = (if int n \<le> to then int n - 1 else to)
      in nat to)"

definition applyReorder :: "State \<Rightarrow> Command \<Rightarrow> State \<times> Result" where
  "applyReorder st c =
     (case find_index (\<lambda>s. sID s = cSongID c) (Queue st) of
        None \<Rightarrow> (st, fail_result ''song not found in queue'')
      | Some from \<Rightarrow>
          let to = clamp_to (cToIndex c) (length (Queue st));
              st = st\<lparr>Queue := move (Queue st) from to\<rparr>
          in (st, snapshotResult st True ''''))"

definition applyInner :: "State \<Rightarrow> Command \<Rightarrow> State \<times> Result" where
  "applyInner st c =
     (if cOp c = OpNoop then
        (st, \<lparr>rOK = True, rError = '''', rNowPlaying = None, rQueue = [], rSkipVotes = 0\<rparr>)
      else if cOp c = OpEnqueue then applyEnqueue st c
      else if cOp c = OpPlayNext then applyPlayNext st
      else if cOp c = OpVoteSkip then applyVoteSkip st c
      else if cOp c = OpReorder then applyReorder st c
      else (st, fail_result (''unknown op: '' @ cOp c)))"

definition session :: "Command \<Rightarrow> bool" where
  "session c \<longleftrightarrow> cClientID c \<noteq> '''' \<and> cSeq c \<noteq> 0"

definition cached :: "State \<Rightarrow> Command \<Rightarrow> bytes option" where
  "cached st c =
     (if session c then
        case fmlookup (LastSeq st) (cClientID c) of
          None \<Rightarrow> None
        | Some lst \<Rightarrow> if cSeq c \<le> lst then fmlookup (LastResult st) (cClientID c) else None
      else None)"

definition Apply :: "State \<Rightarrow> bytes \<Rightarrow> State \<times> bytes" where
  "Apply st cmd =
     (case unmarshal_command cmd of
        (c, Some err) \<Rightarrow> (st, marshal_result (fail_result (''bad command: '' @ err)))
      | (c, None) \<Rightarrow>
          (case cached st c of
             Some res \<Rightarrow> (st, res)
           | None \<Rightarrow>
               let (st, res) = applyInner st c;
                   out = marshal_result res;
                   st = (if session c then
                           st\<lparr>LastSeq := fmupd (cClientID c) (cSeq c) (LastSeq st),
                              LastResult := fmupd (cClientID c) out (LastResult st)\<rparr>
                         else st)
               in (st, out)))"

definition View :: "State \<Rightarrow> Result" where
  "View st = snapshotResult st True ''''"

definition Snapshot_jukebox :: "State \<Rightarrow> bytes" where
  "Snapshot_jukebox st = JsonText (JObj
     [(''queue'', JArr (map enc_song (Queue st))),
      (''nowPlaying'', enc_song_ptr (NowPlaying st)),
      (''history'', JArr (map enc_song (History st))),
      (''skipVotes'', enc_map JBool (SkipVotes st)),
      (''skipThreshold'', JInt (SkipThreshold st)),
      (''lastSeq'', enc_map (\<lambda>n. JInt (int n)) (LastSeq st)),
      (''lastResult'', enc_map JB64 (LastResult st))])"

definition state_field :: "string \<Rightarrow> State decoder" where
  "state_field k j st =
     (if key_is ''queue'' k then into Queue Queue_update (dec_slice ''[]*jukebox.Song'' zero_song dec_song) j st
      else if key_is ''nowPlaying'' k then into NowPlaying NowPlaying_update (dec_ptr zero_song dec_song) j st
      else if key_is ''history'' k then into History History_update (dec_slice ''[]*jukebox.Song'' zero_song dec_song) j st
      else if key_is ''skipVotes'' k then into SkipVotes SkipVotes_update (dec_map ''map[string]bool'' False dec_bool) j st
      else if key_is ''skipThreshold'' k then into SkipThreshold SkipThreshold_update dec_int j st
      else if key_is ''lastSeq'' k then into LastSeq LastSeq_update (dec_map ''map[string]uint64'' 0 dec_uint64) j st
      else if key_is ''lastResult'' k then into LastResult LastResult_update (dec_map ''map[string][]uint8'' NoBytes dec_bytes) j st
      else (st, None))"

definition dec_state :: "State decoder" where
  "dec_state = dec_struct ''jukebox.State'' state_field"

definition Restore_jukebox :: "State \<Rightarrow> bytes \<Rightarrow> State \<times> error" where
  "Restore_jukebox st data =
     (if data = NoBytes then (st, None)
      else case unmarshal dec_state data zero_state of
        (st', Some err) \<Rightarrow> (st, Some err)
      | (st', None) \<Rightarrow> ((if SkipThreshold st' = 0 then st'\<lparr>SkipThreshold := 3\<rparr> else st'), None))"

definition Jukebox_SM :: "State StateMachine" where
  "Jukebox_SM = \<lparr>sm_Apply = Apply, sm_Snapshot = Snapshot_jukebox, sm_Restore = Restore_jukebox\<rparr>"

section \<open>Branches of the operations\<close>

lemma applyPlayNext_sessions [simp]:
  "LastSeq (fst (applyPlayNext st)) = LastSeq st"
  "LastResult (fst (applyPlayNext st)) = LastResult st"
  "SkipThreshold (fst (applyPlayNext st)) = SkipThreshold st"
  by (simp_all add: applyPlayNext_def Let_def split: option.split list.split)

lemma applyVoteSkip_sessions [simp]:
  "LastSeq (fst (applyVoteSkip st c)) = LastSeq st"
  "LastResult (fst (applyVoteSkip st c)) = LastResult st"
  "SkipThreshold (fst (applyVoteSkip st c)) = SkipThreshold st"
  by (simp_all add: applyVoteSkip_def Let_def)

lemma applyEnqueue_sessions [simp]:
  "LastSeq (fst (applyEnqueue st c)) = LastSeq st"
  "LastResult (fst (applyEnqueue st c)) = LastResult st"
  "SkipThreshold (fst (applyEnqueue st c)) = SkipThreshold st"
  by (simp_all add: applyEnqueue_def Let_def split: option.split)

lemma applyReorder_sessions [simp]:
  "LastSeq (fst (applyReorder st c)) = LastSeq st"
  "LastResult (fst (applyReorder st c)) = LastResult st"
  "SkipThreshold (fst (applyReorder st c)) = SkipThreshold st"
  by (simp_all add: applyReorder_def Let_def split: option.split)

lemma applyInner_sessions [simp]:
  "LastSeq (fst (applyInner st c)) = LastSeq st"
  "LastResult (fst (applyInner st c)) = LastResult st"
  "SkipThreshold (fst (applyInner st c)) = SkipThreshold st"
  by (simp_all add: applyInner_def)

lemma Apply_bad:
  "unmarshal_command b = (c, Some e) \<Longrightarrow>
     Apply st b = (st, marshal_result (fail_result (''bad command: '' @ e)))"
  by (simp add: Apply_def)

lemma Apply_cached:
  "unmarshal_command b = (c, None) \<Longrightarrow> cached st c = Some r \<Longrightarrow> Apply st b = (st, r)"
  by (simp add: Apply_def)

lemma Apply_fresh:
  assumes "unmarshal_command b = (c, None)" "cached st c = None"
  shows "Apply st b =
     (let (st', res) = applyInner st c in
      (if session c then
         st'\<lparr>LastSeq := fmupd (cClientID c) (cSeq c) (LastSeq st),
             LastResult := fmupd (cClientID c) (marshal_result res) (LastResult st)\<rparr>
       else st', marshal_result res))"
  using assms by (simp add: Apply_def Let_def case_prod_beta)

text \<open>Case analysis on a call of \<open>Apply\<close>: a bad payload, a replayed answer, a fresh command.\<close>

lemma Apply_cases:
  obtains
    (bad) c e where "unmarshal_command b = (c, Some e)" "fst (Apply st b) = st"
  | (dup) c r where "unmarshal_command b = (c, None)" "cached st c = Some r" "Apply st b = (st, r)"
  | (fresh) c where "unmarshal_command b = (c, None)" "cached st c = None"
proof -
  obtain c e where u: "unmarshal_command b = (c, e)" by fastforce
  show thesis
  proof (cases e)
    case None
    with u that(2,3) Apply_cached [of b c st] show ?thesis by (cases "cached st c") auto
  next
    case (Some m)
    with u that(1) Apply_bad [of b c m st] show ?thesis by auto
  qed
qed

section \<open>Well-formed states\<close>

text \<open>
  What every state built by \<open>New\<close> and \<open>Apply\<close> satisfies: the threshold is usable, sequence
  numbers are \<open>uint64\<close> values, a client with a remembered sequence number has a remembered
  answer, fewer votes than the threshold are pending, and nobody votes while nothing plays.
\<close>

definition wf_state :: "State \<Rightarrow> bool" where
  "wf_state st \<longleftrightarrow>
     0 < SkipThreshold st \<and> SkipThreshold st < 2 ^ 63 \<and>
     (\<forall>k v. fmlookup (LastSeq st) k = Some v \<longrightarrow> v < two64) \<and>
     fmdom (LastSeq st) |\<subseteq>| fmdom (LastResult st) \<and>
     int (fmlen (SkipVotes st)) < SkipThreshold st \<and>
     (NowPlaying st = None \<longrightarrow> SkipVotes st = fmempty)"

lemma wf_New [simp]: "wf_state New_jukebox"
  by (simp add: wf_state_def New_jukebox_def zero_state_def)

lemma wf_applyPlayNext: "wf_state st \<Longrightarrow> wf_state (fst (applyPlayNext st))"
  by (auto simp: wf_state_def applyPlayNext_def Let_def split: option.splits list.splits)

text \<open>Playing the next song never looks at the votes it discards.\<close>

lemma applyPlayNext_votes:
  "applyPlayNext (st\<lparr>SkipVotes := v\<rparr>) = applyPlayNext st"
  by (simp add: applyPlayNext_def Let_def snapshotResult_def cloneQueue_def
      split: option.splits list.splits)

lemma wf_applyVoteSkip: "wf_state st \<Longrightarrow> wf_state (fst (applyVoteSkip st c))"
  using wf_applyPlayNext [of st]
  by (auto simp: applyVoteSkip_def Let_def applyPlayNext_votes) (auto simp: wf_state_def)

lemma wf_applyInner: "wf_state st \<Longrightarrow> wf_state (fst (applyInner st c))"
  by (auto simp: applyInner_def wf_applyPlayNext wf_applyVoteSkip)
    (auto simp: wf_state_def applyEnqueue_def applyReorder_def Let_def split: option.splits)

text \<open>Decoding never produces an out-of-range sequence number.\<close>

lemma dec_members_inv:
  assumes "\<And>k j a. P a \<Longrightarrow> P (fst (f k j a))" and "P a"
  shows "P (fst (dec_members f ms a))"
  using assms(2)
proof (induction ms arbitrary: a)
  case Nil
  then show ?case by simp
next
  case (Cons m ms)
  obtain k v where m: "m = (k, v)" by fastforce
  from Cons.prems assms(1) have "P (fst (f k v a))" by blast
  then have "P (fst (dec_members f ms (fst (f k v a))))" by (rule Cons.IH)
  then show ?case by (simp add: m case_prod_beta)
qed

lemma dec_uint64_range: "dec_uint64 j a = (x, e) \<Longrightarrow> a < two64 \<Longrightarrow> x < two64"
  by (cases j) (auto split: if_splits)

lemma unmarshal_command_seq: "unmarshal_command b = (c, e) \<Longrightarrow> cSeq c < two64"
proof -
  assume a: "unmarshal_command b = (c, e)"
  have "cSeq (fst (unmarshal_command b)) < two64"
  proof (cases b)
    case (JsonText j)
    show ?thesis
    proof (cases j)
      case (JObj ms)
      show ?thesis
        unfolding unmarshal_command_def unmarshal_def dec_command_def dec_struct_def JsonText JObj
        by simp (rule dec_members_inv [where P = "\<lambda>c. cSeq c < two64"],
            auto simp: command_field_def into_def op_command_def split: prod.splits dest: dec_uint64_range)
    qed (auto simp: JsonText unmarshal_command_def unmarshal_def dec_command_def dec_struct_def op_command_def)
  qed (auto simp: unmarshal_command_def unmarshal_def op_command_def)
  with a show ?thesis by simp
qed

lemma wf_Apply: "wf_state st \<Longrightarrow> wf_state (fst (Apply st b))"
proof (cases rule: Apply_cases [of b st])
  case (fresh c)
  assume wf: "wf_state st"
  from wf have "wf_state (fst (applyInner st c))" by (rule wf_applyInner)
  moreover have "cSeq c < two64" using fresh(1) by (rule unmarshal_command_seq)
  ultimately show ?thesis
    by (auto simp: Apply_fresh [OF fresh] Let_def case_prod_beta wf_state_def)
qed auto

section \<open>Sessions: at most once, and the same answer to a retry\<close>

text \<open>After a command of a session, the session remembers a number at least as large.\<close>

definition covered :: "State \<Rightarrow> Command \<Rightarrow> bool" where
  "covered st c \<longleftrightarrow> (\<exists>n. fmlookup (LastSeq st) (cClientID c) = Some n \<and> cSeq c \<le> n)"

lemma covered_cached:
  assumes "wf_state st" "session c" "covered st c"
  shows "\<exists>r. cached st c = Some r"
proof -
  from assms(3) obtain n where n: "fmlookup (LastSeq st) (cClientID c) = Some n" "cSeq c \<le> n"
    by (auto simp: covered_def)
  then have "cClientID c |\<in>| fmdom (LastSeq st)" by (blast intro: fmdomI)
  with assms(1) have "cClientID c |\<in>| fmdom (LastResult st)" by (auto simp: wf_state_def)
  then obtain r where "fmlookup (LastResult st) (cClientID c) = Some r"
    by (auto simp: fmlookup_dom_iff)
  with n assms(2) show ?thesis by (simp add: cached_def)
qed

lemma cached_covered: "cached st c = Some r \<Longrightarrow> covered st c"
  by (auto simp: covered_def cached_def split: option.splits if_splits)

lemma covered_Apply:
  assumes "unmarshal_command b = (c, None)" "session c"
  shows "covered (fst (Apply st b)) c"
proof (cases "cached st c")
  case None
  then show ?thesis using assms
    by (simp add: Apply_fresh covered_def Let_def case_prod_beta)
next
  case (Some r)
  then show ?thesis using assms by (simp add: Apply_cached cached_covered)
qed

lemma covered_stays:
  assumes "wf_state st" "covered st c"
  shows "covered (fst (Apply st b)) c"
proof (cases rule: Apply_cases [of b st])
  case (fresh c')
  show ?thesis
  proof (cases "session c' \<and> cClientID c' = cClientID c")
    case True
    with fresh(2) assms(1) have "\<not> covered st c'"
      using covered_cached [of st c'] by auto
    with True assms(2) have "cSeq c \<le> cSeq c'" by (auto simp: covered_def)
    with True show ?thesis
      by (auto simp: Apply_fresh [OF fresh] covered_def Let_def case_prod_beta)
  next
    case False
    with assms(2) show ?thesis
      by (auto simp: Apply_fresh [OF fresh] covered_def Let_def case_prod_beta)
  qed
qed (use assms in auto)

abbreviation run :: "State \<Rightarrow> bytes list \<Rightarrow> State" where
  "run \<equiv> replay Jukebox_SM"

lemma Jukebox_SM_simps [simp]:
  "sm_Apply Jukebox_SM = Apply" "sm_Snapshot Jukebox_SM = Snapshot_jukebox"
  "sm_Restore Jukebox_SM = Restore_jukebox"
  by (simp_all add: Jukebox_SM_def)

lemma wf_run: "wf_state st \<Longrightarrow> wf_state (run st bs)"
  by (induction bs arbitrary: st) (auto simp: wf_Apply)

lemma covered_run: "wf_state st \<Longrightarrow> covered st c \<Longrightarrow> covered (run st bs) c"
  by (induction bs arbitrary: st) (auto simp: wf_Apply covered_stays)

text \<open>Commands of other clients leave a session alone.\<close>

definition of_client :: "string \<Rightarrow> bytes \<Rightarrow> bool" where
  "of_client k b \<longleftrightarrow> (case unmarshal_command b of (c, e) \<Rightarrow> e = None \<and> cClientID c = k)"

lemma Apply_other_client:
  assumes "\<not> of_client k b"
  shows "fmlookup (LastSeq (fst (Apply st b))) k = fmlookup (LastSeq st) k"
    and "fmlookup (LastResult (fst (Apply st b))) k = fmlookup (LastResult st) k"
  using assms by (cases rule: Apply_cases [of b st];
      auto simp: Apply_fresh of_client_def Let_def case_prod_beta)+

lemma run_other_client:
  assumes "\<forall>b\<in>set bs. \<not> of_client k b"
  shows "fmlookup (LastSeq (run st bs)) k = fmlookup (LastSeq st) k"
    and "fmlookup (LastResult (run st bs)) k = fmlookup (LastResult st) k"
  using assms by (induction bs arbitrary: st) (auto simp: Apply_other_client)

lemma cached_Apply:
  assumes "unmarshal_command b = (c, None)" "session c"
  shows "cached (fst (Apply st b)) c = Some (snd (Apply st b))"
proof (cases "cached st c")
  case None
  then show ?thesis using assms
    by (simp add: Apply_fresh cached_def Let_def case_prod_beta)
qed (simp add: assms Apply_cached)

text \<open>
  C6: A session command takes effect at most once: after it was applied, applying it again,
  with any other commands in between, leaves the jukebox unchanged.
\<close>

theorem Apply_at_most_once:
  assumes "wf_state st" "unmarshal_command b = (c, None)" "session c"
  shows "fst (Apply (run (fst (Apply st b)) bs) b) = run (fst (Apply st b)) bs"
proof -
  let ?st = "run (fst (Apply st b)) bs"
  have wf: "wf_state (fst (Apply st b))" using assms(1) by (rule wf_Apply)
  have "covered (fst (Apply st b)) c" using assms(2,3) by (rule covered_Apply)
  with wf have "covered ?st c" by (rule covered_run)
  with wf_run [OF wf] assms(3) obtain r where "cached ?st c = Some r"
    using covered_cached by blast
  with assms(2) show ?thesis by (simp add: Apply_cached)
qed

text \<open>
  C15: A retry sees the first answer: when only commands of other clients were applied in
  between, applying a session command again returns the bytes of its first result and changes
  nothing.
\<close>

theorem Apply_retry_same_answer:
  assumes "unmarshal_command b = (c, None)" "session c"
    and "\<forall>b'\<in>set bs. \<not> of_client (cClientID c) b'"
  shows "Apply (run (fst (Apply st b)) bs) b = (run (fst (Apply st b)) bs, snd (Apply st b))"
proof -
  have "cached (run (fst (Apply st b)) bs) c = cached (fst (Apply st b)) c"
    using run_other_client [OF assms(3)] by (simp add: cached_def split: option.split)
  also have "\<dots> = Some (snd (Apply st b))" using assms(1,2) by (rule cached_Apply)
  finally show ?thesis using assms(1) by (simp add: Apply_cached)
qed


section \<open>No song is lost, duplicated or reordered\<close>

text \<open>
  The songs in the order they are heard: those already played, the current one, the queue.
  \<open>enqueued st b\<close> is what the command \<open>b\<close> adds at the end, if it is a fresh valid enqueue.
\<close>

definition timeline :: "State \<Rightarrow> Song list" where
  "timeline st = History st @ (case NowPlaying st of None \<Rightarrow> [] | Some s \<Rightarrow> [s]) @ Queue st"

definition enqueued :: "State \<Rightarrow> bytes \<Rightarrow> Song list" where
  "enqueued st b =
     (case unmarshal_command b of (c, e) \<Rightarrow>
        if e = None \<and> cached st c = None \<and> cOp c = OpEnqueue then
          (case cSong c of None \<Rightarrow> [] | Some s \<Rightarrow> if sTitle s = '''' then [] else [s])
        else [])"

fun enqueued_all :: "State \<Rightarrow> bytes list \<Rightarrow> Song list" where
  "enqueued_all st [] = []"
| "enqueued_all st (b # bs) = enqueued st b @ enqueued_all (fst (Apply st b)) bs"

definition reorders :: "bytes \<Rightarrow> bool" where
  "reorders b \<longleftrightarrow> (case unmarshal_command b of (c, e) \<Rightarrow> e = None \<and> cOp c = OpReorder)"

lemma timeline_sessions [simp]:
  "timeline (st\<lparr>LastSeq := x\<rparr>) = timeline st" "timeline (st\<lparr>LastResult := y\<rparr>) = timeline st"
  "timeline (st\<lparr>SkipVotes := v\<rparr>) = timeline st"
  by (simp_all add: timeline_def)

lemma timeline_applyPlayNext [simp]: "timeline (fst (applyPlayNext st)) = timeline st"
  by (simp add: applyPlayNext_def timeline_def Let_def split: option.split list.split)

lemma timeline_applyVoteSkip [simp]: "timeline (fst (applyVoteSkip st c)) = timeline st"
  by (simp add: applyVoteSkip_def Let_def)

lemma timeline_applyEnqueue:
  "timeline (fst (applyEnqueue st c)) = timeline st @
     (case cSong c of None \<Rightarrow> [] | Some s \<Rightarrow> if sTitle s = '''' then [] else [s])"
  by (simp add: applyEnqueue_def timeline_def Let_def split: option.split)

lemma mset_move: "i < length q \<Longrightarrow> mset (move q i j) = mset q"
proof -
  assume i: "i < length q"
  let ?q = "take i q @ drop (Suc i) q"
  have "mset (move q i j) = add_mset (q ! i) (mset (take j ?q) + mset (drop j ?q))"
    by (simp add: move_def Let_def)
  also have "mset (take j ?q) + mset (drop j ?q) = mset ?q"
    by (metis append_take_drop_id mset_append)
  also have "add_mset (q ! i) (mset ?q) = mset (take i q @ q ! i # drop (Suc i) q)"
    by simp
  also have "\<dots> = mset q"
    using i by (simp add: id_take_nth_drop [symmetric])
  finally show ?thesis .
qed

lemma mset_timeline_applyReorder: "mset (timeline (fst (applyReorder st c))) = mset (timeline st)"
  by (auto simp: applyReorder_def timeline_def Let_def mset_move split: option.split
      dest: find_index_Some)

lemma timeline_applyInner:
  "cOp c \<noteq> OpReorder \<Longrightarrow> timeline (fst (applyInner st c)) = timeline st @
     (if cOp c = OpEnqueue then
        case cSong c of None \<Rightarrow> [] | Some s \<Rightarrow> if sTitle s = '''' then [] else [s]
      else [])"
  by (simp add: applyInner_def op_defs timeline_applyEnqueue)

lemma mset_timeline_applyInner_reorder:
  "cOp c = OpReorder \<Longrightarrow> mset (timeline (fst (applyInner st c))) = mset (timeline st)"
  by (simp add: applyInner_def op_defs mset_timeline_applyReorder)

lemma timeline_fresh:
  "unmarshal_command b = (c, None) \<Longrightarrow> cached st c = None \<Longrightarrow>
     timeline (fst (Apply st b)) = timeline (fst (applyInner st c))"
  by (simp add: Apply_fresh Let_def case_prod_beta)

lemma timeline_Apply:
  "\<not> reorders b \<Longrightarrow> timeline (fst (Apply st b)) = timeline st @ enqueued st b"
  by (cases rule: Apply_cases [of b st])
    (simp_all add: timeline_fresh timeline_applyInner enqueued_def reorders_def)

lemma mset_timeline_Apply:
  "mset (timeline (fst (Apply st b))) = mset (timeline st @ enqueued st b)"
proof (cases "reorders b")
  case False
  then show ?thesis by (simp add: timeline_Apply)
next
  case True
  then obtain c where c: "unmarshal_command b = (c, None)" "cOp c = OpReorder"
    by (auto simp: reorders_def)
  then show ?thesis
    by (cases "cached st c")
      (simp_all add: enqueued_def op_defs Apply_cached timeline_fresh mset_timeline_applyInner_reorder)
qed

text \<open>
  C17: Over any sequence of commands, the songs heard or queued are exactly the earlier ones and
  those of the fresh valid enqueues, each as often as it was enqueued: none is lost and none is
  duplicated.
\<close>

theorem run_songs_conserved:
  "mset (timeline (run st bs)) = mset (timeline st) + mset (enqueued_all st bs)"
  by (induction bs arbitrary: st) (simp_all add: mset_timeline_Apply)

text \<open>
  C18: Without reorder commands the play order is the enqueue order: playing, skipping and
  voting only move the boundary between heard, current and queued songs.
\<close>

theorem run_play_order:
  assumes "\<forall>b\<in>set bs. \<not> reorders b"
  shows "timeline (run st bs) = timeline st @ enqueued_all st bs"
  using assms by (induction bs arbitrary: st) (simp_all add: timeline_Apply)

section \<open>Votes and reordering\<close>

lemma fmlen_vote:
  "fmlen (fmupd v True m) = (if v |\<in>| fmdom m then fmlen m else Suc (fmlen m))"
  by (rule fmlen_upd)

text \<open>
  C19: A skip vote counts once per voter and the song is skipped exactly when the vote is a new
  voter's and brings the number of distinct voters to the threshold; otherwise the current song
  and the queue stay and the voter is recorded.
\<close>

theorem applyVoteSkip_threshold:
  assumes "wf_state st" "NowPlaying st = Some s"
    and "voter = (if cVoter c = '''' then cClientID c else cVoter c)" "voter \<noteq> ''''"
  shows "fst (applyVoteSkip st c) =
     (if voter |\<notin>| fmdom (SkipVotes st) \<and> int (fmlen (SkipVotes st)) + 1 = SkipThreshold st
      then fst (applyPlayNext st)
      else st\<lparr>SkipVotes := fmupd voter True (SkipVotes st)\<rparr>)"
proof -
  have lt: "int (fmlen (SkipVotes st)) < SkipThreshold st"
    using assms(1) by (simp add: wf_state_def)
  then have reach: "SkipThreshold st \<le> int (fmlen (fmupd voter True (SkipVotes st))) \<longleftrightarrow>
      voter |\<notin>| fmdom (SkipVotes st) \<and> int (fmlen (SkipVotes st)) + 1 = SkipThreshold st"
    by (auto simp: fmlen_vote)
  show ?thesis
    unfolding applyVoteSkip_def assms(3) [symmetric] Let_def
    using assms(2,4) reach by (simp add: applyPlayNext_votes)
qed

definition remove_at :: "nat \<Rightarrow> 'a list \<Rightarrow> 'a list" where
  "remove_at i xs = take i xs @ drop (Suc i) xs"

lemma clamp_to_bounds: "0 < n \<Longrightarrow> clamp_to t n < n"
  by (auto simp: clamp_to_def Let_def)

lemma clamp_to_in_range: "0 \<le> t \<Longrightarrow> t < int n \<Longrightarrow> clamp_to t n = nat t"
  by (auto simp: clamp_to_def Let_def)

lemma move_spec:
  assumes "i < length q" "j < length q"
  shows "length (move q i j) = length q" "move q i j ! j = q ! i"
    and "remove_at j (move q i j) = remove_at i q"
proof -
  define r where "r = take i q @ drop (Suc i) q"
  have len: "length r = length q - 1" using assms by (simp add: r_def)
  have mv: "move q i j = take j r @ q ! i # drop j r"
    by (simp add: move_def Let_def r_def)
  have lt: "length (take j r) = j" using assms len by simp
  show "length (move q i j) = length q" using assms len by (simp add: mv)
  show "move q i j ! j = q ! i" using lt by (simp add: mv nth_append)
  have "take j (move q i j) = take j r" using lt by (simp add: mv)
  moreover have "drop (Suc j) (move q i j) = drop j r" using lt by (simp add: mv)
  ultimately show "remove_at j (move q i j) = remove_at i q"
    by (simp add: remove_at_def r_def [symmetric])
qed


section \<open>Round trips\<close>

lemma key_is_neq:
  "\<not> key_is ''op'' ''clientId''" "\<not> key_is ''op'' ''seq''" "\<not> key_is ''op'' ''song''"
  "\<not> key_is ''op'' ''songId''" "\<not> key_is ''op'' ''toIndex''" "\<not> key_is ''op'' ''voter''"
  "\<not> key_is ''clientId'' ''seq''" "\<not> key_is ''clientId'' ''song''" "\<not> key_is ''clientId'' ''songId''"
  "\<not> key_is ''clientId'' ''toIndex''" "\<not> key_is ''clientId'' ''voter''"
  "\<not> key_is ''seq'' ''song''" "\<not> key_is ''seq'' ''songId''" "\<not> key_is ''seq'' ''toIndex''"
  "\<not> key_is ''seq'' ''voter''" "\<not> key_is ''song'' ''songId''" "\<not> key_is ''song'' ''toIndex''"
  "\<not> key_is ''song'' ''voter''" "\<not> key_is ''songId'' ''toIndex''" "\<not> key_is ''songId'' ''voter''"
  "\<not> key_is ''toIndex'' ''voter''"
  "\<not> key_is ''id'' ''title''" "\<not> key_is ''id'' ''addedBy''" "\<not> key_is ''title'' ''addedBy''"
  by (simp_all add: key_is_def lower_char_def)

lemma key_is_state_neq:
  "\<not> key_is ''queue'' ''nowPlaying''" "\<not> key_is ''queue'' ''history''" "\<not> key_is ''queue'' ''skipVotes''"
  "\<not> key_is ''queue'' ''skipThreshold''" "\<not> key_is ''queue'' ''lastSeq''" "\<not> key_is ''queue'' ''lastResult''"
  "\<not> key_is ''nowPlaying'' ''history''" "\<not> key_is ''nowPlaying'' ''skipVotes''"
  "\<not> key_is ''nowPlaying'' ''skipThreshold''" "\<not> key_is ''nowPlaying'' ''lastSeq''"
  "\<not> key_is ''nowPlaying'' ''lastResult''" "\<not> key_is ''history'' ''skipVotes''"
  "\<not> key_is ''history'' ''skipThreshold''" "\<not> key_is ''history'' ''lastSeq''"
  "\<not> key_is ''history'' ''lastResult''" "\<not> key_is ''skipVotes'' ''skipThreshold''"
  "\<not> key_is ''skipVotes'' ''lastSeq''" "\<not> key_is ''skipVotes'' ''lastResult''"
  "\<not> key_is ''skipThreshold'' ''lastSeq''" "\<not> key_is ''skipThreshold'' ''lastResult''"
  "\<not> key_is ''lastSeq'' ''lastResult''"
  by (simp_all add: key_is_def lower_char_def)

lemmas field_simps_json = song_field_def command_field_def state_field_def into_def
  key_is_neq key_is_state_neq

lemma enc_song_not_null [simp]: "enc_song s \<noteq> JNull"
  by (simp add: enc_song_def)

lemma dec_song_enc_song: "dec_song (enc_song s) zero_song = (s, None)"
  by (simp add: dec_song_def enc_song_def dec_struct_def omitempty_def field_simps_json zero_song_def)

lemma dec_song_ptr: "dec_ptr zero_song dec_song (enc_song_ptr p) None = (p, None)"
proof (cases p)
  case (Some s)
  obtain ms where "enc_song s = JObj ms" by (simp add: enc_song_def)
  with Some dec_song_enc_song [of s] show ?thesis by (simp add: dec_ptr_def enc_song_ptr_def)
qed (simp add: dec_ptr_def enc_song_ptr_def)

lemma unmarshal_Encode:
  assumes "cSeq c < two64" "- (2 ^ 63) \<le> cToIndex c" "cToIndex c < 2 ^ 63"
  shows "unmarshal_command (Encode c) = (c, None)"
proof -
  let ?a1 = "(op_command '''')\<lparr>cOp := cOp c\<rparr>"
  let ?a2 = "?a1\<lparr>cClientID := cClientID c\<rparr>"
  let ?a3 = "?a2\<lparr>cSeq := cSeq c\<rparr>"
  let ?a4 = "?a3\<lparr>cSong := cSong c\<rparr>"
  let ?a5 = "?a4\<lparr>cSongID := cSongID c\<rparr>"
  let ?a6 = "?a5\<lparr>cToIndex := cToIndex c\<rparr>"
  let ?a7 = "?a6\<lparr>cVoter := cVoter c\<rparr>"
  have steps:
    "command_field ''op'' (JStr (cOp c)) (op_command '''') = (?a1, None)"
    "command_field ''clientId'' (JStr (cClientID c)) ?a1 = (?a2, None)"
    "command_field ''seq'' (JInt (int (cSeq c))) ?a2 = (?a3, None)"
    "command_field ''song'' (enc_song_ptr (cSong c)) ?a3 = (?a4, None)"
    "command_field ''songId'' (JStr (cSongID c)) ?a4 = (?a5, None)"
    "command_field ''toIndex'' (JInt (cToIndex c)) ?a5 = (?a6, None)"
    "command_field ''voter'' (JStr (cVoter c)) ?a6 = (?a7, None)"
    using assms by (simp_all add: field_simps_json op_command_def dec_song_ptr)
  have empties: "cClientID c = '''' \<longrightarrow> ?a2 = ?a1" "cSeq c = 0 \<longrightarrow> ?a3 = ?a2"
    "cSong c = None \<longrightarrow> ?a4 = ?a3" "cSongID c = '''' \<longrightarrow> ?a5 = ?a4"
    "cToIndex c = 0 \<longrightarrow> ?a6 = ?a5" "cVoter c = '''' \<longrightarrow> ?a7 = ?a6"
    by (simp_all add: op_command_def)
  note omit = dec_members_omitempty [where f = command_field]
  have last: "dec_members command_field (omitempty (cVoter c = '''') ''voter'' (JStr (cVoter c))) ?a6 = (?a7, None)"
    using omit [where ms = "[]", OF steps(7) empties(6)] by simp
  have "dec_command (case Encode c of JsonText j \<Rightarrow> j) (op_command '''') = (?a7, None)"
    unfolding dec_command_def Encode_def dec_struct_def bytes.case json.case append_Cons append_Nil
    unfolding dec_members_ok [where f = command_field, OF steps(1)] omit [OF steps(2) empties(1)]
      omit [OF steps(3) empties(2)] omit [OF steps(4) empties(3)] omit [OF steps(5) empties(4)]
      omit [OF steps(6) empties(5)] last ..
  then show ?thesis
    by (simp add: unmarshal_command_def unmarshal_def Encode_def op_command_def)
qed

lemma Restore_Snapshot:
  assumes "wf_state st"
  shows "Restore_jukebox st0 (Snapshot_jukebox st) = (st, None)"
proof -
  have th: "dec_int (JInt (SkipThreshold st)) 0 = (SkipThreshold st, None)"
    using assms by (simp add: wf_state_def)
  have seq: "dec_map ''map[string]uint64'' 0 dec_uint64 (enc_map (\<lambda>n. JInt (int n)) (LastSeq st)) fmempty = (LastSeq st, None)"
    using assms by (intro dec_map_enc_map) (auto simp: wf_state_def)
  have votes: "dec_map ''map[string]bool'' False dec_bool (enc_map JBool (SkipVotes st)) fmempty = (SkipVotes st, None)"
    by (intro dec_map_enc_map) auto
  have results: "dec_map ''map[string][]uint8'' NoBytes dec_bytes (enc_map JB64 (LastResult st)) fmempty = (LastResult st, None)"
    by (intro dec_map_enc_map) auto
  have songs: "dec_slice ''[]*jukebox.Song'' zero_song dec_song (JArr (map enc_song q)) [] = (q, None)" for q
    by (rule dec_slice_map) (simp_all add: dec_song_enc_song)
  have "unmarshal dec_state (Snapshot_jukebox st) zero_state = (st, None)"
    by (simp add: unmarshal_def Snapshot_jukebox_def dec_state_def dec_struct_def field_simps_json
        zero_state_def th seq votes results songs dec_song_ptr del: dec_int.simps)
  moreover have "Snapshot_jukebox st \<noteq> NoBytes" "SkipThreshold st \<noteq> 0"
    using assms by (simp_all add: Snapshot_jukebox_def wf_state_def)
  ultimately show ?thesis by (simp add: Restore_jukebox_def)
qed


interpretation jukebox: state_machine Jukebox_SM wf_state
proof unfold_locales
  show "wf_state (fst (sm_Apply Jukebox_SM m c))" if "wf_state m" for m c
    using that by (simp add: wf_Apply)
  show "sm_Restore Jukebox_SM m0 (sm_Snapshot Jukebox_SM m) = (m, None)" if "wf_state m" for m m0
    using that by (simp add: Restore_Snapshot)
  show "sm_Snapshot Jukebox_SM m \<noteq> NoBytes" for m
    by (simp add: Snapshot_jukebox_def)
qed

text \<open>
  C22: Snapshots are exact: a replica that restores the snapshot taken after a log prefix, over
  whatever state it had, is in the state of the replica that took it (sessions and pending votes
  included), and applying the rest of the log gives the state of applying the whole log.
\<close>

theorem Restore_catches_up:
  assumes "wf_state st"
  shows "Restore_jukebox st0 (Snapshot_jukebox (run st pre)) = (run st pre, None) \<and>
     run (fst (Restore_jukebox st0 (Snapshot_jukebox (run st pre)))) suf = run st (pre @ suf)"
proof
  show "Restore_jukebox st0 (Snapshot_jukebox (run st pre)) = (run st pre, None)"
    using jukebox.restore_snapshot [OF jukebox.inv_replay [OF assms]] by simp
  show "run (fst (Restore_jukebox st0 (Snapshot_jukebox (run st pre)))) suf = run st (pre @ suf)"
    using jukebox.catch_up [OF assms, of st0 pre suf] by simp
qed

section \<open>Witnesses\<close>

text \<open>Two enqueues of one client and a play-next of another, as log payloads.\<close>

definition enq_cmd :: "string \<Rightarrow> uint64 \<Rightarrow> string \<Rightarrow> Command" where
  "enq_cmd k n t = (op_command OpEnqueue)\<lparr>cClientID := k, cSeq := n,
     cSong := Some \<lparr>sID = t, sTitle = t, sAddedBy = ''''\<rparr>\<rparr>"

definition play_cmd :: "string \<Rightarrow> uint64 \<Rightarrow> Command" where
  "play_cmd k n = (op_command OpPlayNext)\<lparr>cClientID := k, cSeq := n\<rparr>"

lemma unmarshal_enq_cmd [simp]:
  "n < two64 \<Longrightarrow> unmarshal_command (Encode (enq_cmd k n t)) = (enq_cmd k n t, None)"
  by (rule unmarshal_Encode) (simp_all add: enq_cmd_def op_command_def)

lemma unmarshal_play_cmd [simp]:
  "n < two64 \<Longrightarrow> unmarshal_command (Encode (play_cmd k n)) = (play_cmd k n, None)"
  by (rule unmarshal_Encode) (simp_all add: play_cmd_def op_command_def)

lemma cmd_fields [simp]:
  "cOp (enq_cmd k n t) = OpEnqueue" "cClientID (enq_cmd k n t) = k" "cSeq (enq_cmd k n t) = n"
  "cSong (enq_cmd k n t) = Some \<lparr>sID = t, sTitle = t, sAddedBy = ''''\<rparr>"
  "cOp (play_cmd k n) = OpPlayNext" "cClientID (play_cmd k n) = k" "cSeq (play_cmd k n) = n"
  by (simp_all add: enq_cmd_def play_cmd_def op_command_def)

lemma session_cmds [simp]:
  "session (enq_cmd k n t) \<longleftrightarrow> k \<noteq> '''' \<and> n \<noteq> 0" "session (play_cmd k n) \<longleftrightarrow> k \<noteq> '''' \<and> n \<noteq> 0"
  by (simp_all add: session_def enq_cmd_def play_cmd_def op_command_def)

lemma one_two_lt [simp]: "1 < two64" "2 < two64" "Suc 0 < two64"
  by (simp_all add: two64_def)

lemma Apply_enq_New:
  "Queue (fst (Apply New_jukebox (Encode (enq_cmd ''c1'' n t)))) =
     (if t = '''' then [] else [\<lparr>sID = t, sTitle = t, sAddedBy = ''''\<rparr>])"
  if "n < two64"
  using that
  by (simp add: Apply_def cached_def New_jukebox_def zero_state_def applyInner_def op_defs
      applyEnqueue_def Let_def)

theorem Apply_at_most_once_witness:
  "fst (Apply (run (fst (Apply New_jukebox (Encode (enq_cmd ''c1'' 1 ''A'')))) [Encode (play_cmd ''c2'' 1)])
        (Encode (enq_cmd ''c1'' 1 ''A''))) =
     run (fst (Apply New_jukebox (Encode (enq_cmd ''c1'' 1 ''A'')))) [Encode (play_cmd ''c2'' 1)]"
  by (rule Apply_at_most_once [where c = "enq_cmd ''c1'' 1 ''A''"]) simp_all

theorem Apply_retry_same_answer_witness:
  "Apply (run (fst (Apply New_jukebox (Encode (enq_cmd ''c1'' 1 ''A'')))) [Encode (play_cmd ''c2'' 1)])
        (Encode (enq_cmd ''c1'' 1 ''A'')) =
     (run (fst (Apply New_jukebox (Encode (enq_cmd ''c1'' 1 ''A'')))) [Encode (play_cmd ''c2'' 1)],
      snd (Apply New_jukebox (Encode (enq_cmd ''c1'' 1 ''A''))))"
  by (rule Apply_retry_same_answer [where c = "enq_cmd ''c1'' 1 ''A''"])
    (simp_all add: of_client_def)


theorem run_play_order_witness:
  "timeline (run New_jukebox [Encode (enq_cmd ''c1'' 1 ''A''), Encode (play_cmd ''c2'' 1)]) =
     timeline New_jukebox @ enqueued_all New_jukebox [Encode (enq_cmd ''c1'' 1 ''A''), Encode (play_cmd ''c2'' 1)]"
  by (rule run_play_order) (simp add: reorders_def op_defs)

definition w_song :: "string \<Rightarrow> Song" where
  "w_song t = \<lparr>sID = t, sTitle = t, sAddedBy = ''''\<rparr>"

definition w_state :: State where
  "w_state = New_jukebox\<lparr>NowPlaying := Some (w_song ''A''), Queue := [w_song ''B'', w_song ''C''],
     SkipVotes := fmupd ''u1'' True (fmupd ''u2'' True fmempty)\<rparr>"

theorem applyVoteSkip_threshold_witness:
  "NowPlaying (fst (applyVoteSkip w_state ((op_command OpVoteSkip)\<lparr>cVoter := ''u3''\<rparr>))) = Some (w_song ''B'')"
proof -
  have wf: "wf_state w_state"
    by (simp add: wf_state_def w_state_def New_jukebox_def zero_state_def fmlen_upd)
  have np: "NowPlaying w_state = Some (w_song ''A'')" by (simp add: w_state_def)
  show ?thesis
    by (subst applyVoteSkip_threshold [OF wf np, where voter = "''u3''"])
      (simp_all add: op_command_def w_state_def New_jukebox_def zero_state_def fmlen_upd
        applyPlayNext_def Let_def)
qed



theorem Restore_catches_up_witness:
  "Restore_jukebox zero_state (Snapshot_jukebox (run New_jukebox [Encode (enq_cmd ''c1'' 1 ''A'')])) =
     (run New_jukebox [Encode (enq_cmd ''c1'' 1 ''A'')], None)"
  using Restore_catches_up [OF wf_New, of zero_state "[Encode (enq_cmd ''c1'' 1 ''A'')]" "[]"] by blast

end
