(* ===== verification/RaftPb.thy ===== *)
theory RaftPb
  imports Json
begin

text \<open>
  The messages of \<open>src/proto/raft.proto\<close> (generated Go structs in
  \<open>src/proto/raftpb/raft.pb.go\<close>).  Field names that several messages share carry a prefix.
  A \<open>*LogEntry\<close> is a value: the program never changes an entry after it was built.  The
  lemmas are about \<open>contiguous\<close> runs of entries, the shape every log and every
  \<open>AppendEntries\<close> batch has.
\<close>

type_synonym nodeid = string

record LogEntry =
  Term :: uint64
  Index :: uint64
  Cmd :: bytes

record RequestVoteRequest =
  rvTerm :: uint64
  CandidateId :: nodeid
  LastLogIndex :: uint64
  LastLogTerm :: uint64
  PreVote :: bool

record RequestVoteResponse =
  rvrTerm :: uint64
  VoteGranted :: bool

record AppendEntriesRequest =
  aeTerm :: uint64
  aeLeaderId :: nodeid
  PrevLogIndex :: uint64
  PrevLogTerm :: uint64
  aeEntries :: "LogEntry list"
  LeaderCommit :: uint64

record AppendEntriesResponse =
  aerTerm :: uint64
  Success :: bool
  ConflictIndex :: uint64
  ConflictTerm :: uint64

record InstallSnapshotRequest =
  isTerm :: uint64
  isLeaderId :: nodeid
  LastIncludedIndex :: uint64
  LastIncludedTerm :: uint64
  isData :: bytes

record InstallSnapshotResponse =
  isrTerm :: uint64

section \<open>Contiguous runs of entries\<close>

text \<open>The entries carry the indexes \<open>k\<close>, \<open>k + 1\<close>, and so on.\<close>

fun contiguous :: "nat \<Rightarrow> LogEntry list \<Rightarrow> bool" where
  "contiguous k [] \<longleftrightarrow> True"
| "contiguous k (e # es) \<longleftrightarrow> Index e = k \<and> contiguous (Suc k) es"

lemma contiguous_append [simp]:
  "contiguous k (xs @ ys) \<longleftrightarrow> contiguous k xs \<and> contiguous (k + length xs) ys"
  by (induction xs arbitrary: k) auto

lemma contiguous_nth: "contiguous k es \<Longrightarrow> i < length es \<Longrightarrow> Index (es ! i) = k + i"
  by (induction es arbitrary: k i) (auto simp: nth_Cons split: nat.splits)

lemma contiguous_take: "contiguous k es \<Longrightarrow> contiguous k (take i es)"
  by (induction es arbitrary: k i) (auto simp: take_Cons split: nat.splits)

lemma contiguous_drop: "contiguous k es \<Longrightarrow> contiguous (k + i) (drop i es)"
proof (induction es arbitrary: k i)
  case (Cons e es)
  then show ?case by (cases i) (auto simp: add.commute [of "Suc k"] dest: Cons.IH)
qed simp

lemma contiguous_index_ge: "contiguous k es \<Longrightarrow> e \<in> set es \<Longrightarrow> k \<le> Index e"
  by (induction es arbitrary: k) (auto dest: Suc_leD)

lemma contiguous_index_lt: "contiguous k es \<Longrightarrow> e \<in> set es \<Longrightarrow> Index e < k + length es"
  by (metis contiguous_nth in_set_conv_nth nat_add_left_cancel_less)

lemma contiguous_last: "contiguous k es \<Longrightarrow> es \<noteq> [] \<Longrightarrow> Index (last es) = k + length es - 1"
  by (induction es arbitrary: k) auto

lemma contiguous_filter_lt:
  "contiguous k es \<Longrightarrow> filter (\<lambda>e. Index e < i) es = take (i - k) es"
proof (induction es arbitrary: k)
  case (Cons e es)
  then have "filter (\<lambda>e. Index e < i) es = take (i - Suc k) es" by simp
  moreover have "i - k = Suc (i - Suc k)" if "k < i" using that by simp
  ultimately show ?case using Cons.prems by (cases "k < i") auto
qed simp

lemma contiguous_filter_gt:
  "contiguous k es \<Longrightarrow> k \<le> Suc i \<Longrightarrow> filter (\<lambda>e. i < Index e) es = drop (Suc i - k) es"
proof (induction es arbitrary: k)
  case (Cons e es)
  show ?case
  proof (cases "k = Suc i")
    case True
    with Cons.prems(1) have "\<forall>x\<in>set (e # es). i < Index x"
      by (fastforce dest: contiguous_index_ge)
    with True show ?thesis by (simp add: filter_id_conv)
  next
    case False
    with Cons.prems have "k \<le> i" by simp
    with Cons show ?thesis by (auto simp: Suc_diff_le)
  qed
qed simp

lemma contiguous_unique_index:
  "contiguous k es \<Longrightarrow> x \<in> set es \<Longrightarrow> y \<in> set es \<Longrightarrow> Index x = Index y \<Longrightarrow> x = y"
  by (metis add_left_cancel contiguous_nth in_set_conv_nth)

lemma contiguous_distinct: "contiguous k es \<Longrightarrow> distinct (map Index es)"
  by (auto simp: distinct_conv_nth contiguous_nth)

lemma contiguous_sorted: "contiguous k es \<Longrightarrow> sorted (map Index es)"
  by (auto simp: sorted_iff_nth_mono contiguous_nth)

end
