(* ===== verification/Store.thy ===== *)
theory Store
  imports RaftPb
begin

text \<open>
  Durable storage, \<open>src/internal/store\<close>: the records \<open>HardState\<close> and \<open>Snapshot\<close>, the
  \<open>Storage\<close> interface as a record of methods over the type of the store, and its in-memory
  implementation \<open>MemStore\<close> (\<open>mem.go\<close>).  The locale \<open>storage\<close> is the contract written in
  the interface's comments, in terms of what the load methods return; a method that reports an
  error leaves the store as it was.  \<open>MemStore\<close> is shown to satisfy it.
\<close>

record HardState =
  hsTerm :: uint64
  VotedFor :: nodeid

record Snapshot =
  snapIndex :: uint64
  snapTerm :: uint64
  snapData :: bytes

record 's Storage =
  SaveHardState :: "'s \<Rightarrow> HardState \<Rightarrow> 's \<times> error"
  LoadHardState :: "'s \<Rightarrow> HardState \<times> error"
  Append :: "'s \<Rightarrow> LogEntry list \<Rightarrow> 's \<times> error"
  TruncateSuffix :: "'s \<Rightarrow> uint64 \<Rightarrow> 's \<times> error"
  TruncatePrefix :: "'s \<Rightarrow> uint64 \<Rightarrow> 's \<times> error"
  AllEntries :: "'s \<Rightarrow> LogEntry list \<times> error"
  SaveSnapshot :: "'s \<Rightarrow> Snapshot \<Rightarrow> 's \<times> error"
  LoadSnapshot :: "'s \<Rightarrow> Snapshot \<times> error"
  Close :: "'s \<Rightarrow> 's \<times> error"

section \<open>The contract\<close>

locale storage =
  fixes S :: "'s Storage" and valid :: "'s \<Rightarrow> bool"
  assumes save_hs: "valid s \<Longrightarrow> SaveHardState S s h = (s', None) \<Longrightarrow>
      valid s' \<and> LoadHardState S s' = (h, None) \<and> AllEntries S s' = AllEntries S s \<and>
      LoadSnapshot S s' = LoadSnapshot S s"
    and append: "valid s \<Longrightarrow> Append S s es = (s', None) \<Longrightarrow> AllEntries S s = (l, None) \<Longrightarrow>
      contiguous k (l @ es) \<Longrightarrow>
      valid s' \<and> AllEntries S s' = (l @ es, None) \<and> LoadHardState S s' = LoadHardState S s \<and>
      LoadSnapshot S s' = LoadSnapshot S s"
    and truncate_suffix: "valid s \<Longrightarrow> TruncateSuffix S s i = (s', None) \<Longrightarrow> AllEntries S s = (l, None) \<Longrightarrow>
      valid s' \<and> AllEntries S s' = (filter (\<lambda>e. Index e < i) l, None) \<and>
      LoadHardState S s' = LoadHardState S s \<and> LoadSnapshot S s' = LoadSnapshot S s"
    and truncate_prefix: "valid s \<Longrightarrow> TruncatePrefix S s i = (s', None) \<Longrightarrow> AllEntries S s = (l, None) \<Longrightarrow>
      valid s' \<and> AllEntries S s' = (filter (\<lambda>e. i < Index e) l, None) \<and>
      LoadHardState S s' = LoadHardState S s \<and> LoadSnapshot S s' = LoadSnapshot S s"
    and save_snapshot: "valid s \<Longrightarrow> SaveSnapshot S s p = (s', None) \<Longrightarrow>
      valid s' \<and> LoadSnapshot S s' = (p, None) \<and> AllEntries S s' = AllEntries S s \<and>
      LoadHardState S s' = LoadHardState S s"
    and entries_ascending: "valid s \<Longrightarrow> AllEntries S s = (l, None) \<Longrightarrow>
      sorted (map Index l) \<and> distinct (map Index l)"
    and rolled_back:
      "SaveHardState S s h = (s', Some e) \<Longrightarrow> s' = s" "Append S s es = (s', Some e) \<Longrightarrow> s' = s"
      "TruncateSuffix S s i = (s', Some e) \<Longrightarrow> s' = s" "TruncatePrefix S s i = (s', Some e) \<Longrightarrow> s' = s"
      "SaveSnapshot S s p = (s', Some e) \<Longrightarrow> s' = s"

section \<open>The in-memory store\<close>

record MemStore =
  ms_hs :: HardState
  ms_log :: "(uint64, LogEntry) fmap"
  ms_snap :: Snapshot

definition NewMemStore :: MemStore where
  "NewMemStore = \<lparr>ms_hs = \<lparr>hsTerm = 0, VotedFor = ''''\<rparr>, ms_log = fmempty,
     ms_snap = \<lparr>snapIndex = 0, snapTerm = 0, snapData = NoBytes\<rparr>\<rparr>"

definition mem_SaveHardState :: "MemStore \<Rightarrow> HardState \<Rightarrow> MemStore \<times> error" where
  "mem_SaveHardState s h = (s\<lparr>ms_hs := h\<rparr>, None)"

definition mem_LoadHardState :: "MemStore \<Rightarrow> HardState \<times> error" where
  "mem_LoadHardState s = (ms_hs s, None)"

definition mem_Append :: "MemStore \<Rightarrow> LogEntry list \<Rightarrow> MemStore \<times> error" where
  "mem_Append s es = (s\<lparr>ms_log := fold (\<lambda>e. fmupd (Index e) e) es (ms_log s)\<rparr>, None)"

definition mem_TruncateSuffix :: "MemStore \<Rightarrow> uint64 \<Rightarrow> MemStore \<times> error" where
  "mem_TruncateSuffix s idx = (s\<lparr>ms_log := fmfilter (\<lambda>k. \<not> idx \<le> k) (ms_log s)\<rparr>, None)"

definition mem_TruncatePrefix :: "MemStore \<Rightarrow> uint64 \<Rightarrow> MemStore \<times> error" where
  "mem_TruncatePrefix s idx = (s\<lparr>ms_log := fmfilter (\<lambda>k. \<not> k \<le> idx) (ms_log s)\<rparr>, None)"

definition mem_AllEntries :: "MemStore \<Rightarrow> LogEntry list \<times> error" where
  "mem_AllEntries s = (map (\<lambda>k. the (fmlookup (ms_log s) k)) (keys_sorted (ms_log s)), None)"

definition mem_SaveSnapshot :: "MemStore \<Rightarrow> Snapshot \<Rightarrow> MemStore \<times> error" where
  "mem_SaveSnapshot s p = (s\<lparr>ms_snap := p\<rparr>, None)"

definition mem_LoadSnapshot :: "MemStore \<Rightarrow> Snapshot \<times> error" where
  "mem_LoadSnapshot s = (ms_snap s, None)"

definition mem_Close :: "MemStore \<Rightarrow> MemStore \<times> error" where
  "mem_Close s = (s, None)"

definition MemStorage :: "MemStore Storage" where
  "MemStorage = \<lparr>SaveHardState = mem_SaveHardState, LoadHardState = mem_LoadHardState,
     Append = mem_Append, TruncateSuffix = mem_TruncateSuffix, TruncatePrefix = mem_TruncatePrefix,
     AllEntries = mem_AllEntries, SaveSnapshot = mem_SaveSnapshot, LoadSnapshot = mem_LoadSnapshot,
     Close = mem_Close\<rparr>"

section \<open>The in-memory store satisfies the contract\<close>

text \<open>Every entry of the map is stored under its own index.\<close>

definition mem_valid :: "MemStore \<Rightarrow> bool" where
  "mem_valid s \<longleftrightarrow> (\<forall>k e. fmlookup (ms_log s) k = Some e \<longrightarrow> Index e = k)"

lemma mem_validD: "mem_valid s \<Longrightarrow> fmlookup (ms_log s) k = Some e \<Longrightarrow> Index e = k"
  by (simp add: mem_valid_def)

lemma mem_valid_New [simp]: "mem_valid NewMemStore"
  by (simp add: mem_valid_def NewMemStore_def)

abbreviation mem_list :: "(uint64, LogEntry) fmap \<Rightarrow> LogEntry list" where
  "mem_list m \<equiv> map (\<lambda>k. the (fmlookup m k)) (keys_sorted m)"

text \<open>
  The list of a map keyed by index is characterised by being in index order and having the
  map's entries.
\<close>

lemma mem_list_eqI:
  assumes "sorted (map Index l)" "distinct (map Index l)"
    and "\<And>k e. fmlookup m k = Some e \<longleftrightarrow> e \<in> set l \<and> Index e = k"
  shows "mem_list m = l"
proof -
  have "set (map Index l) = fset (fmdom m)"
    using assms(3) by (auto simp: fmlookup_dom_iff)
  then have "keys_sorted m = map Index l"
    using assms(1,2) by (intro keys_sorted_eqI) auto
  moreover have "map (\<lambda>k. the (fmlookup m k)) (map Index l) = l"
    using assms(3) by (auto simp: comp_def intro!: map_idI)
      (metis option.sel)
  ultimately show ?thesis by simp
qed

lemma mem_list_props:
  assumes "mem_valid s"
  shows "map Index (mem_list (ms_log s)) = keys_sorted (ms_log s)"
    and "sorted (map Index (mem_list (ms_log s)))" "distinct (map Index (mem_list (ms_log s)))"
    and "e \<in> set (mem_list (ms_log s)) \<longleftrightarrow> fmlookup (ms_log s) (Index e) = Some e"
proof -
  have ix: "Index (the (fmlookup (ms_log s) k)) = k" if "k |\<in>| fmdom (ms_log s)" for k
    using that assms by (auto simp: mem_valid_def fmlookup_dom_iff)
  then show m: "map Index (mem_list (ms_log s)) = keys_sorted (ms_log s)"
    by (auto intro: map_idI)
  show "sorted (map Index (mem_list (ms_log s)))" "distinct (map Index (mem_list (ms_log s)))"
    unfolding m by simp_all
  show "e \<in> set (mem_list (ms_log s)) \<longleftrightarrow> fmlookup (ms_log s) (Index e) = Some e"
    using ix assms by (auto simp: mem_valid_def image_iff fmlookup_dom_iff)
      (metis fmdomI option.sel)
qed

lemma fmlookup_fold_entries:
  assumes "distinct (map Index es)"
  shows "fmlookup (fold (\<lambda>e. fmupd (Index e) e) es m) k = Some e \<longleftrightarrow>
     e \<in> set es \<and> Index e = k \<or> fmlookup m k = Some e \<and> k \<notin> set (map Index es)"
  using assms by (induction es arbitrary: m) (auto simp: image_iff)

lemma mem_valid_filter: "mem_valid s \<Longrightarrow> mem_valid (s\<lparr>ms_log := fmfilter P (ms_log s)\<rparr>)"
  by (simp add: mem_valid_def)

lemma mem_list_filter:
  assumes "mem_valid s"
  shows "mem_list (fmfilter P (ms_log s)) = filter (\<lambda>e. P (Index e)) (mem_list (ms_log s))"
proof (rule mem_list_eqI)
  show "sorted (map Index (filter (\<lambda>e. P (Index e)) (mem_list (ms_log s))))"
    using mem_list_props(2) [OF assms] by (rule sorted_filter)
  show "distinct (map Index (filter (\<lambda>e. P (Index e)) (mem_list (ms_log s))))"
    using mem_list_props(3) [OF assms] by (rule distinct_map_filter)
  show "fmlookup (fmfilter P (ms_log s)) k = Some e \<longleftrightarrow>
      e \<in> set (filter (\<lambda>e. P (Index e)) (mem_list (ms_log s))) \<and> Index e = k" for k e
    unfolding set_filter mem_Collect_eq mem_list_props(4) [OF assms] fmlookup_filter
    by (metis mem_validD [OF assms] option.distinct(1))
qed

lemma mem_list_append:
  assumes v: "mem_valid s" and c: "contiguous k (mem_list (ms_log s) @ es)"
  shows "mem_list (fold (\<lambda>e. fmupd (Index e) e) es (ms_log s)) = mem_list (ms_log s) @ es"
    and "mem_valid (s\<lparr>ms_log := fold (\<lambda>e. fmupd (Index e) e) es (ms_log s)\<rparr>)"
proof -
  let ?l = "mem_list (ms_log s)"
  have d: "distinct (map Index (?l @ es))" using c by (rule contiguous_distinct)
  then have des: "distinct (map Index es)" by simp
  have look: "fmlookup (fold (\<lambda>e. fmupd (Index e) e) es (ms_log s)) i = Some e \<longleftrightarrow>
      e \<in> set (?l @ es) \<and> Index e = i" for i e
  proof -
    have "Index e \<notin> set (map Index es)" if "e \<in> set ?l"
      using d that by auto
    then show ?thesis
      unfolding fmlookup_fold_entries [OF des] set_append Un_iff mem_list_props(4) [OF v]
      using mem_validD [OF v] by blast
  qed
  show "mem_list (fold (\<lambda>e. fmupd (Index e) e) es (ms_log s)) = ?l @ es"
    using contiguous_sorted [OF c] d look by (rule mem_list_eqI)
  show "mem_valid (s\<lparr>ms_log := fold (\<lambda>e. fmupd (Index e) e) es (ms_log s)\<rparr>)"
    by (simp add: mem_valid_def look)
qed

lemmas mem_defs = MemStorage_def mem_SaveHardState_def mem_LoadHardState_def mem_Append_def
  mem_TruncateSuffix_def mem_TruncatePrefix_def mem_AllEntries_def mem_SaveSnapshot_def
  mem_LoadSnapshot_def mem_Close_def

interpretation mem: storage MemStorage mem_valid
proof unfold_locales
  fix s s' :: MemStore and es l k i
  assume v: "mem_valid s"
  show "mem_valid s' \<and> AllEntries MemStorage s' = (l @ es, None) \<and>
      LoadHardState MemStorage s' = LoadHardState MemStorage s \<and>
      LoadSnapshot MemStorage s' = LoadSnapshot MemStorage s"
    if "Append MemStorage s es = (s', None)" "AllEntries MemStorage s = (l, None)" "contiguous k (l @ es)"
    using that mem_list_append [OF v, of k es] by (auto simp: mem_defs)
  show "mem_valid s' \<and> AllEntries MemStorage s' = (filter (\<lambda>e. Index e < i) l, None) \<and>
      LoadHardState MemStorage s' = LoadHardState MemStorage s \<and>
      LoadSnapshot MemStorage s' = LoadSnapshot MemStorage s"
    if "TruncateSuffix MemStorage s i = (s', None)" "AllEntries MemStorage s = (l, None)"
    using that mem_list_filter [OF v] mem_valid_filter [OF v] by (auto simp: mem_defs not_le)
  show "mem_valid s' \<and> AllEntries MemStorage s' = (filter (\<lambda>e. i < Index e) l, None) \<and>
      LoadHardState MemStorage s' = LoadHardState MemStorage s \<and>
      LoadSnapshot MemStorage s' = LoadSnapshot MemStorage s"
    if "TruncatePrefix MemStorage s i = (s', None)" "AllEntries MemStorage s = (l, None)"
    using that mem_list_filter [OF v] mem_valid_filter [OF v] by (auto simp: mem_defs not_le)
  show "sorted (map Index l) \<and> distinct (map Index l)" if "AllEntries MemStorage s = (l, None)"
    using that mem_list_props(2,3) [OF v] by (auto simp: mem_defs)
qed (auto simp: mem_defs mem_valid_def)

end
