(* ===== verification/Node.thy ===== *)
theory Node
  imports Interfaces Store
begin

text \<open>
  The state of one Raft server and the operations of \<open>src/internal/raft/node.go\<close> other than
  proposals: configuration, construction from durable storage, the log helpers, persistence,
  stepping down, and the apply loop.

  Every method of the source runs under the node's mutex, so a method (or a section between
  \<open>Lock\<close> and \<open>Unlock\<close>) is one function from node to node.  What the Go runtime keeps for the
  node is explicit: \<open>chans\<close> holds the contents of the one-place result channels,
  \<open>applyCh\<close> and \<open>triggerCh\<close> whether a signal is waiting, \<open>goroutines\<close> the goroutines
  started with \<open>go\<close>, \<open>cancelledCtx\<close> the cancelled contexts, and \<open>fault\<close> a panic or a send
  that would block for ever while the mutex is held.  The clock and the random source are
  inputs (\<open>env\<close>).  Logging is left out.
\<close>

section \<open>Types\<close>

datatype Role = Follower | Candidate | Leader

fun Role_String :: "Role \<Rightarrow> string" where
  "Role_String Follower = ''follower''"
| "Role_String Candidate = ''candidate''"
| "Role_String Leader = ''leader''"

definition ErrNotLeader :: string where "ErrNotLeader = ''not leader''"
definition ErrLostLeadership :: string where "ErrLostLeadership = ''lost leadership before commit''"
definition ErrStopped :: string where "ErrStopped = ''node stopped''"
definition ErrTimeout :: string where "ErrTimeout = ''operation timed out''"

text \<open>Times and durations are in nanoseconds.\<close>

definition Millisecond :: int where "Millisecond = 1000000"

record ('s, 'm) Config =
  ID :: nodeid
  Peers :: "nodeid list"
  cfgStorage :: "'s Storage option"
  cfgTransport :: "nodeid option"
  cfgStateMachine :: "'m StateMachine option"
  HeartbeatInterval :: int
  ElectionTimeoutMin :: int
  ElectionTimeoutMax :: int
  SnapshotThreshold :: int
  DisablePreVote :: bool

definition preVoteEnabled :: "('s, 'm) Config \<Rightarrow> bool" where
  "preVoteEnabled c \<longleftrightarrow> \<not> DisablePreVote c"

definition withDefaults :: "('s, 'm) Config \<Rightarrow> ('s, 'm) Config" where
  "withDefaults c =
     (let c = (if HeartbeatInterval c = 0 then c\<lparr>HeartbeatInterval := 50 * Millisecond\<rparr> else c);
          c = (if ElectionTimeoutMin c = 0 then c\<lparr>ElectionTimeoutMin := 150 * Millisecond\<rparr> else c);
          c = (if ElectionTimeoutMax c = 0 then c\<lparr>ElectionTimeoutMax := 300 * Millisecond\<rparr> else c);
          c = (if SnapshotThreshold c = 0 then c\<lparr>SnapshotThreshold := 1000\<rparr> else c)
      in c)"

record proposeResult =
  pr_result :: bytes
  pr_err :: error

record waiter =
  w_term :: uint64
  w_ch :: nat

datatype fault = Panic | Deadlock

text \<open>The goroutines a node starts, with the arguments they are started with.\<close>

datatype task =
    ElectionLoop
  | ApplyLoop
  | Campaign uint64 uint64 uint64
  | GatherVotes uint64 uint64 uint64 bool
  | ReplicationLoop nat nodeid

record ('s, 'm) Node =
  cfg :: "('s, 'm) Config"
  store_if :: "'s Storage"
  disk :: 's
  sm_if :: "'m StateMachine"
  sm :: 'm
  nid :: nodeid
  peers :: "nodeid list"
  quorum :: nat
  currentTerm :: uint64
  votedFor :: nodeid
  entries :: "LogEntry list"
  snapshotIndex :: uint64
  snapshotTerm :: uint64
  snapshotData :: bytes
  role :: Role
  leaderID :: nodeid
  commitIndex :: uint64
  lastApplied :: uint64
  nextIndex :: "nodeid \<rightharpoonup> uint64"
  matchIndex :: "nodeid \<rightharpoonup> uint64"
  triggerCh :: "nodeid \<rightharpoonup> bool"
  electionDeadline :: "int option"
  lastLeaderContact :: "int option"
  applyCh :: bool
  pending :: "(uint64, waiter) fmap"
  stopped :: bool
  running :: bool
  leaderCtx :: "nat option"
  appliedCount :: uint64
  chans :: "nat \<Rightarrow> proposeResult option"
  nextChan :: nat
  nextCtx :: nat
  cancelledCtx :: "nat list"
  goroutines :: "task list"
  fault :: "fault option"

text \<open>What a step reads from outside: the clock and a random number.\<close>

record env =
  now :: int
  rnd :: int

text \<open>\<open>rand.Int63n(n)\<close> is some number in \<open>[0, n)\<close>; it panics unless \<open>n\<close> is positive.\<close>

definition Int63n :: "env \<Rightarrow> int \<Rightarrow> int" where
  "Int63n e n = rnd e mod n"

section \<open>Log helpers\<close>

definition lastIndex :: "('s, 'm) Node \<Rightarrow> uint64" where
  "lastIndex n = Index (last (entries n))"

definition lastTerm :: "('s, 'm) Node \<Rightarrow> uint64" where
  "lastTerm n = Term (last (entries n))"

definition termAt :: "('s, 'm) Node \<Rightarrow> uint64 \<Rightarrow> uint64 option" where
  "termAt n index =
     (if index < snapshotIndex n then None
      else
        let off = sub64 index (snapshotIndex n) in
        if length (entries n) \<le> off then None else Some (Term (entries n ! off)))"

definition entryAt :: "('s, 'm) Node \<Rightarrow> uint64 \<Rightarrow> LogEntry option" where
  "entryAt n index =
     (let off = sub64 index (snapshotIndex n) in
      if off < length (entries n) then Some (entries n ! off) else None)"

definition sliceFrom :: "('s, 'm) Node \<Rightarrow> uint64 \<Rightarrow> LogEntry list" where
  "sliceFrom n from =
     (let from = (if from \<le> snapshotIndex n then add64 (snapshotIndex n) 1 else from);
          off = sub64 from (snapshotIndex n)
      in if length (entries n) \<le> off then [] else drop off (entries n))"

definition firstIndexOfTerm :: "('s, 'm) Node \<Rightarrow> uint64 \<Rightarrow> uint64" where
  "firstIndexOfTerm n term =
     (case find (\<lambda>e. Term e = term) (entries n) of
        Some e \<Rightarrow> Index e
      | None \<Rightarrow> add64 (snapshotIndex n) 1)"

section \<open>Persistence\<close>

text \<open>An error of the store is logged and otherwise ignored.\<close>

definition persistHardState :: "('s, 'm) Node \<Rightarrow> ('s, 'm) Node" where
  "persistHardState n =
     (let (d, err) = SaveHardState (store_if n) (disk n) \<lparr>hsTerm = currentTerm n, VotedFor = votedFor n\<rparr>
      in n\<lparr>disk := d\<rparr>)"

definition persistAppend :: "('s, 'm) Node \<Rightarrow> LogEntry list \<Rightarrow> ('s, 'm) Node" where
  "persistAppend n es = (let (d, err) = Append (store_if n) (disk n) es in n\<lparr>disk := d\<rparr>)"

definition persistTruncateSuffix :: "('s, 'm) Node \<Rightarrow> uint64 \<Rightarrow> ('s, 'm) Node" where
  "persistTruncateSuffix n from =
     (let (d, err) = TruncateSuffix (store_if n) (disk n) from in n\<lparr>disk := d\<rparr>)"

definition persistTruncatePrefix :: "('s, 'm) Node \<Rightarrow> uint64 \<Rightarrow> ('s, 'm) Node" where
  "persistTruncatePrefix n idx =
     (let (d, err) = TruncatePrefix (store_if n) (disk n) idx in n\<lparr>disk := d\<rparr>)"

section \<open>Construction\<close>

definition loadFromStorage :: "('s, 'm) Node \<Rightarrow> ('s, 'm) Node \<times> error" where
  "loadFromStorage n =
     (case LoadHardState (store_if n) (disk n) of
        (hs, Some err) \<Rightarrow> (n, Some err)
      | (hs, None) \<Rightarrow>
        let n = n\<lparr>currentTerm := hsTerm hs, votedFor := VotedFor hs\<rparr> in
        case LoadSnapshot (store_if n) (disk n) of
          (snap, Some err) \<Rightarrow> (n, Some err)
        | (snap, None) \<Rightarrow>
          let n = n\<lparr>snapshotIndex := snapIndex snap, snapshotTerm := snapTerm snap, snapshotData := snapData snap\<rparr> in
          case (if snapData snap \<noteq> NoBytes then sm_Restore (sm_if n) (sm n) (snapData snap) else (sm n, None)) of
            (m, Some err) \<Rightarrow> (n\<lparr>sm := m\<rparr>, Some (''restore snapshot: '' @ err))
          | (m, None) \<Rightarrow>
            let n = n\<lparr>sm := m\<rparr>;
                n = n\<lparr>entries := [\<lparr>Term = snapshotTerm n, Index = snapshotIndex n, Cmd = NoBytes\<rparr>]\<rparr> in
            case AllEntries (store_if n) (disk n) of
              (persisted, Some err) \<Rightarrow> (n, Some err)
            | (persisted, None) \<Rightarrow>
              (n\<lparr>entries := entries n @ filter (\<lambda>e. snapshotIndex n < Index e) persisted,
                 commitIndex := snapshotIndex n,
                 lastApplied := snapshotIndex n\<rparr>, None))"

text \<open>
  \<open>New\<close> gets the store and the state machine as objects behind the interfaces of the
  configuration: their current states are the arguments \<open>d\<close> and \<open>m\<close>.
\<close>

definition New :: "('s, 'm) Config \<Rightarrow> 's \<Rightarrow> 'm \<Rightarrow> string + ('s, 'm) Node" where
  "New c d m =
     (let c = withDefaults c in
      case (cfgStorage c, cfgTransport c, cfgStateMachine c) of
        (Some S, Some T, Some M) \<Rightarrow>
          let n = \<lparr>cfg = c, store_if = S, disk = d, sm_if = M, sm = m, nid = ID c,
                   peers = filter (\<lambda>p. p \<noteq> ID c) (Peers c),
                   quorum = length (Peers c) div 2 + 1,
                   currentTerm = 0, votedFor = '''', entries = [], snapshotIndex = 0, snapshotTerm = 0,
                   snapshotData = NoBytes, role = Follower, leaderID = '''', commitIndex = 0,
                   lastApplied = 0, nextIndex = Map.empty, matchIndex = Map.empty,
                   triggerCh = Map.empty, electionDeadline = None, lastLeaderContact = None,
                   applyCh = False, pending = fmempty, stopped = False, running = False,
                   leaderCtx = None, appliedCount = 0, chans = (\<lambda>_. None), nextChan = 0,
                   nextCtx = 0, cancelledCtx = [], goroutines = [], fault = None\<rparr>
          in case loadFromStorage n of (n, Some err) \<Rightarrow> Inl err | (n, None) \<Rightarrow> Inr n
      | _ \<Rightarrow> Inl ''raft: Storage, Transport and StateMachine are required'')"

section \<open>Signals, channels and timers\<close>

definition signalApply :: "('s, 'm) Node \<Rightarrow> ('s, 'm) Node" where
  "signalApply n = n\<lparr>applyCh := True\<rparr>"

text \<open>A send on a full channel blocks for ever, a select with \<open>default\<close> drops the value.\<close>

definition chan_send :: "('s, 'm) Node \<Rightarrow> nat \<Rightarrow> proposeResult \<Rightarrow> ('s, 'm) Node" where
  "chan_send n c v =
     (case chans n c of None \<Rightarrow> n\<lparr>chans := (chans n)(c \<mapsto> v)\<rparr> | Some _ \<Rightarrow> n\<lparr>fault := Some Deadlock\<rparr>)"

definition chan_try_send :: "('s, 'm) Node \<Rightarrow> nat \<Rightarrow> proposeResult \<Rightarrow> ('s, 'm) Node" where
  "chan_try_send n c v =
     (case chans n c of None \<Rightarrow> n\<lparr>chans := (chans n)(c \<mapsto> v)\<rparr> | Some _ \<Rightarrow> n)"

definition resetElectionDeadline :: "env \<Rightarrow> ('s, 'm) Node \<Rightarrow> ('s, 'm) Node" where
  "resetElectionDeadline e n =
     (let k = ElectionTimeoutMax (cfg n) - ElectionTimeoutMin (cfg n) + 1 in
      if k \<le> 0 then n\<lparr>fault := Some Panic\<rparr>
      else n\<lparr>electionDeadline := Some (now e + (ElectionTimeoutMin (cfg n) + Int63n e k))\<rparr>)"

section \<open>Lifecycle and role transitions\<close>

definition Start :: "env \<Rightarrow> ('s, 'm) Node \<Rightarrow> ('s, 'm) Node" where
  "Start e n =
     (if running n then n
      else
        let n = n\<lparr>running := True\<rparr>;
            n = resetElectionDeadline e n
        in n\<lparr>goroutines := goroutines n @ [ElectionLoop, ApplyLoop]\<rparr>)"

definition cancelLeaderCtx :: "('s, 'm) Node \<Rightarrow> ('s, 'm) Node" where
  "cancelLeaderCtx n =
     (case leaderCtx n of None \<Rightarrow> n | Some c \<Rightarrow> n\<lparr>cancelledCtx := c # cancelledCtx n\<rparr>)"

text \<open>
  Removing every waiter, in the order of their indexes.  The order does not matter: each
  waiter has its own channel.
\<close>

definition drop_pending ::
    "(('s, 'm) Node \<Rightarrow> nat \<Rightarrow> proposeResult \<Rightarrow> ('s, 'm) Node) \<Rightarrow> string \<Rightarrow> uint64 \<Rightarrow> ('s, 'm) Node \<Rightarrow> ('s, 'm) Node" where
  "drop_pending send err idx n =
     (case fmlookup (pending n) idx of
        None \<Rightarrow> n
      | Some w \<Rightarrow>
          let n = send n (w_ch w) \<lparr>pr_result = NoBytes, pr_err = Some err\<rparr>
          in n\<lparr>pending := fmdrop idx (pending n)\<rparr>)"

definition failPending :: "string \<Rightarrow> ('s, 'm) Node \<Rightarrow> ('s, 'm) Node" where
  "failPending err n = fold (drop_pending chan_try_send err) (keys_sorted (pending n)) n"

definition Stop :: "('s, 'm) Node \<Rightarrow> ('s, 'm) Node" where
  "Stop n =
     (if \<not> running n then n
      else
        let n = n\<lparr>running := False\<rparr>;
            n = (if stopped n then n\<lparr>fault := Some Panic\<rparr> else n\<lparr>stopped := True\<rparr>);
            n = cancelLeaderCtx n
        in fold (drop_pending chan_send ErrStopped) (keys_sorted (pending n)) n)"

definition stepDown :: "uint64 \<Rightarrow> ('s, 'm) Node \<Rightarrow> ('s, 'm) Node" where
  "stepDown term n =
     (let n = (if currentTerm n < term then persistHardState (n\<lparr>currentTerm := term, votedFor := ''''\<rparr>) else n);
          n = n\<lparr>role := Follower\<rparr>;
          n = (cancelLeaderCtx n)\<lparr>leaderCtx := None\<rparr>
      in failPending ErrLostLeadership n)"

section \<open>The state machine and the snapshot\<close>

definition maybeSnapshotLocked :: "('s, 'm) Node \<Rightarrow> ('s, 'm) Node" where
  "maybeSnapshotLocked n =
     (if SnapshotThreshold (cfg n) \<le> 0 then n
      else if int (length (entries n)) - 1 \<le> SnapshotThreshold (cfg n) then n
      else if lastApplied n \<le> snapshotIndex n then n
      else
        let snapIdx = lastApplied n in
        case termAt n snapIdx of
          None \<Rightarrow> n
        | Some snapTm \<Rightarrow>
          let data = sm_Snapshot (sm_if n) (sm n) in
          case SaveSnapshot (store_if n) (disk n) \<lparr>snapIndex = snapIdx, snapTerm = snapTm, snapData = data\<rparr> of
            (d, Some err) \<Rightarrow> n\<lparr>disk := d\<rparr>
          | (d, None) \<Rightarrow>
            let n = persistTruncatePrefix (n\<lparr>disk := d\<rparr>) snapIdx;
                kept = sliceFrom n (add64 snapIdx 1)
            in n\<lparr>entries := \<lparr>Term = snapTm, Index = snapIdx, Cmd = NoBytes\<rparr> # kept,
                  snapshotIndex := snapIdx, snapshotTerm := snapTm, snapshotData := data\<rparr>)"

text \<open>
  One turn of the loop in \<open>applyReady\<close>.  \<open>lastApplied\<close> is below \<open>commitIndex\<close>, so its
  increment cannot wrap; an entry outside the log is an index out of range.
\<close>

definition deliver :: "('s, 'm) Node \<Rightarrow> uint64 \<Rightarrow> LogEntry \<Rightarrow> bytes \<Rightarrow> ('s, 'm) Node" where
  "deliver n idx e result =
     (case fmlookup (pending n) idx of
        None \<Rightarrow> n
      | Some w \<Rightarrow>
          let n = chan_send n (w_ch w)
                (if w_term w = Term e then \<lparr>pr_result = result, pr_err = None\<rparr>
                 else \<lparr>pr_result = NoBytes, pr_err = Some ErrLostLeadership\<rparr>)
          in n\<lparr>pending := fmdrop idx (pending n)\<rparr>)"

definition applyOne :: "('s, 'm) Node \<Rightarrow> ('s, 'm) Node" where
  "applyOne n =
     (let idx = lastApplied n + 1;
          n = n\<lparr>lastApplied := idx\<rparr>
      in if idx \<le> snapshotIndex n then n
         else case entryAt n idx of
           None \<Rightarrow> n\<lparr>fault := Some Panic\<rparr>
         | Some e \<Rightarrow>
             let (m, result) = sm_Apply (sm_if n) (sm n) (Cmd e);
                 n = n\<lparr>sm := m, appliedCount := add64 (appliedCount n) 1\<rparr>
             in deliver n idx e result)"

lemma applyOne_indexes [simp]:
  "lastApplied (applyOne n) = lastApplied n + 1" "commitIndex (applyOne n) = commitIndex n"
  by (simp_all add: applyOne_def Let_def deliver_def chan_send_def case_prod_beta split: option.split)

function applyAll :: "('s, 'm) Node \<Rightarrow> ('s, 'm) Node" where
  "applyAll n = (if fault n = None \<and> lastApplied n < commitIndex n then applyAll (applyOne n) else n)"
  by pat_completeness auto
termination
  by (relation "measure (\<lambda>n. commitIndex n - lastApplied n)") auto

declare applyAll.simps [simp del]

definition applyReady :: "('s, 'm) Node \<Rightarrow> ('s, 'm) Node" where
  "applyReady n = (let n = applyAll n in if fault n = None then maybeSnapshotLocked n else n)"

section \<open>Observers\<close>

record Status =
  stID :: nodeid
  stTerm :: uint64
  stRole :: string
  stLeaderID :: nodeid
  stCommitIndex :: uint64
  stLastApplied :: uint64
  stLastIndex :: uint64
  stLogSize :: int
  stSnapshotIdx :: uint64

definition NodeStatus :: "('s, 'm) Node \<Rightarrow> Status" where
  "NodeStatus n = \<lparr>stID = nid n, stTerm = currentTerm n, stRole = Role_String (role n),
     stLeaderID = leaderID n, stCommitIndex = commitIndex n, stLastApplied = lastApplied n,
     stLastIndex = lastIndex n, stLogSize = int (length (entries n)) - 1,
     stSnapshotIdx = snapshotIndex n\<rparr>"

definition IsLeader :: "('s, 'm) Node \<Rightarrow> bool" where
  "IsLeader n \<longleftrightarrow> role n = Leader"

definition LeaderID :: "('s, 'm) Node \<Rightarrow> nodeid" where
  "LeaderID n = leaderID n"

end
