(* ===== verification/NodeFacts.thy ===== *)
theory NodeFacts
  imports Node
begin

text \<open>
  Facts about the node that every handler's proofs share: the helpers as updates of the
  fields they write, the shape of a well-formed log, and what the log accessors return on it.
\<close>

section \<open>Normal forms of the helpers\<close>

text \<open>
  Each helper is an update of the fields it writes; the rest of the proofs rewrite with these
  equations, so that a field an operation does not write is unchanged by simplification.
\<close>

lemma persist_conv [go_defs]:
  "persistHardState n =
     n\<lparr>disk := fst (SaveHardState (store_if n) (disk n) \<lparr>hsTerm = currentTerm n, VotedFor = votedFor n\<rparr>)\<rparr>"
  "persistAppend n es = n\<lparr>disk := fst (Append (store_if n) (disk n) es)\<rparr>"
  "persistTruncateSuffix n i = n\<lparr>disk := fst (TruncateSuffix (store_if n) (disk n) i)\<rparr>"
  "persistTruncatePrefix n i = n\<lparr>disk := fst (TruncatePrefix (store_if n) (disk n) i)\<rparr>"
  by (simp_all add: persistHardState_def persistAppend_def persistTruncateSuffix_def
      persistTruncatePrefix_def case_prod_beta)

definition timer_ok :: "('s, 'm) Config \<Rightarrow> bool" where
  "timer_ok c \<longleftrightarrow> ElectionTimeoutMin c \<le> ElectionTimeoutMax c"

definition next_deadline :: "env \<Rightarrow> ('s, 'm) Node \<Rightarrow> int option" where
  "next_deadline e n =
     (if timer_ok (cfg n) then
        Some (now e + (ElectionTimeoutMin (cfg n) +
          Int63n e (ElectionTimeoutMax (cfg n) - ElectionTimeoutMin (cfg n) + 1)))
      else electionDeadline n)"

lemma resetElectionDeadline_conv [go_defs]:
  "resetElectionDeadline e n = n\<lparr>electionDeadline := next_deadline e n,
     fault := (if timer_ok (cfg n) then fault n else Some Panic)\<rparr>"
  by (auto simp: resetElectionDeadline_def next_deadline_def timer_ok_def Let_def)

lemma drop_pending_chan:
  "drop_pending chan_try_send err i n =
     n\<lparr>pending := fmdrop i (pending n),
       chans := (case fmlookup (pending n) i of
           None \<Rightarrow> chans n
         | Some w \<Rightarrow> if chans n (w_ch w) = None
             then (chans n)(w_ch w \<mapsto> \<lparr>pr_result = NoBytes, pr_err = Some err\<rparr>) else chans n)\<rparr>"
proof -
  have "fmlookup (pending n) i = None \<Longrightarrow> fmdrop i (pending n) = pending n"
    by (rule fmap_ext) simp
  then show ?thesis
    by (auto simp: drop_pending_def chan_try_send_def Let_def split: option.split)
qed

definition fail_chans :: "string \<Rightarrow> ('s, 'm) Node \<Rightarrow> nat \<Rightarrow> proposeResult option" where
  "fail_chans err n = chans (failPending err n)"

lemma fold_drop_pending:
  "\<exists>c. fold (drop_pending chan_try_send err) ks n =
     n\<lparr>pending := fmfilter (\<lambda>k. k \<notin> set ks) (pending n), chans := c\<rparr>"
proof (induction ks arbitrary: n)
  case Nil
  have "fmfilter (\<lambda>_. True) (pending n) = pending n" by (rule fmap_ext) simp
  then show ?case by (intro exI [of _ "chans n"]) simp
next
  case (Cons k ks)
  obtain c where c: "drop_pending chan_try_send err k n = n\<lparr>pending := fmdrop k (pending n), chans := c\<rparr>"
    using drop_pending_chan by blast
  have p: "fmfilter (\<lambda>i. i \<notin> set ks) (fmdrop k (pending n)) = fmfilter (\<lambda>i. i \<notin> set (k # ks)) (pending n)"
    by (rule fmap_ext) simp
  from Cons.IH [of "n\<lparr>pending := fmdrop k (pending n), chans := c\<rparr>"] obtain c' where
    "fold (drop_pending chan_try_send err) ks (n\<lparr>pending := fmdrop k (pending n), chans := c\<rparr>) =
       n\<lparr>pending := fmfilter (\<lambda>i. i \<notin> set ks) (fmdrop k (pending n)), chans := c'\<rparr>"
    by (auto cong del: fmfilter_cong)
  then have "fold (drop_pending chan_try_send err) (k # ks) n =
       n\<lparr>pending := fmfilter (\<lambda>i. i \<notin> set (k # ks)) (pending n), chans := c'\<rparr>"
    by (simp only: fold_simps(2) c p)
  then show ?case by blast
qed

lemma failPending_conv [go_defs]:
  "failPending err n = n\<lparr>pending := fmempty, chans := fail_chans err n\<rparr>"
proof -
  have "fmfilter (\<lambda>k. k \<notin> set (keys_sorted (pending n))) (pending n) = fmempty"
    by (rule fmap_ext) (auto dest: fmdom_notD)
  then show ?thesis
    using fold_drop_pending [of err "keys_sorted (pending n)" n]
    unfolding failPending_def fail_chans_def by auto
qed

lemma cancelLeaderCtx_conv [go_defs]:
  "cancelLeaderCtx n = n\<lparr>cancelledCtx := (case leaderCtx n of None \<Rightarrow> cancelledCtx n | Some c \<Rightarrow> c # cancelledCtx n)\<rparr>"
  by (simp add: cancelLeaderCtx_def split: option.split)

lemma fold_drop_pending_chans:
  "pending n = pending n' \<Longrightarrow> chans n = chans n' \<Longrightarrow>
   chans (fold (drop_pending chan_try_send err) ks n) = chans (fold (drop_pending chan_try_send err) ks n')"
proof (induction ks arbitrary: n n')
  case (Cons k ks)
  have "pending (drop_pending chan_try_send err k n) = pending (drop_pending chan_try_send err k n')"
    "chans (drop_pending chan_try_send err k n) = chans (drop_pending chan_try_send err k n')"
    using Cons.prems by (simp_all add: drop_pending_chan split: option.split)
  then show ?case by (simp add: Cons.IH [of "drop_pending chan_try_send err k n" "drop_pending chan_try_send err k n'"])
qed simp

lemma fail_chans_cong:
  "pending n = pending n' \<Longrightarrow> chans n = chans n' \<Longrightarrow> fail_chans err n = fail_chans err n'"
  unfolding fail_chans_def failPending_def using fold_drop_pending_chans [of n n'] by simp

lemma fail_chans_upd [simp]:
  "fail_chans e (n\<lparr>currentTerm := a\<rparr>) = fail_chans e n"
  "fail_chans e (n\<lparr>votedFor := b\<rparr>) = fail_chans e n"
  "fail_chans e (n\<lparr>disk := d\<rparr>) = fail_chans e n"
  "fail_chans e (n\<lparr>role := r\<rparr>) = fail_chans e n"
  "fail_chans e (n\<lparr>cancelledCtx := c\<rparr>) = fail_chans e n"
  "fail_chans e (n\<lparr>leaderCtx := l\<rparr>) = fail_chans e n"
  by (rule fail_chans_cong; simp)+

lemma stepDown_conv [go_defs]:
  "stepDown t n = n\<lparr>currentTerm := max (currentTerm n) t,
     votedFor := (if currentTerm n < t then '''' else votedFor n),
     disk := (if currentTerm n < t then fst (SaveHardState (store_if n) (disk n) \<lparr>hsTerm = t, VotedFor = ''''\<rparr>) else disk n),
     role := Follower,
     cancelledCtx := (case leaderCtx n of None \<Rightarrow> cancelledCtx n | Some c \<Rightarrow> c # cancelledCtx n),
     leaderCtx := None,
     pending := fmempty, chans := fail_chans ErrLostLeadership n\<rparr>"
proof -
  let ?d = "if currentTerm n < t then fst (SaveHardState (store_if n) (disk n) \<lparr>hsTerm = t, VotedFor = ''''\<rparr>) else disk n"
  have *: "(if currentTerm n < t then persistHardState (n\<lparr>currentTerm := t, votedFor := ''''\<rparr>) else n) =
     n\<lparr>currentTerm := max (currentTerm n) t, votedFor := (if currentTerm n < t then '''' else votedFor n), disk := ?d\<rparr>"
    by (simp add: persist_conv max_def)
  have **: "failPending e ((cancelLeaderCtx (n\<lparr>currentTerm := a, votedFor := b, disk := d, role := r\<rparr>))\<lparr>leaderCtx := None\<rparr>) =
     n\<lparr>currentTerm := a, votedFor := b, disk := d, role := r,
       cancelledCtx := (case leaderCtx n of None \<Rightarrow> cancelledCtx n | Some c \<Rightarrow> c # cancelledCtx n),
       leaderCtx := None, pending := fmempty, chans := fail_chans e n\<rparr>" for e a b d r
    by (simp add: failPending_conv cancelLeaderCtx_conv split: option.split)
  show ?thesis
    unfolding stepDown_def Let_def * ** ..
qed

section \<open>Well-formed logs\<close>

text \<open>
  The log starts with the sentinel of the snapshot and is contiguous, and the next index still
  fits a \<open>uint64\<close>.
\<close>

definition sentinel :: "('s, 'm) Node \<Rightarrow> LogEntry" where
  "sentinel n = \<lparr>Term = snapshotTerm n, Index = snapshotIndex n, Cmd = NoBytes\<rparr>"

definition log_ok :: "('s, 'm) Node \<Rightarrow> bool" where
  "log_ok n \<longleftrightarrow>
     entries n \<noteq> [] \<and> hd (entries n) = sentinel n \<and> contiguous (snapshotIndex n) (entries n) \<and>
     snapshotIndex n + length (entries n) < two64"

definition idx_ok :: "('s, 'm) Node \<Rightarrow> bool" where
  "idx_ok n \<longleftrightarrow> snapshotIndex n \<le> lastApplied n \<and> lastApplied n \<le> commitIndex n \<and> commitIndex n \<le> lastIndex n"

lemma lastIndex_eq: "log_ok n \<Longrightarrow> lastIndex n = snapshotIndex n + length (entries n) - 1"
  unfolding log_ok_def lastIndex_def using contiguous_last by blast

lemma lastIndex_less: "log_ok n \<Longrightarrow> lastIndex n + 1 < two64"
  by (cases "entries n") (auto simp: lastIndex_eq log_ok_def)

lemma length_entries: "log_ok n \<Longrightarrow> length (entries n) = lastIndex n - snapshotIndex n + 1"
  by (cases "entries n") (auto simp: lastIndex_eq log_ok_def)

lemma snapshotIndex_le_last: "log_ok n \<Longrightarrow> snapshotIndex n \<le> lastIndex n"
  by (cases "entries n") (auto simp: lastIndex_eq log_ok_def)

lemma termAt_eq:
  assumes "log_ok n"
  shows "termAt n i =
     (if snapshotIndex n \<le> i \<and> i \<le> lastIndex n then Some (Term (entries n ! (i - snapshotIndex n))) else None)"
  using length_entries [OF assms] snapshotIndex_le_last [OF assms]
  by (auto simp: termAt_def Let_def)

lemma entryAt_eq:
  assumes "log_ok n" "snapshotIndex n \<le> i" "i \<le> lastIndex n"
  shows "entryAt n i = Some (entries n ! (i - snapshotIndex n))"
  using assms length_entries [OF assms(1)] by (auto simp: entryAt_def Let_def)

lemma sliceFrom_eq:
  assumes "log_ok n" "snapshotIndex n < i"
  shows "sliceFrom n i = drop (i - snapshotIndex n) (entries n)"
  using assms by (auto simp: sliceFrom_def Let_def)

lemma entries_Index:
  "log_ok n \<Longrightarrow> i < length (entries n) \<Longrightarrow> Index (entries n ! i) = snapshotIndex n + i"
  by (simp add: log_ok_def contiguous_nth)

lemma termAt_last: "log_ok n \<Longrightarrow> termAt n (lastIndex n) = Some (lastTerm n)"
  using length_entries [of n] snapshotIndex_le_last [of n] termAt_eq [of n "lastIndex n"]
  by (auto simp: lastTerm_def last_conv_nth log_ok_def)

lemma termAt_snapshot: "log_ok n \<Longrightarrow> termAt n (snapshotIndex n) = Some (snapshotTerm n)"
  using snapshotIndex_le_last [of n] termAt_eq [of n "snapshotIndex n"]
  by (auto simp: log_ok_def sentinel_def hd_conv_nth)

lemma firstIndexOfTerm_at:
  assumes "log_ok n" "termAt n i = Some t"
  shows "firstIndexOfTerm n t \<le> i" "termAt n (firstIndexOfTerm n t) = Some t"
proof -
  let ?s = "snapshotIndex n"
  from assms have i: "?s \<le> i" "i \<le> lastIndex n" "t = Term (entries n ! (i - ?s))"
    by (auto simp: termAt_eq split: if_splits)
  then have len: "i - ?s < length (entries n)" using length_entries [OF assms(1)] by simp
  then have "find (\<lambda>e. Term e = t) (entries n) \<noteq> None"
    using i(3) by (simp add: find_None_iff) (metis nth_mem)
  then obtain e where e: "find (\<lambda>e. Term e = t) (entries n) = Some e" by blast
  then obtain j where j: "j < length (entries n)" "Term (entries n ! j) = t" "e = entries n ! j"
      "\<forall>k<j. Term (entries n ! k) \<noteq> t"
    by (auto simp: find_Some_iff)
  then have "j \<le> i - ?s" using i(3) by (metis not_le)
  have first: "firstIndexOfTerm n t = ?s + j"
    using e j assms(1) by (simp add: firstIndexOfTerm_def entries_Index)
  show "firstIndexOfTerm n t \<le> i" using first \<open>j \<le> i - ?s\<close> i(1) by simp
  show "termAt n (firstIndexOfTerm n t) = Some t"
    using j(1,2) first i \<open>j \<le> i - ?s\<close> by (simp add: termAt_eq assms(1))
qed

end
