(* ===== verification/Replication.thy ===== *)
theory Replication
  imports Jukebox NodeFacts
begin

text \<open>
  Log replication, \<open>src/internal/raft/replication.go\<close>, and the client proposals of
  \<open>node.go\<close>.  A method that releases the mutex around an RPC is split at that point:
  \<open>sendAppendEntries\<close> is the section that builds the request and
  \<open>sendAppendEntries_reply\<close> the one that handles the answer, with the local variables the
  code keeps across the call as arguments.
\<close>

section \<open>Committing\<close>

definition noopCommand :: bytes where
  "noopCommand = Encode (op_command OpNoop)"

text \<open>Every channel in the map has one place; the send has a \<open>default\<close> branch.\<close>

definition triggerReplication :: "('s, 'm) Node \<Rightarrow> ('s, 'm) Node" where
  "triggerReplication n = n\<lparr>triggerCh := map_option (\<lambda>_. True) \<circ> triggerCh n\<rparr>"

definition replicaCount :: "('s, 'm) Node \<Rightarrow> uint64 \<Rightarrow> nat" where
  "replicaCount n idx = 1 + length (filter (\<lambda>peer. idx \<le> mget (matchIndex n) peer) (peers n))"

function commitScan :: "('s, 'm) Node \<Rightarrow> uint64 \<Rightarrow> uint64 option" where
  "commitScan n idx =
     (if commitIndex n < idx then
        (if termAt n idx = Some (currentTerm n) \<and> quorum n \<le> replicaCount n idx then Some idx
         else commitScan n (idx - 1))
      else None)"
  by pat_completeness auto
termination
  by (relation "measure snd") auto

declare commitScan.simps [simp del]

definition advanceCommitLocked :: "('s, 'm) Node \<Rightarrow> ('s, 'm) Node" where
  "advanceCommitLocked n =
     (case commitScan n (lastIndex n) of
        None \<Rightarrow> n
      | Some idx \<Rightarrow> signalApply (n\<lparr>commitIndex := idx\<rparr>))"

section \<open>The leader's side\<close>

datatype sendPlan =
    SendNothing
  | SendSnapshotTo uint64
  | SendEntries AppendEntriesRequest

definition sendAppendEntries :: "('s, 'm) Node \<Rightarrow> nodeid \<Rightarrow> sendPlan" where
  "sendAppendEntries n peer =
     (if role n \<noteq> Leader then SendNothing
      else
        let ni = mget (nextIndex n) peer in
        if ni \<le> snapshotIndex n then SendSnapshotTo (currentTerm n)
        else
          let prevIndex = sub64 ni 1 in
          case termAt n prevIndex of
            None \<Rightarrow> SendSnapshotTo (currentTerm n)
          | Some prevTerm \<Rightarrow>
              SendEntries \<lparr>aeTerm = currentTerm n, aeLeaderId = nid n, PrevLogIndex = prevIndex,
                PrevLogTerm = prevTerm, aeEntries = sliceFrom n ni, LeaderCommit = commitIndex n\<rparr>)"

definition lastOfTerm :: "('s, 'm) Node \<Rightarrow> uint64 \<Rightarrow> uint64" where
  "lastOfTerm n t = fold (\<lambda>e acc. if Term e = t then Index e else acc) (entries n) 0"

definition nextIndexAfterConflict :: "('s, 'm) Node \<Rightarrow> AppendEntriesResponse \<Rightarrow> uint64" where
  "nextIndexAfterConflict n resp =
     (if ConflictTerm resp = 0 then (if ConflictIndex resp = 0 then 1 else ConflictIndex resp)
      else if 0 < lastOfTerm n (ConflictTerm resp) then add64 (lastOfTerm n (ConflictTerm resp)) 1
      else ConflictIndex resp)"

definition triggerPeer :: "('s, 'm) Node \<Rightarrow> nodeid \<Rightarrow> ('s, 'm) Node" where
  "triggerPeer n peer =
     (case triggerCh n peer of None \<Rightarrow> n | Some _ \<Rightarrow> n\<lparr>triggerCh := (triggerCh n)(peer \<mapsto> True)\<rparr>)"

definition sendAppendEntries_reply ::
    "('s, 'm) Node \<Rightarrow> nodeid \<Rightarrow> AppendEntriesRequest \<Rightarrow> AppendEntriesResponse \<Rightarrow> ('s, 'm) Node" where
  "sendAppendEntries_reply n peer req resp =
     (if currentTerm n < aerTerm resp then stepDown (aerTerm resp) n
      else if role n \<noteq> Leader \<or> currentTerm n \<noteq> aeTerm req then n
      else if Success resp then
        let newMatch = add64 (PrevLogIndex req) (length (aeEntries req)) in
        if mget (matchIndex n) peer < newMatch then
          advanceCommitLocked
            (n\<lparr>matchIndex := (matchIndex n)(peer \<mapsto> newMatch),
               nextIndex := (nextIndex n)(peer \<mapsto> add64 newMatch 1)\<rparr>)
        else n
      else
        let n = n\<lparr>nextIndex := (nextIndex n)(peer \<mapsto> nextIndexAfterConflict n resp)\<rparr>;
            n = (if mget (nextIndex n) peer < 1 then n\<lparr>nextIndex := (nextIndex n)(peer \<mapsto> 1)\<rparr> else n)
        in triggerPeer n peer)"

section \<open>The follower's side\<close>

text \<open>One turn of the merge loop, with the list \<open>toPersist\<close> as the second component.\<close>

definition mergeEntry ::
    "LogEntry \<Rightarrow> ('s, 'm) Node \<times> LogEntry list \<Rightarrow> ('s, 'm) Node \<times> LogEntry list" where
  "mergeEntry e acc =
     (let (n, toPersist) = acc in
      if Index e \<le> snapshotIndex n then (n, toPersist)
      else case termAt n (Index e) of
        Some existing \<Rightarrow>
          if existing = Term e then (n, toPersist)
          else
            let n = n\<lparr>entries := take (sub64 (Index e) (snapshotIndex n)) (entries n)\<rparr>;
                n = persistTruncateSuffix n (Index e)
            in (n\<lparr>entries := entries n @ [e]\<rparr>, toPersist @ [e])
      | None \<Rightarrow> (n\<lparr>entries := entries n @ [e]\<rparr>, toPersist @ [e]))"

definition mergeEntries :: "('s, 'm) Node \<Rightarrow> LogEntry list \<Rightarrow> ('s, 'm) Node" where
  "mergeEntries n es =
     (let (n, toPersist) = fold mergeEntry es (n, []) in
      if toPersist \<noteq> [] then persistAppend n toPersist else n)"

definition commitTo :: "('s, 'm) Node \<Rightarrow> uint64 \<Rightarrow> ('s, 'm) Node" where
  "commitTo n leaderCommit =
     (if commitIndex n < leaderCommit then
        signalApply (n\<lparr>commitIndex := min64 leaderCommit (lastIndex n)\<rparr>)
      else n)"

definition AppendEntries ::
    "env \<Rightarrow> ('s, 'm) Node \<Rightarrow> AppendEntriesRequest \<Rightarrow> ('s, 'm) Node \<times> AppendEntriesResponse" where
  "AppendEntries e n req =
     (let resp = \<lparr>aerTerm = currentTerm n, Success = False, ConflictIndex = 0, ConflictTerm = 0\<rparr> in
      if aeTerm req < currentTerm n then (n, resp)
      else
        let n = (if currentTerm n < aeTerm req then stepDown (aeTerm req) n else n);
            n = n\<lparr>role := Follower, leaderID := aeLeaderId req, lastLeaderContact := Some (now e)\<rparr>;
            n = resetElectionDeadline e n;
            resp = resp\<lparr>aerTerm := currentTerm n\<rparr>
        in
        if lastIndex n < PrevLogIndex req then
          (n, resp\<lparr>ConflictIndex := add64 (lastIndex n) 1, ConflictTerm := 0\<rparr>)
        else if snapshotIndex n \<le> PrevLogIndex req \<and> termAt n (PrevLogIndex req) \<noteq> Some (PrevLogTerm req) then
          let t = (case termAt n (PrevLogIndex req) of None \<Rightarrow> 0 | Some t \<Rightarrow> t) in
          (n, resp\<lparr>ConflictTerm := t, ConflictIndex := firstIndexOfTerm n t\<rparr>)
        else
          (commitTo (mergeEntries n (aeEntries req)) (LeaderCommit req), resp\<lparr>Success := True\<rparr>))"

section \<open>Proposals\<close>

definition appendOwn :: "('s, 'm) Node \<Rightarrow> bytes \<Rightarrow> ('s, 'm) Node \<times> LogEntry" where
  "appendOwn n cmd =
     (let e = \<lparr>Term = currentTerm n, Index = add64 (lastIndex n) 1, Cmd = cmd\<rparr>;
          n = n\<lparr>entries := entries n @ [e]\<rparr>
      in (persistAppend n [e], e))"

definition Propose :: "('s, 'm) Node \<Rightarrow> bytes \<Rightarrow> ('s, 'm) Node \<times> uint64 \<times> uint64 \<times> bool" where
  "Propose n cmd =
     (if role n \<noteq> Leader then (n, 0, 0, False)
      else
        let (n, e) = appendOwn n cmd
        in (triggerReplication (advanceCommitLocked n), Index e, Term e, True))"

text \<open>
  \<open>Submit\<close> up to the \<open>select\<close>: the entry's index and the waiter's fresh channel are what the
  caller then waits with.
\<close>

definition Submit :: "('s, 'm) Node \<Rightarrow> bytes \<Rightarrow> ('s, 'm) Node \<times> (string + uint64 \<times> nat)" where
  "Submit n cmd =
     (if role n \<noteq> Leader then (n, Inl ErrNotLeader)
      else
        let (n, e) = appendOwn n cmd;
            c = nextChan n;
            n = n\<lparr>nextChan := Suc c, chans := (chans n)(c := None)\<rparr>;
            n = n\<lparr>pending := fmupd (Index e) \<lparr>w_term = Term e, w_ch = c\<rparr> (pending n)\<rparr>
        in (triggerReplication (advanceCommitLocked n), Inr (Index e, c)))"

datatype submitWake = CtxDone string | StopClosed | ResultReady

text \<open>The branches of the \<open>select\<close>; a branch that is not ready cannot be taken.\<close>

definition Submit_wake ::
    "('s, 'm) Node \<Rightarrow> uint64 \<Rightarrow> nat \<Rightarrow> submitWake \<Rightarrow> (('s, 'm) Node \<times> bytes \<times> error) option" where
  "Submit_wake n idx c wake =
     (case wake of
        CtxDone err \<Rightarrow> Some (n\<lparr>pending := fmdrop idx (pending n)\<rparr>, NoBytes, Some err)
      | StopClosed \<Rightarrow> if stopped n then Some (n, NoBytes, Some ErrStopped) else None
      | ResultReady \<Rightarrow>
          (case chans n c of
             None \<Rightarrow> None
           | Some r \<Rightarrow> Some (n\<lparr>chans := (chans n)(c := None)\<rparr>, pr_result r, pr_err r)))"

end
