(* ===== verification/Samples.thy ===== *)
theory Samples
  imports Jukebox NodeFacts
begin

text \<open>
  A small cluster for the witnesses: servers \<open>a\<close>, \<open>b\<close>, \<open>c\<close> with in-memory stores and the
  jukebox, as \<open>src/internal/cluster/cluster.go\<close> builds them, and a log entry.
\<close>

definition cfg3 :: "nodeid \<Rightarrow> (MemStore, State) Config" where
  "cfg3 i = \<lparr>ID = i, Peers = [''a'', ''b'', ''c''], cfgStorage = Some MemStorage, cfgTransport = Some i,
     cfgStateMachine = Some Jukebox_SM, HeartbeatInterval = 20 * Millisecond,
     ElectionTimeoutMin = 150 * Millisecond, ElectionTimeoutMax = 300 * Millisecond,
     SnapshotThreshold = 1000, DisablePreVote = True\<rparr>"

definition fresh :: "nodeid \<Rightarrow> (MemStore, State) Node" where
  "fresh i = projr (New (cfg3 i) NewMemStore New_jukebox)"

definition env0 :: env where
  "env0 = \<lparr>now = 0, rnd = 0\<rparr>"

definition put :: "uint64 \<Rightarrow> uint64 \<Rightarrow> string \<Rightarrow> LogEntry" where
  "put t i s = \<lparr>Term = t, Index = i, Cmd = Encode ((op_command OpEnqueue)\<lparr>cSong := Some \<lparr>sID = s, sTitle = s, sAddedBy = ''''\<rparr>\<rparr>)\<rparr>"

lemma put_sel [simp]: "Term (put t i s) = t" "Index (put t i s) = i"
  by (simp_all add: put_def)

definition blank :: "nodeid \<Rightarrow> (MemStore, State) Node" where
  "blank i = \<lparr>cfg = cfg3 i, store_if = MemStorage, disk = NewMemStore, sm_if = Jukebox_SM, sm = New_jukebox,
     nid = i, peers = filter (\<lambda>p. p \<noteq> i) [''a'', ''b'', ''c''], quorum = 2, currentTerm = 0,
     votedFor = '''', entries = [\<lparr>Term = 0, Index = 0, Cmd = NoBytes\<rparr>], snapshotIndex = 0, snapshotTerm = 0,
     snapshotData = NoBytes, role = Follower, leaderID = '''', commitIndex = 0, lastApplied = 0,
     nextIndex = Map.empty, matchIndex = Map.empty, triggerCh = Map.empty, electionDeadline = None,
     lastLeaderContact = None, applyCh = False, pending = fmempty, stopped = False, running = False,
     leaderCtx = None, appliedCount = 0, chans = (\<lambda>_. None), nextChan = 0, nextCtx = 0,
     cancelledCtx = [], goroutines = [], fault = None\<rparr>"

lemma fresh_eq: "fresh i = blank i"
proof -
  have "withDefaults (cfg3 i) = cfg3 i"
    by (simp add: withDefaults_def cfg3_def Millisecond_def)
  then show ?thesis
    by (simp add: fresh_def New_def loadFromStorage_def Let_def blank_def cfg3_def mem_defs NewMemStore_def)
qed

lemma fresh_ok [simp]: "log_ok (fresh i)" "timer_ok (cfg (fresh i))"
  by (simp_all add: fresh_eq blank_def log_ok_def sentinel_def timer_ok_def cfg3_def Millisecond_def two64_def)

end
