(* ===== verification/ReplicationFacts.thy ===== *)
theory ReplicationFacts
  imports Replication Samples
begin

text \<open>
  What the replication code does on well-formed logs: the commit rule, the merge loop against
  a reference definition, and the outcome of \<open>AppendEntries\<close> on each branch.
\<close>

section \<open>The commit rule\<close>

definition committable :: "('s, 'm) Node \<Rightarrow> uint64 \<Rightarrow> bool" where
  "committable n i \<longleftrightarrow> termAt n i = Some (currentTerm n) \<and> quorum n \<le> replicaCount n i"

lemma commitScan_Some:
  "commitScan n i = Some j \<Longrightarrow>
   commitIndex n < j \<and> j \<le> i \<and> committable n j \<and> (\<forall>k. j < k \<and> k \<le> i \<longrightarrow> \<not> committable n k)"
proof (induction n i rule: commitScan.induct)
  case (1 n i)
  show ?case
  proof (cases "commitIndex n < i \<and> \<not> committable n i")
    case True
    then have "commitScan n (i - 1) = Some j"
      using "1.prems" by (subst (asm) commitScan.simps) (auto simp: committable_def split: if_splits)
    with 1 True have "commitIndex n < j" "j \<le> i - 1" "committable n j"
      "\<forall>k. j < k \<and> k \<le> i - 1 \<longrightarrow> \<not> committable n k"
      by (auto simp: committable_def)
    moreover have "k \<le> i - 1 \<or> k = i" if "k \<le> i" for k using that by linarith
    ultimately show ?thesis using True by fastforce
  next
    case False
    with "1.prems" show ?thesis
      by (subst (asm) commitScan.simps) (auto simp: committable_def split: if_splits)
  qed
qed

lemma commitScan_None:
  "commitScan n i = None \<Longrightarrow> commitIndex n < k \<Longrightarrow> k \<le> i \<Longrightarrow> \<not> committable n k"
proof (induction n i rule: commitScan.induct)
  case (1 n i)
  then have nc: "\<not> committable n i" and "commitScan n (i - 1) = None"
    using "1.prems" by (subst (asm) commitScan.simps; auto simp: committable_def split: if_splits)+
  then have "k \<le> i - 1 \<Longrightarrow> \<not> committable n k"
    using 1 by (auto simp: committable_def)
  then show ?case using nc "1.prems" by (cases "k = i") auto
qed

lemma advanceCommit_conv [go_defs]:
  "advanceCommitLocked n =
     n\<lparr>commitIndex := (case commitScan n (lastIndex n) of None \<Rightarrow> commitIndex n | Some i \<Rightarrow> i),
       applyCh := (case commitScan n (lastIndex n) of None \<Rightarrow> applyCh n | Some i \<Rightarrow> True)\<rparr>"
  by (simp add: advanceCommitLocked_def signalApply_def split: option.split)

lemma triggerReplication_conv [go_defs]:
  "triggerReplication n = n\<lparr>triggerCh := map_option (\<lambda>_. True) \<circ> triggerCh n\<rparr>"
  by (simp add: triggerReplication_def)

lemma triggerPeer_conv [go_defs]:
  "triggerPeer n p = n\<lparr>triggerCh := (case triggerCh n p of None \<Rightarrow> triggerCh n | Some _ \<Rightarrow> (triggerCh n)(p \<mapsto> True))\<rparr>"
  by (simp add: triggerPeer_def split: option.split)

text \<open>
  C11: Raft's commit rule.  \<open>advanceCommitLocked\<close> either leaves the commit index alone, and then
  no later index of the log is both of the current term and stored on a quorum, or moves it
  forward to the greatest such index.
\<close>

theorem advanceCommitLocked_rule:
  assumes "log_ok n"
  shows "commitIndex (advanceCommitLocked n) = commitIndex n \<and>
           (\<forall>k. commitIndex n < k \<and> k \<le> lastIndex n \<longrightarrow>
              \<not> (termAt n k = Some (currentTerm n) \<and> quorum n \<le> replicaCount n k)) \<or>
         commitIndex n < commitIndex (advanceCommitLocked n) \<and>
           (let c = commitIndex (advanceCommitLocked n) in
             c \<le> lastIndex n \<and> termAt n c = Some (currentTerm n) \<and> quorum n \<le> replicaCount n c \<and>
             (\<forall>k. c < k \<longrightarrow> \<not> (termAt n k = Some (currentTerm n) \<and> quorum n \<le> replicaCount n k)))"
proof (cases "commitScan n (lastIndex n)")
  case None
  then show ?thesis
    using commitScan_None [OF None] by (simp add: advanceCommit_conv committable_def)
next
  case (Some c)
  have "termAt n k = None" if "lastIndex n < k" for k
    using that assms by (simp add: termAt_eq)
  then have "\<not> committable n k" if "c < k" for k
    using commitScan_Some [OF Some] that by (cases "k \<le> lastIndex n") (auto simp: committable_def)
  then show ?thesis
    using Some commitScan_Some [OF Some] by (simp add: advanceCommit_conv committable_def Let_def)
qed

section \<open>Merging entries\<close>

lemma termAt_conv:
  "termAt n i = (if snapshotIndex n \<le> i \<and> i < snapshotIndex n + length (entries n)
     then Some (Term (entries n ! (i - snapshotIndex n))) else None)"
  by (auto simp: termAt_def Let_def)

lemma termAt_upd [simp]:
  "termAt (n\<lparr>disk := d\<rparr>) i = termAt n i" "termAt (n\<lparr>role := r\<rparr>) i = termAt n i"
  "termAt (n\<lparr>commitIndex := c\<rparr>) i = termAt n i" "termAt (n\<lparr>currentTerm := t\<rparr>) i = termAt n i"
  by (simp_all add: termAt_conv)

text \<open>
  The reference: the entries the follower already has are skipped; from the first one it does
  not have (or has with another term) on, the leader's entries replace the rest of the log.
\<close>

definition present :: "('s, 'm) Node \<Rightarrow> LogEntry \<Rightarrow> bool" where
  "present n e \<longleftrightarrow> Index e \<le> snapshotIndex n \<or> termAt n (Index e) = Some (Term e)"

definition missing :: "('s, 'm) Node \<Rightarrow> LogEntry list \<Rightarrow> LogEntry list" where
  "missing n es = dropWhile (present n) es"

definition mergeLog :: "('s, 'm) Node \<Rightarrow> LogEntry list \<Rightarrow> LogEntry list" where
  "mergeLog n es =
     (case missing n es of
        [] \<Rightarrow> entries n
      | e # rest \<Rightarrow> take (Index e - snapshotIndex n) (entries n) @ e # rest)"

text \<open>The reference for the store: one truncation when a stored entry conflicts, one append.\<close>

definition mergeDisk :: "('s, 'm) Node \<Rightarrow> LogEntry list \<Rightarrow> 's" where
  "mergeDisk n es =
     (case missing n es of
        [] \<Rightarrow> disk n
      | e # rest \<Rightarrow>
          let d = (if termAt n (Index e) = None then disk n
                   else fst (TruncateSuffix (store_if n) (disk n) (Index e)))
          in fst (Append (store_if n) d (e # rest)))"

lemma mergeEntry_present: "present n e \<Longrightarrow> mergeEntry e (n, p) = (n, p)"
  by (auto simp: mergeEntry_def present_def)

lemma mergeEntry_new:
  assumes "Index e = snapshotIndex n + length (entries n)" "entries n \<noteq> []"
  shows "mergeEntry e (n, p) = (n\<lparr>entries := entries n @ [e]\<rparr>, p @ [e])"
  using assms by (cases "entries n") (auto simp: mergeEntry_def termAt_conv)

lemma fold_mergeEntry_append:
  "contiguous (snapshotIndex n + length (entries n)) es \<Longrightarrow> entries n \<noteq> [] \<Longrightarrow>
   fold mergeEntry es (n, p) = (n\<lparr>entries := entries n @ es\<rparr>, p @ es)"
proof (induction es arbitrary: n p)
  case (Cons e es)
  then have "mergeEntry e (n, p) = (n\<lparr>entries := entries n @ [e]\<rparr>, p @ [e])"
    by (intro mergeEntry_new) auto
  with Cons.prems Cons.IH [of "n\<lparr>entries := entries n @ [e]\<rparr>"] show ?case
    by simp
qed simp

lemma fold_mergeEntry:
  assumes "entries n \<noteq> []" "contiguous k es" "k \<le> snapshotIndex n + length (entries n)"
  shows "fold mergeEntry es (n, []) =
     (n\<lparr>entries := mergeLog n es,
        disk := (case missing n es of [] \<Rightarrow> disk n
          | e # _ \<Rightarrow> if termAt n (Index e) = None then disk n
              else fst (TruncateSuffix (store_if n) (disk n) (Index e)))\<rparr>,
      missing n es)"
  using assms(2,3)
proof (induction es arbitrary: k)
  case Nil
  then show ?case by (simp add: missing_def mergeLog_def)
next
  case (Cons e es)
  show ?case
  proof (cases "present n e")
    case True
    then have "k \<le> snapshotIndex n \<or> k < snapshotIndex n + length (entries n)"
      using Cons.prems by (auto simp: present_def termAt_conv split: if_splits)
    then have "Suc k \<le> snapshotIndex n + length (entries n)"
      using assms(1) by (cases "entries n") auto
    then have "fold mergeEntry es (n, []) =
       (n\<lparr>entries := mergeLog n es,
          disk := (case missing n es of [] \<Rightarrow> disk n
            | e # _ \<Rightarrow> if termAt n (Index e) = None then disk n
                else fst (TruncateSuffix (store_if n) (disk n) (Index e)))\<rparr>, missing n es)"
      using Cons.prems by (intro Cons.IH) auto
    then show ?thesis
      using True by (simp add: mergeEntry_present missing_def mergeLog_def)
  next
    case False
    let ?s = "snapshotIndex n"
    have m: "missing n (e # es) = e # es" using False by (simp add: missing_def)
    have e: "Index e = k" "?s < k" and rest: "contiguous (Suc k) es"
      using Cons.prems False by (auto simp: present_def)
    show ?thesis
    proof (cases "termAt n k")
      case None
      then have "k = ?s + length (entries n)"
        using Cons.prems e by (auto simp: termAt_conv split: if_splits)
      then show ?thesis
        using m e rest None assms(1) fold_mergeEntry_append [of "n\<lparr>entries := entries n @ [e]\<rparr>" es "[e]"]
        by (simp add: mergeEntry_new mergeLog_def)
    next
      case (Some t)
      then have k: "k < ?s + length (entries n)" "t \<noteq> Term e"
        using e False by (auto simp: termAt_conv present_def split: if_splits)
      let ?n = "n\<lparr>entries := take (k - ?s) (entries n) @ [e], disk := fst (TruncateSuffix (store_if n) (disk n) k)\<rparr>"
      have "mergeEntry e (n, []) = (?n, [e])"
        using e Some k by (simp add: mergeEntry_def go_defs)
      moreover have "fold mergeEntry es (?n, [e]) = (?n\<lparr>entries := entries ?n @ es\<rparr>, [e] @ es)"
        using rest k e by (intro fold_mergeEntry_append) (auto simp: min_def)
      ultimately show ?thesis
        using m e Some by (simp add: mergeLog_def)
    qed
  qed
qed

lemma mergeEntries_conv:
  assumes "entries n \<noteq> []" "contiguous k es" "k \<le> snapshotIndex n + length (entries n)"
  shows "mergeEntries n es = n\<lparr>entries := mergeLog n es, disk := mergeDisk n es\<rparr>"
  using fold_mergeEntry [OF assms]
  by (cases "missing n es") (simp_all add: mergeEntries_def mergeDisk_def go_defs Let_def)

lemma missing_split:
  assumes "missing n es = e # rest"
  obtains pre where "es = pre @ e # rest" "\<forall>x\<in>set pre. present n x" "\<not> present n e"
proof
  show "es = takeWhile (present n) es @ e # rest"
    using assms by (metis missing_def takeWhile_dropWhile_id)
  show "\<forall>x\<in>set (takeWhile (present n) es). present n x" by (auto dest: set_takeWhileD)
  show "\<not> present n e"
    using assms hd_dropWhile [of "present n" es] by (force simp: missing_def)
qed

lemma missing_Nil: "missing n es = [] \<longleftrightarrow> (\<forall>e\<in>set es. present n e)"
  by (simp add: missing_def)

lemma present_bound:
  "present n e \<Longrightarrow> entries n \<noteq> [] \<Longrightarrow> Index e < snapshotIndex n + length (entries n)"
  by (cases "entries n") (auto simp: present_def termAt_conv split: if_splits)

text \<open>Where the merge cuts the log: just behind it at the latest.\<close>

lemma merge_point:
  assumes "entries n \<noteq> []" "contiguous k es" "k \<le> snapshotIndex n + length (entries n)" "missing n es = e # rest"
  shows "snapshotIndex n < Index e" "Index e \<le> snapshotIndex n + length (entries n)" "k \<le> Index e"
    "contiguous (Index e) (e # rest)" "Index e + length (e # rest) = k + length es"
proof -
  obtain pre where es: "es = pre @ e # rest" "\<forall>x\<in>set pre. present n x" "\<not> present n e"
    using assms(4) by (rule missing_split)
  show "snapshotIndex n < Index e" using es(3) by (simp add: present_def)
  show "k \<le> Index e" "contiguous (Index e) (e # rest)" "Index e + length (e # rest) = k + length es"
    using assms(2) es(1) by auto
  show "Index e \<le> snapshotIndex n + length (entries n)"
  proof (cases pre rule: rev_cases)
    case Nil
    then show ?thesis using es(1) assms(2,3) by simp
  next
    case (snoc ys y)
    then have "Suc (Index y) = Index e" using es(1) assms(2) by auto
    moreover have "present n y" using snoc es(2) by simp
    ultimately show ?thesis using present_bound [OF _ assms(1)] by fastforce
  qed
qed

lemma mergeLog_shape:
  assumes "log_ok n" "contiguous k es" "k \<le> snapshotIndex n + length (entries n)" "k + length es < two64"
  shows "mergeLog n es \<noteq> []" "hd (mergeLog n es) = sentinel n" "contiguous (snapshotIndex n) (mergeLog n es)"
    "snapshotIndex n + length (mergeLog n es) < two64"
    "k + length es \<le> snapshotIndex n + length (mergeLog n es) \<or> es = [] \<or> k + length es \<le> Suc (snapshotIndex n)"
proof -
  let ?s = "snapshotIndex n"
  note ok = assms(1) [unfolded log_ok_def]
  have all: "mergeLog n es \<noteq> [] \<and> hd (mergeLog n es) = sentinel n \<and> contiguous ?s (mergeLog n es) \<and>
     ?s + length (mergeLog n es) < two64 \<and>
     (k + length es \<le> ?s + length (mergeLog n es) \<or> es = [] \<or> k + length es \<le> Suc ?s)"
  proof (cases "missing n es")
    case Nil
    have "k + length es \<le> Suc ?s \<or> k + length es \<le> ?s + length (entries n)" if "es \<noteq> []"
    proof -
      have "present n (last es)" using Nil that by (simp add: missing_Nil)
      moreover have "Index (last es) = k + length es - 1" using assms(2) that by (rule contiguous_last)
      ultimately show ?thesis using present_bound ok by fastforce
    qed
    with Nil ok show ?thesis by (auto simp: mergeLog_def)
  next
    case (Cons e rest)
    note mp = merge_point [OF _ assms(2,3) Cons]
    have "contiguous ?s (take (Index e - ?s) (entries n))" using ok contiguous_take by blast
    moreover have "length (take (Index e - ?s) (entries n)) = Index e - ?s" "take (Index e - ?s) (entries n) \<noteq> []"
      using ok mp(1,2) by auto
    ultimately show ?thesis
      using Cons ok mp assms(4) by (auto simp: mergeLog_def hd_append)
  qed
  then show "mergeLog n es \<noteq> []" "hd (mergeLog n es) = sentinel n" "contiguous ?s (mergeLog n es)"
    "?s + length (mergeLog n es) < two64"
    "k + length es \<le> ?s + length (mergeLog n es) \<or> es = [] \<or> k + length es \<le> Suc ?s"
    by blast+
qed

lemma mergeLog_below:
  assumes "entries n \<noteq> []" "contiguous k es" "k \<le> snapshotIndex n + length (entries n)" "j + snapshotIndex n < k"
    "j < length (entries n)"
  shows "j < length (mergeLog n es) \<and> mergeLog n es ! j = entries n ! j"
proof (cases "missing n es")
  case (Cons e rest)
  note mp = merge_point [OF assms(1-3) Cons]
  have "j < Index e - snapshotIndex n" using mp(3) assms(4) by linarith
  then show ?thesis using Cons mp(2) assms(5) by (simp add: mergeLog_def nth_append)
qed (use assms in \<open>simp add: mergeLog_def\<close>)

lemma mergeLog_present:
  assumes "entries n \<noteq> []" "contiguous k es" "k \<le> snapshotIndex n + length (entries n)" "x \<in> set es"
  shows "present (n\<lparr>entries := mergeLog n es\<rparr>) x"
proof (cases "missing n es")
  case Nil
  then have "mergeLog n es = entries n" by (simp add: mergeLog_def)
  moreover have "present n x" using Nil assms(4) by (simp add: missing_Nil)
  ultimately show ?thesis by simp
next
  case (Cons e rest)
  note mp = merge_point [OF assms(1-3) Cons]
  let ?s = "snapshotIndex n" and ?l = "take (Index e - snapshotIndex n) (entries n)"
  have len: "length ?l = Index e - ?s" using mp(2) by simp
  obtain pre where es: "es = pre @ e # rest" "\<forall>x\<in>set pre. present n x"
    using Cons by (rule missing_split)
  show ?thesis
  proof (cases "x \<in> set pre")
    case True
    have "Index x < Index e" using True es(1) assms(2) contiguous_index_lt [of k pre x] by auto
    with True es(2) show ?thesis
      using mp(1,2) by (auto simp: present_def mergeLog_def Cons termAt_conv nth_append split: if_splits)
  next
    case False
    then obtain i where i: "i < length (e # rest)" "x = (e # rest) ! i"
      using assms(4) es(1) by (metis Un_iff in_set_conv_nth set_append)
    then have "Index x = Index e + i" using mp(4) contiguous_nth by blast
    moreover have "(?l @ e # rest) ! (Index e + i - ?s) = x"
      using len mp(1) i by (simp add: nth_append)
    ultimately show ?thesis
      using len mp(1) i(1) by (simp add: present_def mergeLog_def Cons termAt_conv)
  qed
qed

section \<open>Hearing from a leader\<close>

text \<open>
  What \<open>AppendEntries\<close> and \<open>InstallSnapshot\<close> do first with a request that is not stale.
\<close>

definition heard :: "env \<Rightarrow> ('s, 'm) Node \<Rightarrow> uint64 \<Rightarrow> nodeid \<Rightarrow> ('s, 'm) Node" where
  "heard e n t l = resetElectionDeadline e
     ((if currentTerm n < t then stepDown t n else n)\<lparr>role := Follower, leaderID := l, lastLeaderContact := Some (now e)\<rparr>)"

lemma heard_frame [simp, frame]:
  "entries (heard e n t l) = entries n" "snapshotIndex (heard e n t l) = snapshotIndex n"
  "snapshotTerm (heard e n t l) = snapshotTerm n" "snapshotData (heard e n t l) = snapshotData n"
  "commitIndex (heard e n t l) = commitIndex n" "lastApplied (heard e n t l) = lastApplied n"
  "sm (heard e n t l) = sm n" "sm_if (heard e n t l) = sm_if n" "store_if (heard e n t l) = store_if n"
  "nid (heard e n t l) = nid n" "peers (heard e n t l) = peers n" "quorum (heard e n t l) = quorum n"
  "cfg (heard e n t l) = cfg n" "applyCh (heard e n t l) = applyCh n" "stopped (heard e n t l) = stopped n"
  by (auto simp: heard_def go_defs)

lemma heard_set [simp]:
  "currentTerm (heard e n t l) = max (currentTerm n) t" "role (heard e n t l) = Follower"
  "leaderID (heard e n t l) = l"
  "votedFor (heard e n t l) = (if currentTerm n < t then '''' else votedFor n)"
  "disk (heard e n t l) = (if currentTerm n < t
     then fst (SaveHardState (store_if n) (disk n) \<lparr>hsTerm = t, VotedFor = ''''\<rparr>) else disk n)"
  by (auto simp: heard_def go_defs)

lemma heard_log [simp]:
  "lastIndex (heard e n t l) = lastIndex n" "lastTerm (heard e n t l) = lastTerm n"
  "termAt (heard e n t l) i = termAt n i" "firstIndexOfTerm (heard e n t l) u = firstIndexOfTerm n u"
  "sliceFrom (heard e n t l) i = sliceFrom n i" "sentinel (heard e n t l) = sentinel n"
  by (simp_all add: lastIndex_def lastTerm_def termAt_def firstIndexOfTerm_def sliceFrom_def sentinel_def
      Let_def split: option.split)

lemma log_ok_heard [simp]: "log_ok (heard e n t l) = log_ok n"
  by (simp add: log_ok_def)

lemma AppendEntries_conv:
  "AppendEntries e n req =
     (if aeTerm req < currentTerm n
      then (n, \<lparr>aerTerm = currentTerm n, Success = False, ConflictIndex = 0, ConflictTerm = 0\<rparr>)
      else
        let h = heard e n (aeTerm req) (aeLeaderId req) in
        if lastIndex n < PrevLogIndex req then
          (h, \<lparr>aerTerm = aeTerm req, Success = False, ConflictIndex = add64 (lastIndex n) 1, ConflictTerm = 0\<rparr>)
        else if snapshotIndex n \<le> PrevLogIndex req \<and> termAt n (PrevLogIndex req) \<noteq> Some (PrevLogTerm req) then
          let t = (case termAt n (PrevLogIndex req) of None \<Rightarrow> 0 | Some t \<Rightarrow> t) in
          (h, \<lparr>aerTerm = aeTerm req, Success = False, ConflictIndex = firstIndexOfTerm n t, ConflictTerm = t\<rparr>)
        else (commitTo (mergeEntries h (aeEntries req)) (LeaderCommit req),
              \<lparr>aerTerm = aeTerm req, Success = True, ConflictIndex = 0, ConflictTerm = 0\<rparr>))"
proof -
  have h: "resetElectionDeadline e
     ((if currentTerm n < aeTerm req then stepDown (aeTerm req) n else n)
      \<lparr>role := Follower, leaderID := aeLeaderId req, lastLeaderContact := Some (now e)\<rparr>) =
     heard e n (aeTerm req) (aeLeaderId req)"
    by (simp add: heard_def)
  show ?thesis
    by (simp add: AppendEntries_def h Let_def max_absorb2)
qed

lemma commitTo_conv [go_defs]:
  "commitTo n c = n\<lparr>commitIndex := (if commitIndex n < c then min c (lastIndex n) else commitIndex n),
     applyCh := (commitIndex n < c \<or> applyCh n)\<rparr>"
  by (auto simp: commitTo_def signalApply_def)

text \<open>The requests a leader builds: the entries follow the previous index without a gap.\<close>

definition req_ok :: "AppendEntriesRequest \<Rightarrow> bool" where
  "req_ok req \<longleftrightarrow> contiguous (Suc (PrevLogIndex req)) (aeEntries req) \<and>
     Suc (PrevLogIndex req) + length (aeEntries req) < two64"

definition accepts :: "('s, 'm) Node \<Rightarrow> AppendEntriesRequest \<Rightarrow> bool" where
  "accepts n req \<longleftrightarrow> currentTerm n \<le> aeTerm req \<and> PrevLogIndex req \<le> lastIndex n \<and>
     (snapshotIndex n \<le> PrevLogIndex req \<longrightarrow> termAt n (PrevLogIndex req) = Some (PrevLogTerm req))"

lemma lastIndex_Suc: "log_ok n \<Longrightarrow> Suc (lastIndex n) = snapshotIndex n + length (entries n)"
  by (cases "entries n") (auto simp: lastIndex_eq log_ok_def)

lemma merge_heard:
  "mergeLog (heard e n t l) es = mergeLog n es" "missing (heard e n t l) es = missing n es"
proof -
  have "present (heard e n t l) = present n" by (auto simp: present_def)
  then show "missing (heard e n t l) es = missing n es" by (simp add: missing_def)
  then show "mergeLog (heard e n t l) es = mergeLog n es" by (simp add: mergeLog_def split: list.split)
qed

lemma AppendEntries_accept:
  assumes "log_ok n" "req_ok req" "accepts n req"
    and h_def: "h = heard e n (aeTerm req) (aeLeaderId req)"
  shows "AppendEntries e n req =
     (commitTo (h\<lparr>entries := mergeLog n (aeEntries req), disk := mergeDisk h (aeEntries req)\<rparr>) (LeaderCommit req),
      \<lparr>aerTerm = aeTerm req, Success = True, ConflictIndex = 0, ConflictTerm = 0\<rparr>)"
proof -
  have "mergeEntries h (aeEntries req) = h\<lparr>entries := mergeLog h (aeEntries req), disk := mergeDisk h (aeEntries req)\<rparr>"
    using assms(1,2,3) lastIndex_Suc [OF assms(1)]
    by (intro mergeEntries_conv [of _ "Suc (PrevLogIndex req)"]) (auto simp: h_def log_ok_def req_ok_def accepts_def)
  then show ?thesis
    using assms(3) by (auto simp: AppendEntries_conv accepts_def h_def merge_heard not_less)
qed

text \<open>The answer to a request that fails the consistency check.\<close>

definition conflictResp :: "('s, 'm) Node \<Rightarrow> AppendEntriesRequest \<Rightarrow> AppendEntriesResponse" where
  "conflictResp n req =
     (if lastIndex n < PrevLogIndex req then
        \<lparr>aerTerm = aeTerm req, Success = False, ConflictIndex = add64 (lastIndex n) 1, ConflictTerm = 0\<rparr>
      else
        let t = (case termAt n (PrevLogIndex req) of None \<Rightarrow> 0 | Some t \<Rightarrow> t) in
        \<lparr>aerTerm = aeTerm req, Success = False, ConflictIndex = firstIndexOfTerm n t, ConflictTerm = t\<rparr>)"

lemma conflictResp_heard [simp]: "conflictResp (heard e n t l) req = conflictResp n req"
  by (simp add: conflictResp_def)

lemma AppendEntries_refuse:
  assumes "\<not> accepts n req" "currentTerm n \<le> aeTerm req"
  shows "AppendEntries e n req = (heard e n (aeTerm req) (aeLeaderId req), conflictResp n req)"
  using assms by (simp add: AppendEntries_conv accepts_def Let_def conflictResp_def)

lemma AppendEntries_stale: "aeTerm req < currentTerm n \<Longrightarrow> AppendEntries e n req =
    (n, \<lparr>aerTerm = currentTerm n, Success = False, ConflictIndex = 0, ConflictTerm = 0\<rparr>)"
  by (simp add: AppendEntries_conv)

lemma AppendEntries_reject:
  assumes "\<not> accepts n req"
  shows "fst (AppendEntries e n req) =
     (if aeTerm req < currentTerm n then n else heard e n (aeTerm req) (aeLeaderId req))"
    "Success (snd (AppendEntries e n req)) = False"
  by (cases "aeTerm req < currentTerm n",
      simp_all add: AppendEntries_stale AppendEntries_refuse assms conflictResp_def Let_def)+

lemma Success_accepts: "Success (snd (AppendEntries e n req)) \<longleftrightarrow> accepts n req"
proof (cases "accepts n req")
  case True
  then show ?thesis by (simp add: AppendEntries_conv accepts_def Let_def not_less)
qed (simp add: AppendEntries_reject)

lemma AppendEntries_log_ok:
  assumes "log_ok n" "req_ok req"
  shows "log_ok (fst (AppendEntries e n req))"
proof (cases "accepts n req")
  case True
  then have "Suc (PrevLogIndex req) \<le> snapshotIndex n + length (entries n)"
    using lastIndex_Suc [OF assms(1)] by (simp add: accepts_def)
  then show ?thesis
    using mergeLog_shape [of n "Suc (PrevLogIndex req)" "aeEntries req"] assms
    by (auto simp: AppendEntries_accept [OF assms True refl] commitTo_conv log_ok_def sentinel_def req_ok_def)
qed (use assms in \<open>auto simp: AppendEntries_reject\<close>)

section \<open>Redelivery\<close>

lemma heard_again:
  "currentTerm n = t \<Longrightarrow> role n = Follower \<Longrightarrow> leaderID n = l \<Longrightarrow> timer_ok (cfg n) \<Longrightarrow>
   heard e n t l = n\<lparr>lastLeaderContact := Some (now e), electionDeadline := next_deadline e n\<rparr>"
  by (simp add: heard_def go_defs next_deadline_def)

lemma present_cong:
  "snapshotIndex n = snapshotIndex n' \<Longrightarrow> entries n = entries n' \<Longrightarrow> present n x = present n' x"
  by (simp add: present_def termAt_conv)

lemma accepted_again:
  assumes "log_ok n" "req_ok req" "accepts n req"
    and n1: "snapshotIndex n1 = snapshotIndex n" "entries n1 = mergeLog n (aeEntries req)"
      "currentTerm n1 = aeTerm req" "log_ok n1"
  shows "accepts n1 req" "missing n1 (aeEntries req) = []"
proof -
  let ?p = "PrevLogIndex req" and ?s = "snapshotIndex n"
  have k: "contiguous (Suc ?p) (aeEntries req)" "Suc ?p \<le> ?s + length (entries n)" "entries n \<noteq> []"
    using assms(1-3) lastIndex_Suc [OF assms(1)] by (auto simp: req_ok_def accepts_def log_ok_def)
  have p: "?p < ?s + length (entries n1)" "entries n1 ! (?p - ?s) = entries n ! (?p - ?s)" if "?s \<le> ?p"
  proof -
    have "?p - ?s < length (entries n)" using k(2) that by linarith
    with mergeLog_below [OF k(3,1,2), of "?p - ?s"] that n1(2)
    have "?p - ?s < length (entries n1) \<and> entries n1 ! (?p - ?s) = entries n ! (?p - ?s)" by simp
    then show "?p < ?s + length (entries n1)" "entries n1 ! (?p - ?s) = entries n ! (?p - ?s)" using that by auto
  qed
  then have "termAt n1 ?p = termAt n ?p" if "?s \<le> ?p"
    using that k(2) n1(1) by (simp add: termAt_conv)
  moreover have "?p \<le> lastIndex n1"
  proof (cases "?s \<le> ?p")
    case True
    then show ?thesis using p(1) lastIndex_Suc [OF n1(4)] n1(1) by simp
  next
    case False
    then show ?thesis using snapshotIndex_le_last [OF n1(4)] n1(1) by simp
  qed
  ultimately show "accepts n1 req" using assms(3) n1(1,3) by (auto simp: accepts_def)
  have "present n1 x" if "x \<in> set (aeEntries req)" for x
    using mergeLog_present [OF k(3,1,2) that] n1(1,2) by (simp add: present_cong [of n1 "n\<lparr>entries := entries n1\<rparr>"])
  then show "missing n1 (aeEntries req) = []" by (simp add: missing_Nil)
qed

text \<open>
  C12: \<open>AppendEntries\<close> is idempotent, as the duplicating network of the simulator relies on: a
  second delivery of a request that is not stale gives the same answer and changes nothing but
  the election timer and the time of the last contact.
\<close>

theorem AppendEntries_idempotent:
  assumes ok: "log_ok n" "req_ok req" "timer_ok (cfg n)" "currentTerm n \<le> aeTerm req"
  shows "AppendEntries e' (fst (AppendEntries e n req)) req =
     ((fst (AppendEntries e n req))
        \<lparr>lastLeaderContact := Some (now e'), electionDeadline := next_deadline e' (fst (AppendEntries e n req))\<rparr>,
      snd (AppendEntries e n req))"
proof (cases "accepts n req")
  case True
  define h where "h = heard e n (aeTerm req) (aeLeaderId req)"
  define n1 where "n1 = fst (AppendEntries e n req)"
  have n1: "n1 = commitTo (h\<lparr>entries := mergeLog n (aeEntries req), disk := mergeDisk h (aeEntries req)\<rparr>) (LeaderCommit req)"
    using AppendEntries_accept [OF ok(1,2) True h_def] by (simp add: n1_def)
  have fields: "snapshotIndex n1 = snapshotIndex n" "entries n1 = mergeLog n (aeEntries req)"
    "currentTerm n1 = aeTerm req" "role n1 = Follower" "leaderID n1 = aeLeaderId req" "cfg n1 = cfg n"
    using ok(4) by (simp_all add: n1 h_def commitTo_conv)
  have ok1: "log_ok n1" unfolding n1_def using ok by (intro AppendEntries_log_ok)
  note again = accepted_again [OF ok(1,2) True fields(1,2,3) ok1]
  have h1: "heard e' n1 (aeTerm req) (aeLeaderId req) =
      n1\<lparr>lastLeaderContact := Some (now e'), electionDeadline := next_deadline e' n1\<rparr>"
    using fields ok(3) by (simp add: heard_again)
  have "mergeLog n1 (aeEntries req) = entries n1" using again(2) by (simp add: mergeLog_def)
  moreover have "mergeDisk (heard e' n1 (aeTerm req) (aeLeaderId req)) (aeEntries req) = disk n1"
    using again(2) fields by (simp add: mergeDisk_def merge_heard)
  moreover have "commitTo (n1\<lparr>lastLeaderContact := Some (now e'), electionDeadline := next_deadline e' n1\<rparr>) (LeaderCommit req) =
      n1\<lparr>lastLeaderContact := Some (now e'), electionDeadline := next_deadline e' n1\<rparr>"
    by (simp add: commitTo_conv n1 lastIndex_def)
  ultimately have "AppendEntries e' n1 req =
      (n1\<lparr>lastLeaderContact := Some (now e'), electionDeadline := next_deadline e' n1\<rparr>,
       \<lparr>aerTerm = aeTerm req, Success = True, ConflictIndex = 0, ConflictTerm = 0\<rparr>)"
    using AppendEntries_accept [OF ok1 ok(2) again(1) refl, of e'] by (simp add: h1)
  moreover have "snd (AppendEntries e n req) =
      \<lparr>aerTerm = aeTerm req, Success = True, ConflictIndex = 0, ConflictTerm = 0\<rparr>"
    using AppendEntries_accept [OF ok(1,2) True refl, of e] by simp
  ultimately show ?thesis unfolding n1_def by (simp only:)
next
  case False
  define h where "h = heard e n (aeTerm req) (aeLeaderId req)"
  have first: "AppendEntries e n req = (h, conflictResp n req)"
    using False ok(4) by (simp add: AppendEntries_refuse h_def)
  have "\<not> accepts h req" using False ok(4) by (simp add: accepts_def h_def)
  then have "AppendEntries e' h req = (heard e' h (aeTerm req) (aeLeaderId req), conflictResp n req)"
    using ok(4) by (simp add: AppendEntries_refuse h_def)
  moreover have "heard e' h (aeTerm req) (aeLeaderId req) =
      h\<lparr>lastLeaderContact := Some (now e'), electionDeadline := next_deadline e' h\<rparr>"
    using ok by (intro heard_again) (simp_all add: h_def)
  ultimately show ?thesis by (simp add: first)
qed

section \<open>The merge loop against its reference\<close>

text \<open>
  C8: The merge loop of \<open>AppendEntries\<close>, which truncates and appends entry by entry, is the
  reference \<open>mergeLog\<close>: skip the entries the follower has, then replace the rest of its log by
  the leader's entries from the first one it lacks; the store sees at most one truncation and
  one append of exactly the new entries, and no other field changes.
\<close>

theorem mergeEntries_reference:
  assumes "log_ok n" "contiguous (Suc prev) es" "prev \<le> lastIndex n"
  shows "mergeEntries n es = n\<lparr>entries := mergeLog n es, disk := mergeDisk n es\<rparr>"
  using assms lastIndex_Suc [OF assms(1)]
  by (intro mergeEntries_conv [of _ "Suc prev"]) (auto simp: log_ok_def)

section \<open>Witnesses\<close>

text \<open>A follower in term 2 with two entries of term 1, and the leader's log that conflicts at 2.\<close>

definition w_follower :: "(MemStore, State) Node" where
  "w_follower = (fresh ''b'')\<lparr>entries := entries (fresh ''b'') @ [put 1 1 ''x'', put 1 2 ''y''], currentTerm := 2\<rparr>"

definition w_req :: AppendEntriesRequest where
  "w_req = \<lparr>aeTerm = 2, aeLeaderId = ''a'', PrevLogIndex = 0, PrevLogTerm = 0,
     aeEntries = [put 1 1 ''x'', put 2 2 ''z'', put 2 3 ''w''], LeaderCommit = 2\<rparr>"

lemma w_follower_ok [simp]: "log_ok w_follower" "timer_ok (cfg w_follower)" "lastIndex w_follower = 2"
  using fresh_ok(2) [of "''b''"]
  by (simp_all add: w_follower_def fresh_eq blank_def log_ok_def sentinel_def two64_def lastIndex_def)

lemma w_req_ok [simp]: "req_ok w_req" "contiguous (Suc 0) (aeEntries w_req)"
  by (simp_all add: req_ok_def w_req_def two64_def)

theorem mergeEntries_reference_witness:
  "entries (mergeEntries w_follower (aeEntries w_req)) =
     [\<lparr>Term = 0, Index = 0, Cmd = NoBytes\<rparr>, put 1 1 ''x'', put 2 2 ''z'', put 2 3 ''w'']"
  using mergeEntries_reference [of w_follower 0 "aeEntries w_req"]
  by (simp add: mergeLog_def missing_def present_def termAt_def w_req_def)
    (simp add: w_follower_def fresh_eq blank_def)

theorem AppendEntries_idempotent_witness:
  "AppendEntries env0 (fst (AppendEntries env0 w_follower w_req)) w_req =
     ((fst (AppendEntries env0 w_follower w_req))
        \<lparr>lastLeaderContact := Some 0, electionDeadline := next_deadline env0 (fst (AppendEntries env0 w_follower w_req))\<rparr>,
      snd (AppendEntries env0 w_follower w_req))"
  using AppendEntries_idempotent [of w_follower w_req env0 env0]
  by (simp add: env0_def) (simp add: w_follower_def w_req_def)

text \<open>A leader of three servers in term 2 whose entry 2 is on one of its peers.\<close>

definition w_leader :: "(MemStore, State) Node" where
  "w_leader = (fresh ''a'')\<lparr>entries := entries (fresh ''a'') @ [put 1 1 ''x'', put 2 2 ''z''], currentTerm := 2,
     role := Leader, matchIndex := [''b'' \<mapsto> 2, ''c'' \<mapsto> 0]\<rparr>"

theorem advanceCommitLocked_rule_witness: "commitIndex (advanceCommitLocked w_leader) = 2"
proof -
  have "log_ok w_leader" "lastIndex w_leader = 2" "commitIndex w_leader = 0"
    "termAt w_leader 2 = Some (currentTerm w_leader)" "quorum w_leader \<le> replicaCount w_leader 2"
    by (simp_all add: w_leader_def fresh_eq blank_def log_ok_def sentinel_def two64_def lastIndex_def
        termAt_def replicaCount_def mget_def)
  then show ?thesis
    using advanceCommitLocked_rule [of w_leader] by (auto simp: Let_def) (metis le_antisym not_le zero_less_numeral)
qed

end
