(* ===== verification/SnapshotRpc.thy ===== *)
theory SnapshotRpc
  imports Replication
begin

text \<open>
  Shipping a snapshot to a lagging follower and installing it
  (\<open>src/internal/raft/snapshot.go\<close>; log compaction itself is in theory \<open>Node\<close>).
\<close>

section \<open>The leader's side\<close>

definition sendSnapshot :: "('s, 'm) Node \<Rightarrow> uint64 \<Rightarrow> InstallSnapshotRequest option" where
  "sendSnapshot n term =
     (if role n \<noteq> Leader \<or> currentTerm n \<noteq> term then None
      else Some \<lparr>isTerm = term, isLeaderId = nid n, LastIncludedIndex = snapshotIndex n,
             LastIncludedTerm = snapshotTerm n, isData = snapshotData n\<rparr>)"

definition sendSnapshot_reply ::
    "('s, 'm) Node \<Rightarrow> nodeid \<Rightarrow> InstallSnapshotRequest \<Rightarrow> InstallSnapshotResponse \<Rightarrow> ('s, 'm) Node" where
  "sendSnapshot_reply n peer req resp =
     (if currentTerm n < isrTerm resp then stepDown (isrTerm resp) n
      else if role n \<noteq> Leader \<or> currentTerm n \<noteq> isTerm req then n
      else if mget (matchIndex n) peer < LastIncludedIndex req then
        n\<lparr>matchIndex := (matchIndex n)(peer \<mapsto> LastIncludedIndex req),
          nextIndex := (nextIndex n)(peer \<mapsto> add64 (LastIncludedIndex req) 1)\<rparr>
      else n)"

section \<open>The follower's side\<close>

text \<open>
  The state after the restore succeeded: keep the suffix of the log that is consistent with
  the snapshot, persist, and move the indexes up.  A failing \<open>SaveSnapshot\<close> is only logged.
\<close>

definition adoptSnapshot :: "('s, 'm) Node \<Rightarrow> InstallSnapshotRequest \<Rightarrow> ('s, 'm) Node" where
  "adoptSnapshot n req =
     (let i = LastIncludedIndex req;
          consistent = (termAt n i = Some (LastIncludedTerm req));
          kept = (if consistent then sliceFrom n (add64 i 1) else []);
          n = (if consistent then n else persistTruncateSuffix n (add64 (snapshotIndex n) 1));
          (d, err) = SaveSnapshot (store_if n) (disk n)
             \<lparr>snapIndex = i, snapTerm = LastIncludedTerm req, snapData = isData req\<rparr>;
          n = persistTruncatePrefix (n\<lparr>disk := d\<rparr>) i;
          n = n\<lparr>entries := \<lparr>Term = LastIncludedTerm req, Index = i, Cmd = NoBytes\<rparr> # kept,
                snapshotIndex := i, snapshotTerm := LastIncludedTerm req, snapshotData := isData req\<rparr>;
          n = (if commitIndex n < i then n\<lparr>commitIndex := i\<rparr> else n)
      in if lastApplied n < i then n\<lparr>lastApplied := i\<rparr> else n)"

definition InstallSnapshot ::
    "env \<Rightarrow> ('s, 'm) Node \<Rightarrow> InstallSnapshotRequest \<Rightarrow> ('s, 'm) Node \<times> InstallSnapshotResponse" where
  "InstallSnapshot e n req =
     (if isTerm req < currentTerm n then (n, \<lparr>isrTerm = currentTerm n\<rparr>)
      else
        let n = (if currentTerm n < isTerm req then stepDown (isTerm req) n else n);
            n = n\<lparr>role := Follower, leaderID := isLeaderId req, lastLeaderContact := Some (now e)\<rparr>;
            n = resetElectionDeadline e n;
            resp = \<lparr>isrTerm = currentTerm n\<rparr>
        in
        if LastIncludedIndex req \<le> snapshotIndex n then (n, resp)
        else case sm_Restore (sm_if n) (sm n) (isData req) of
          (m, Some err) \<Rightarrow> (n\<lparr>sm := m\<rparr>, resp)
        | (m, None) \<Rightarrow> (adoptSnapshot (n\<lparr>sm := m\<rparr>) req, resp))"

end
