(* ===== verification/Election.thy ===== *)
theory Election
  imports SnapshotRpc
begin

text \<open>
  Leader election, \<open>src/internal/raft/election.go\<close>.  A vote round (\<open>gatherVotes\<close>) runs one
  goroutine per peer; its shared local variables \<open>granted\<close> and \<open>won\<close> are the record
  \<open>voteRound\<close>, and \<open>gatherVotes_reply\<close> is what one of the goroutines does with the answer of
  its peer.
\<close>

section \<open>Voting\<close>

definition candidateUpToDate :: "('s, 'm) Node \<Rightarrow> RequestVoteRequest \<Rightarrow> bool" where
  "candidateUpToDate n req =
     (if LastLogTerm req \<noteq> lastTerm n then lastTerm n < LastLogTerm req
      else lastIndex n \<le> LastLogIndex req)"

text \<open>The zero time lies further in the past than any duration.\<close>

definition sinceContact :: "env \<Rightarrow> ('s, 'm) Node \<Rightarrow> int \<Rightarrow> bool" where
  "sinceContact e n d = (case lastLeaderContact n of None \<Rightarrow> True | Some t \<Rightarrow> d \<le> now e - t)"

definition RequestVote ::
    "env \<Rightarrow> ('s, 'm) Node \<Rightarrow> RequestVoteRequest \<Rightarrow> ('s, 'm) Node \<times> RequestVoteResponse" where
  "RequestVote e n req =
     (let resp = \<lparr>rvrTerm = currentTerm n, VoteGranted = False\<rparr> in
      if rvTerm req < currentTerm n then (n, resp)
      else if PreVote req then
        (n, resp\<lparr>VoteGranted := currentTerm n \<le> rvTerm req \<and> candidateUpToDate n req \<and>
               sinceContact e n (ElectionTimeoutMin (cfg n))\<rparr>)
      else
        let n = (if currentTerm n < rvTerm req then stepDown (rvTerm req) n else n);
            resp = resp\<lparr>rvrTerm := currentTerm n\<rparr>
        in
        if (votedFor n = '''' \<or> votedFor n = CandidateId req) \<and> candidateUpToDate n req then
          let n = n\<lparr>votedFor := CandidateId req\<rparr>;
              n = persistHardState n;
              n = resetElectionDeadline e n
          in (n, resp\<lparr>VoteGranted := True\<rparr>)
        else (n, resp))"

section \<open>Winning\<close>

definition becomeLeaderLocked :: "('s, 'm) Node \<Rightarrow> ('s, 'm) Node" where
  "becomeLeaderLocked n =
     (if role n = Leader then n
      else
        let next = add64 (lastIndex n) 1;
            ctx = nextCtx n;
            n = n\<lparr>role := Leader, leaderID := nid n,
                  nextIndex := (\<lambda>p. if p \<in> set (peers n) then Some next else None),
                  matchIndex := (\<lambda>p. if p \<in> set (peers n) then Some 0 else None),
                  triggerCh := (\<lambda>p. if p \<in> set (peers n) then Some False else None),
                  leaderCtx := Some ctx, nextCtx := Suc ctx\<rparr>;
            (n, noop) = appendOwn n noopCommand;
            n = advanceCommitLocked n;
            n = n\<lparr>goroutines := goroutines n @ map (ReplicationLoop ctx) (peers n)\<rparr>
        in triggerReplication n)"

definition startRealElectionLocked :: "env \<Rightarrow> ('s, 'm) Node \<Rightarrow> uint64 \<Rightarrow> uint64 \<Rightarrow> ('s, 'm) Node" where
  "startRealElectionLocked e n lastIdx lastTm =
     (let n = n\<lparr>currentTerm := add64 (currentTerm n) 1, role := Candidate, votedFor := nid n, leaderID := ''''\<rparr>;
          n = persistHardState n;
          n = resetElectionDeadline e n
      in if quorum n \<le> 1 then becomeLeaderLocked n
         else n\<lparr>goroutines := goroutines n @ [GatherVotes (currentTerm n) lastIdx lastTm False]\<rparr>)"

definition beginCampaignLocked :: "env \<Rightarrow> ('s, 'm) Node \<Rightarrow> ('s, 'm) Node" where
  "beginCampaignLocked e n =
     (let n = n\<lparr>role := Candidate, leaderID := ''''\<rparr>;
          n = resetElectionDeadline e n
      in if preVoteEnabled (cfg n)
         then n\<lparr>goroutines := goroutines n @ [Campaign (currentTerm n) (lastIndex n) (lastTerm n)]\<rparr>
         else startRealElectionLocked e n (lastIndex n) (lastTerm n))"

text \<open>One tick of \<open>electionLoop\<close>.\<close>

definition electionTick :: "env \<Rightarrow> ('s, 'm) Node \<Rightarrow> ('s, 'm) Node" where
  "electionTick e n =
     (if role n \<noteq> Leader \<and> (case electionDeadline n of None \<Rightarrow> True | Some t \<Rightarrow> t < now e)
      then beginCampaignLocked e n else n)"

section \<open>Vote rounds\<close>

record voteRound =
  granted :: nat
  won :: bool

definition newRound :: voteRound where
  "newRound = \<lparr>granted = 1, won = False\<rparr>"

definition gatherVotes_request :: "('s, 'm) Node \<Rightarrow> uint64 \<Rightarrow> uint64 \<Rightarrow> uint64 \<Rightarrow> bool \<Rightarrow> RequestVoteRequest" where
  "gatherVotes_request n term lastIdx lastTm preVote =
     \<lparr>rvTerm = term, CandidateId = nid n, LastLogIndex = lastIdx, LastLogTerm = lastTm, PreVote = preVote\<rparr>"

definition gatherVotes_reply ::
    "('s, 'm) Node \<Rightarrow> voteRound \<Rightarrow> uint64 \<Rightarrow> bool \<Rightarrow> RequestVoteResponse \<Rightarrow> ('s, 'm) Node \<times> voteRound" where
  "gatherVotes_reply n r term preVote resp =
     (if \<not> preVote \<and> currentTerm n < rvrTerm resp then (stepDown (rvrTerm resp) n, r)
      else if \<not> preVote \<and> (role n \<noteq> Candidate \<or> currentTerm n \<noteq> term) then (n, r)
      else if VoteGranted resp then
        let r = r\<lparr>granted := granted r + 1\<rparr>;
            reachedQuorum = (quorum n \<le> granted r \<and> \<not> won r);
            r = (if reachedQuorum then r\<lparr>won := True\<rparr> else r)
        in ((if reachedQuorum \<and> \<not> preVote then becomeLeaderLocked n else n), r)
      else (n, r))"

definition gatherVotes_result :: "('s, 'm) Node \<Rightarrow> voteRound \<Rightarrow> bool" where
  "gatherVotes_result n r \<longleftrightarrow> quorum n \<le> granted r"

text \<open>What \<open>campaign\<close> does when its pre-vote round has ended.\<close>

definition campaign_finish :: "env \<Rightarrow> ('s, 'm) Node \<Rightarrow> uint64 \<Rightarrow> uint64 \<Rightarrow> uint64 \<Rightarrow> bool \<Rightarrow> ('s, 'm) Node" where
  "campaign_finish e n baseTerm lastIdx lastTm wonPre =
     (if \<not> wonPre then n
      else if role n \<noteq> Candidate \<or> currentTerm n \<noteq> baseTerm then n
      else startRealElectionLocked e n lastIdx lastTm)"

end
