(* ===== verification/ReadIndex.thy ===== *)
theory ReadIndex
  imports Election
begin

text \<open>
  Read-index reads, \<open>src/internal/raft/readindex.go\<close>.  \<open>LinearizableRead\<close> releases the mutex
  three times; each critical section is one definition and the local variables are arguments.
\<close>

definition LinearizableRead :: "('s, 'm) Node \<Rightarrow> string + uint64 \<times> uint64" where
  "LinearizableRead n =
     (if role n \<noteq> Leader then Inl ErrNotLeader else Inr (commitIndex n, currentTerm n))"

text \<open>
  \<open>confirmLeadership\<close>: its first section (\<open>None\<close> is the early \<open>return false\<close>), the request one
  of its goroutines sends, what the goroutine does with the answer (and whether it counts an
  acknowledgement), and the final count.
\<close>

definition confirmLeadership :: "('s, 'm) Node \<Rightarrow> uint64 \<Rightarrow> (nodeid list \<times> uint64) option" where
  "confirmLeadership n term =
     (if role n \<noteq> Leader \<or> currentTerm n \<noteq> term then None else Some (peers n, commitIndex n))"

definition confirmLeadership_request ::
    "('s, 'm) Node \<Rightarrow> uint64 \<Rightarrow> uint64 \<Rightarrow> nodeid \<Rightarrow> AppendEntriesRequest option" where
  "confirmLeadership_request n term commit peer =
     (if role n \<noteq> Leader \<or> currentTerm n \<noteq> term then None
      else
        let prevIndex = sub64 (mget (nextIndex n) peer) 1;
            (prevIndex, prevTerm) = (case termAt n prevIndex of None \<Rightarrow> (0, 0) | Some t \<Rightarrow> (prevIndex, t))
        in Some \<lparr>aeTerm = term, aeLeaderId = nid n, PrevLogIndex = prevIndex, PrevLogTerm = prevTerm,
                 aeEntries = [], LeaderCommit = commit\<rparr>)"

definition confirmLeadership_reply ::
    "('s, 'm) Node \<Rightarrow> uint64 \<Rightarrow> AppendEntriesResponse \<Rightarrow> ('s, 'm) Node \<times> bool" where
  "confirmLeadership_reply n term resp =
     (if term < aerTerm resp then
        ((if currentTerm n < aerTerm resp then stepDown (aerTerm resp) n else n), False)
      else (n, Success resp))"

definition confirmLeadership_result :: "('s, 'm) Node \<Rightarrow> nodeid list \<Rightarrow> nat \<Rightarrow> bool" where
  "confirmLeadership_result n ps acks \<longleftrightarrow> ps = [] \<or> quorum n \<le> 1 + acks"

text \<open>
  One turn of the polling loop of \<open>waitApplied\<close>, given which case of its \<open>select\<close> fired
  (\<open>stopCh\<close> only when the node was stopped).
\<close>

datatype pollWake = PollCtxDone string | PollStopped | PollTimer

datatype pollResult = PollDone error | PollAgain

definition waitApplied :: "('s, 'm) Node \<Rightarrow> uint64 \<Rightarrow> pollWake \<Rightarrow> pollResult" where
  "waitApplied n idx wake =
     (if idx \<le> lastApplied n then PollDone None
      else case wake of
        PollCtxDone err \<Rightarrow> PollDone (Some err)
      | PollStopped \<Rightarrow> if stopped n then PollDone (Some ErrStopped) else PollAgain
      | PollTimer \<Rightarrow> PollAgain)"

text \<open>The read as a whole, from the outcome of its parts.\<close>

definition LinearizableRead_result :: "uint64 \<Rightarrow> bool \<Rightarrow> error \<Rightarrow> string + uint64" where
  "LinearizableRead_result readIndex confirmed waitErr =
     (if \<not> confirmed then Inl ErrNotLeader
      else case waitErr of Some err \<Rightarrow> Inl err | None \<Rightarrow> Inr readIndex)"

end
