(* ===== verification/Durability.thy ===== *)
theory Durability
  imports ReplicationFacts ReadIndex
begin

text \<open>
  Persistence: every operation of the node leaves in the store what a restart needs.  The
  argument uses the contract of the store only (the locale \<open>storage\<close>, extended to stores that
  do not fail), and is instantiated for \<open>MemStore\<close>.
\<close>

section \<open>What is durable\<close>

definition hs_durable :: "'s Storage \<Rightarrow> ('s, 'm) Node \<Rightarrow> bool" where
  "hs_durable S n \<longleftrightarrow> LoadHardState S (disk n) = (\<lparr>hsTerm = currentTerm n, VotedFor = votedFor n\<rparr>, None)"

definition log_durable :: "'s Storage \<Rightarrow> ('s \<Rightarrow> bool) \<Rightarrow> ('s, 'm) Node \<Rightarrow> bool" where
  "log_durable S valid n \<longleftrightarrow> store_if n = S \<and> valid (disk n) \<and> AllEntries S (disk n) = (tl (entries n), None) \<and>
     LoadSnapshot S (disk n) = (\<lparr>snapIndex = snapshotIndex n, snapTerm = snapshotTerm n, snapData = snapshotData n\<rparr>, None)"

definition durable :: "'s Storage \<Rightarrow> ('s \<Rightarrow> bool) \<Rightarrow> ('s, 'm) Node \<Rightarrow> bool" where
  "durable S valid n \<longleftrightarrow> log_durable S valid n \<and> hs_durable S n"

lemmas durable_defs = durable_def log_durable_def hs_durable_def

locale reliable_storage = storage S valid for S :: "'s Storage" and valid +
  assumes no_error: "snd (SaveHardState S s h) = None" "snd (Append S s es) = None"
    "snd (TruncateSuffix S s i) = None" "snd (TruncatePrefix S s i) = None" "snd (SaveSnapshot S s p) = None"
begin

lemma calls:
  "SaveHardState S s h = (fst (SaveHardState S s h), None)" "Append S s es = (fst (Append S s es), None)"
  "TruncateSuffix S s i = (fst (TruncateSuffix S s i), None)" "TruncatePrefix S s i = (fst (TruncatePrefix S s i), None)"
  "SaveSnapshot S s p = (fst (SaveSnapshot S s p), None)"
  using no_error by (metis prod.collapse)+

lemma save_hs':
  assumes "valid s"
  shows "valid (fst (SaveHardState S s h))" "LoadHardState S (fst (SaveHardState S s h)) = (h, None)"
    "AllEntries S (fst (SaveHardState S s h)) = AllEntries S s" "LoadSnapshot S (fst (SaveHardState S s h)) = LoadSnapshot S s"
  using save_hs [OF assms calls(1)] by simp_all

lemma append':
  assumes "valid s" "AllEntries S s = (l, None)" "contiguous k (l @ es)"
  shows "valid (fst (Append S s es))" "AllEntries S (fst (Append S s es)) = (l @ es, None)"
    "LoadHardState S (fst (Append S s es)) = LoadHardState S s" "LoadSnapshot S (fst (Append S s es)) = LoadSnapshot S s"
  using append [OF assms(1) calls(2) assms(2,3)] by simp_all

lemma truncate_suffix':
  assumes "valid s" "AllEntries S s = (l, None)"
  shows "valid (fst (TruncateSuffix S s i))" "AllEntries S (fst (TruncateSuffix S s i)) = (filter (\<lambda>e. Index e < i) l, None)"
    "LoadHardState S (fst (TruncateSuffix S s i)) = LoadHardState S s"
    "LoadSnapshot S (fst (TruncateSuffix S s i)) = LoadSnapshot S s"
  using truncate_suffix [OF assms(1) calls(3) assms(2)] by simp_all

lemma truncate_prefix':
  assumes "valid s" "AllEntries S s = (l, None)"
  shows "valid (fst (TruncatePrefix S s i))" "AllEntries S (fst (TruncatePrefix S s i)) = (filter (\<lambda>e. i < Index e) l, None)"
    "LoadHardState S (fst (TruncatePrefix S s i)) = LoadHardState S s"
    "LoadSnapshot S (fst (TruncatePrefix S s i)) = LoadSnapshot S s"
  using truncate_prefix [OF assms(1) calls(4) assms(2)] by simp_all

lemma save_snapshot':
  assumes "valid s"
  shows "valid (fst (SaveSnapshot S s p))" "LoadSnapshot S (fst (SaveSnapshot S s p)) = (p, None)"
    "AllEntries S (fst (SaveSnapshot S s p)) = AllEntries S s" "LoadHardState S (fst (SaveSnapshot S s p)) = LoadHardState S s"
  using save_snapshot [OF assms calls(5)] by simp_all

section \<open>Hard state\<close>

lemma durable_persistHardState: "log_durable S valid n \<Longrightarrow> durable S valid (persistHardState n)"
  by (simp add: durable_defs persist_conv save_hs')

lemma durable_stepDown: "durable S valid n \<Longrightarrow> durable S valid (stepDown t n)"
  by (simp add: durable_defs stepDown_conv save_hs' max_def)

lemma durable_heard: "durable S valid n \<Longrightarrow> durable S valid (heard e n t l)"
  by (simp add: durable_defs save_hs' max_def)

lemma durable_RequestVote: "durable S valid n \<Longrightarrow> durable S valid (fst (RequestVote e n req))"
proof -
  assume d: "durable S valid n"
  define n1 where "n1 = (if currentTerm n < rvTerm req then stepDown (rvTerm req) n else n)"
  have "log_durable S valid n1" using d durable_stepDown by (auto simp: n1_def durable_def)
  then have "durable S valid (resetElectionDeadline e (persistHardState (n1\<lparr>votedFor := CandidateId req\<rparr>)))"
    by (simp add: durable_defs go_defs save_hs')
  moreover have "durable S valid n1" using d by (simp add: n1_def durable_stepDown)
  ultimately show ?thesis
    using d by (simp add: RequestVote_def Let_def n1_def [symmetric])
qed

section \<open>The log\<close>

lemma durable_appendOwn:
  assumes "durable S valid n" "log_ok n" "lastIndex n + 1 < two64"
  shows "durable S valid (fst (appendOwn n c))"
proof -
  let ?e = "\<lparr>Term = currentTerm n, Index = add64 (lastIndex n) 1, Cmd = c\<rparr>"
  have "contiguous (Suc (snapshotIndex n)) (tl (entries n) @ [?e])"
    using assms(2,3) lastIndex_Suc [OF assms(2)] by (cases "entries n") (auto simp: log_ok_def)
  then show ?thesis
    using assms append' [of "disk n" "tl (entries n)" "Suc (snapshotIndex n)" "[?e]"]
    by (auto simp: durable_defs appendOwn_def go_defs log_ok_def Let_def)
qed

lemma durable_merge:
  assumes d: "durable S valid n" and ok: "log_ok n"
    and es: "contiguous k es" "k \<le> snapshotIndex n + length (entries n)"
  shows "durable S valid (n\<lparr>entries := mergeLog n es, disk := mergeDisk n es\<rparr>)"
proof (cases "missing n es")
  case Nil
  then show ?thesis using d by (simp add: mergeLog_def mergeDisk_def durable_defs)
next
  case (Cons x rest)
  let ?s = "snapshotIndex n" and ?l = "tl (entries n)"
  obtain hd where hd: "entries n = hd # ?l" "contiguous (Suc ?s) ?l"
    using ok by (cases "entries n") (auto simp: log_ok_def)
  note mp = merge_point [OF _ es Cons]
  have mp: "?s < Index x" "Index x \<le> ?s + length (entries n)" "contiguous (Index x) (x # rest)"
    using mp ok by (auto simp: log_ok_def)
  have cut: "filter (\<lambda>e. Index e < Index x) ?l = take (Index x - Suc ?s) ?l"
    using contiguous_filter_lt [OF hd(2)] by simp
  define d1 where "d1 = (if termAt n (Index x) = None then disk n else fst (TruncateSuffix S (disk n) (Index x)))"
  have tk: "take (Index x - ?s) (entries n) = hd # take (Index x - Suc ?s) ?l"
    using mp(1) hd(1) by (metis Suc_diff_Suc take_Suc_Cons)
  have l1: "AllEntries S d1 = (take (Index x - Suc ?s) ?l, None)" and v1: "valid d1"
    and same: "LoadHardState S d1 = LoadHardState S (disk n)" "LoadSnapshot S d1 = LoadSnapshot S (disk n)"
  proof -
    have "take (Index x - Suc ?s) ?l = ?l" if "termAt n (Index x) = None"
      using that mp hd(1) by (simp add: termAt_conv split: if_splits)
    then show "AllEntries S d1 = (take (Index x - Suc ?s) ?l, None)" "valid d1"
      "LoadHardState S d1 = LoadHardState S (disk n)" "LoadSnapshot S d1 = LoadSnapshot S (disk n)"
      using d truncate_suffix' [of "disk n" ?l "Index x"] by (auto simp: d1_def durable_defs cut)
  qed
  have "length (take (Index x - Suc ?s) ?l) = Index x - Suc ?s" using mp hd(1)
    by (metis Suc_diff_Suc diff_le_mono length_Cons length_take min.absorb2 Suc_le_mono add_diff_cancel_left')
  then have "contiguous (Suc ?s) (take (Index x - Suc ?s) ?l @ x # rest)"
    using mp contiguous_take [OF hd(2)] by simp
  note app = append' [OF v1 l1 this]
  have "mergeDisk n es = fst (Append S d1 (x # rest))"
    using Cons d by (simp add: mergeDisk_def d1_def durable_defs)
  then show ?thesis
    using Cons d app same tk by (simp add: durable_defs mergeLog_def)
qed

lemma durable_AppendEntries:
  assumes "durable S valid n" "log_ok n" "req_ok req"
  shows "durable S valid (fst (AppendEntries e n req))"
proof (cases "accepts n req")
  case True
  define h where "h = heard e n (aeTerm req) (aeLeaderId req)"
  have "durable S valid (h\<lparr>entries := mergeLog h (aeEntries req), disk := mergeDisk h (aeEntries req)\<rparr>)"
    using assms True lastIndex_Suc [OF assms(2)] unfolding h_def
    by (intro durable_merge [of _ "Suc (PrevLogIndex req)"])
      (auto simp: durable_heard req_ok_def accepts_def)
  then show ?thesis
    unfolding AppendEntries_accept [OF assms(2,3) True h_def]
    by (simp add: durable_defs commitTo_conv h_def merge_heard)
qed (use assms durable_heard in \<open>auto simp: AppendEntries_reject\<close>)

end

end
