(* ===== verification/NodeSteps.thy ===== *)
theory NodeSteps
  imports Durability
begin

text \<open>
  One server as a state machine: \<open>node_step\<close> has one rule per critical section of the program
  (each method that locks the mutex, and each section of a method that unlocks it around an
  RPC), with arbitrary inputs.  Facts that need nothing from the rest of the cluster are
  invariants of this relation: the shape of the log, durability, and the monotonicity of terms
  and votes.
\<close>

section \<open>Field updates of the remaining operations\<close>

lemma deliver_frame [simp, frame]:
  "entries (deliver n i e r) = entries n" "disk (deliver n i e r) = disk n" "store_if (deliver n i e r) = store_if n"
  "currentTerm (deliver n i e r) = currentTerm n" "votedFor (deliver n i e r) = votedFor n" "role (deliver n i e r) = role n"
  "snapshotIndex (deliver n i e r) = snapshotIndex n" "snapshotTerm (deliver n i e r) = snapshotTerm n"
  "snapshotData (deliver n i e r) = snapshotData n" "nid (deliver n i e r) = nid n" "peers (deliver n i e r) = peers n"
  "quorum (deliver n i e r) = quorum n" "cfg (deliver n i e r) = cfg n" "matchIndex (deliver n i e r) = matchIndex n"
  "nextIndex (deliver n i e r) = nextIndex n" "sm_if (deliver n i e r) = sm_if n" "sm (deliver n i e r) = sm n"
  "leaderCtx (deliver n i e r) = leaderCtx n" "stopped (deliver n i e r) = stopped n"
  by (simp_all add: deliver_def chan_send_def Let_def split: option.split)

lemma applyOne_frame [simp, frame]:
  "entries (applyOne n) = entries n" "disk (applyOne n) = disk n" "store_if (applyOne n) = store_if n"
  "currentTerm (applyOne n) = currentTerm n" "votedFor (applyOne n) = votedFor n" "role (applyOne n) = role n"
  "snapshotIndex (applyOne n) = snapshotIndex n" "snapshotTerm (applyOne n) = snapshotTerm n"
  "snapshotData (applyOne n) = snapshotData n" "nid (applyOne n) = nid n" "peers (applyOne n) = peers n"
  "quorum (applyOne n) = quorum n" "cfg (applyOne n) = cfg n" "matchIndex (applyOne n) = matchIndex n"
  "nextIndex (applyOne n) = nextIndex n" "sm_if (applyOne n) = sm_if n" "leaderCtx (applyOne n) = leaderCtx n"
  "stopped (applyOne n) = stopped n"
  by (simp_all add: applyOne_def Let_def case_prod_beta split: option.split)

lemma applyAll_frame [simp, frame]:
  "entries (applyAll n) = entries n" "disk (applyAll n) = disk n" "store_if (applyAll n) = store_if n"
  "currentTerm (applyAll n) = currentTerm n" "votedFor (applyAll n) = votedFor n" "role (applyAll n) = role n"
  "snapshotIndex (applyAll n) = snapshotIndex n" "snapshotTerm (applyAll n) = snapshotTerm n"
  "snapshotData (applyAll n) = snapshotData n" "nid (applyAll n) = nid n" "peers (applyAll n) = peers n"
  "quorum (applyAll n) = quorum n" "cfg (applyAll n) = cfg n" "matchIndex (applyAll n) = matchIndex n"
  "nextIndex (applyAll n) = nextIndex n" "sm_if (applyAll n) = sm_if n" "leaderCtx (applyAll n) = leaderCtx n"
  "stopped (applyAll n) = stopped n" "commitIndex (applyAll n) = commitIndex n"
  by (induction n rule: applyAll.induct; subst applyAll.simps; simp)+

lemma log_ok_cong:
  "entries n = entries n' \<Longrightarrow> snapshotIndex n = snapshotIndex n' \<Longrightarrow> snapshotTerm n = snapshotTerm n' \<Longrightarrow>
   log_ok n = log_ok n'"
  by (simp add: log_ok_def sentinel_def)

text \<open>Replacing the front of the log by a snapshot.\<close>

definition rebase :: "('s, 'm) Node \<Rightarrow> 's \<Rightarrow> uint64 \<Rightarrow> uint64 \<Rightarrow> bytes \<Rightarrow> LogEntry list \<Rightarrow> ('s, 'm) Node" where
  "rebase n d i t data kept = n\<lparr>disk := d, entries := \<lparr>Term = t, Index = i, Cmd = NoBytes\<rparr> # kept,
     snapshotIndex := i, snapshotTerm := t, snapshotData := data\<rparr>"

lemma log_ok_rebase:
  "contiguous (Suc i) kept \<Longrightarrow> Suc i + length kept < two64 \<Longrightarrow> log_ok (rebase n d i t data kept)"
  by (simp add: log_ok_def sentinel_def rebase_def)

lemma contiguous_kept:
  assumes "log_ok n" "snapshotIndex n < i"
  shows "contiguous (Suc i) (drop (Suc i - snapshotIndex n) (entries n))"
  using assms contiguous_drop [of "snapshotIndex n" "entries n" "Suc i - snapshotIndex n"] by (simp add: log_ok_def)

definition compacted :: "('s, 'm) Node \<Rightarrow> ('s, 'm) Node" where
  "compacted n =
     (let i = lastApplied n; t = the (termAt n i); data = sm_Snapshot (sm_if n) (sm n);
          d = fst (TruncatePrefix (store_if n) (fst (SaveSnapshot (store_if n) (disk n)
                \<lparr>snapIndex = i, snapTerm = t, snapData = data\<rparr>)) i)
      in rebase n d i t data (drop (Suc i - snapshotIndex n) (entries n)))"

lemma maybeSnapshot_cases:
  assumes "log_ok n"
  obtains "maybeSnapshotLocked n = n"
  | d where "maybeSnapshotLocked n = n\<lparr>disk := d\<rparr>"
      "d = fst (SaveSnapshot (store_if n) (disk n) \<lparr>snapIndex = lastApplied n, snapTerm = the (termAt n (lastApplied n)),
          snapData = sm_Snapshot (sm_if n) (sm n)\<rparr>)"
      "snd (SaveSnapshot (store_if n) (disk n) \<lparr>snapIndex = lastApplied n, snapTerm = the (termAt n (lastApplied n)),
          snapData = sm_Snapshot (sm_if n) (sm n)\<rparr>) \<noteq> None"
  | "maybeSnapshotLocked n = compacted n" "snapshotIndex n < lastApplied n" "lastApplied n \<le> lastIndex n"
      "SnapshotThreshold (cfg n) < int (length (entries n)) - 1"
proof -
  define i where "i = lastApplied n"
  define p where "p = \<lparr>snapIndex = i, snapTerm = the (termAt n i), snapData = sm_Snapshot (sm_if n) (sm n)\<rparr>"
  consider "maybeSnapshotLocked n = n"
    | t where "termAt n i = Some t" "snapshotIndex n < i" "SnapshotThreshold (cfg n) < int (length (entries n)) - 1"
        "0 < SnapshotThreshold (cfg n)"
  proof (cases "SnapshotThreshold (cfg n) \<le> 0 \<or> int (length (entries n)) - 1 \<le> SnapshotThreshold (cfg n) \<or>
      i \<le> snapshotIndex n \<or> termAt n i = None")
    case True
    then have "maybeSnapshotLocked n = n" by (auto simp: maybeSnapshotLocked_def i_def Let_def)
    then show thesis by (rule that(1))
  next
    case False
    then show thesis using that(2) by (auto simp: not_le)
  qed
  then show thesis
  proof cases
    case 1
    then show thesis by (rule that(1))
  next
    case (2 t)
    then have le: "i \<le> lastIndex n" using assms by (simp add: termAt_eq split: if_splits)
    have sl: "sliceFrom n (add64 i 1) = drop (Suc i - snapshotIndex n) (entries n)"
      using 2 assms le lastIndex_less [OF assms] by (simp add: sliceFrom_eq)
    have sld: "sliceFrom (n\<lparr>disk := d\<rparr>) j = sliceFrom n j" for d j by (simp add: sliceFrom_def Let_def)
    have p: "p = \<lparr>snapIndex = i, snapTerm = t, snapData = sm_Snapshot (sm_if n) (sm n)\<rparr>"
      using 2(1) by (simp add: p_def)
    obtain d err where save: "SaveSnapshot (store_if n) (disk n) p = (d, err)" by (cases "SaveSnapshot (store_if n) (disk n) p")
    show thesis
    proof (cases err)
      case None
      with save 2 have "maybeSnapshotLocked n = rebase n (fst (TruncatePrefix (store_if n) d i)) i t
          (sm_Snapshot (sm_if n) (sm n)) (sliceFrom n (add64 i 1))"
        by (simp add: maybeSnapshotLocked_def i_def [symmetric] p rebase_def persist_conv Let_def sld)
      also have "\<dots> = compacted n"
        using 2(1) save p by (simp only: sl compacted_def i_def [symmetric] Let_def option.sel fst_conv)
      finally show thesis using 2 le by (intro that(3)) (simp_all add: i_def)
    next
      case (Some x)
      with save 2 have "maybeSnapshotLocked n = n\<lparr>disk := d\<rparr>"
        by (simp add: maybeSnapshotLocked_def i_def [symmetric] p Let_def)
      then show thesis using Some save by (intro that(2)) (simp_all add: p_def i_def)
    qed
  qed
qed

lemma log_ok_compacted:
  assumes "log_ok n" "snapshotIndex n < lastApplied n" "lastApplied n \<le> lastIndex n"
  shows "log_ok (compacted n)"
  using assms contiguous_kept [OF assms(1,2)] lastIndex_Suc [OF assms(1)] lastIndex_less [OF assms(1)]
  by (simp add: compacted_def Let_def log_ok_rebase)

section \<open>Installing a snapshot\<close>

definition keptBy :: "('s, 'm) Node \<Rightarrow> uint64 \<Rightarrow> uint64 \<Rightarrow> LogEntry list" where
  "keptBy n i t = (if termAt n i = Some t then drop (Suc i - snapshotIndex n) (entries n) else [])"

definition adoptDisk :: "('s, 'm) Node \<Rightarrow> InstallSnapshotRequest \<Rightarrow> 's" where
  "adoptDisk n req =
     (let i = LastIncludedIndex req; S = store_if n;
          d = (if termAt n i = Some (LastIncludedTerm req) then disk n
               else fst (TruncateSuffix S (disk n) (snapshotIndex n + 1)))
      in fst (TruncatePrefix S (fst (SaveSnapshot S d
           \<lparr>snapIndex = i, snapTerm = LastIncludedTerm req, snapData = isData req\<rparr>)) i))"

lemma adoptSnapshot_conv:
  assumes "log_ok n" "snapshotIndex n < LastIncludedIndex req"
  shows "adoptSnapshot n req =
     (rebase n (adoptDisk n req) (LastIncludedIndex req) (LastIncludedTerm req) (isData req)
        (keptBy n (LastIncludedIndex req) (LastIncludedTerm req)))
     \<lparr>commitIndex := max (commitIndex n) (LastIncludedIndex req), lastApplied := max (lastApplied n) (LastIncludedIndex req)\<rparr>"
proof -
  let ?i = "LastIncludedIndex req" and ?t = "LastIncludedTerm req"
  have sl: "sliceFrom n (add64 ?i 1) = drop (Suc ?i - snapshotIndex n) (entries n)" if "termAt n ?i = Some ?t"
  proof -
    have "?i \<le> lastIndex n" using that assms by (simp add: termAt_eq split: if_splits)
    then show ?thesis using assms lastIndex_less [OF assms(1)] by (simp add: sliceFrom_eq)
  qed
  have s1: "add64 (snapshotIndex n) 1 = snapshotIndex n + 1"
    using assms(1) by (intro add64_nowrap) (cases "entries n"; simp add: log_ok_def)
  show ?thesis
    by (cases "termAt n ?i = Some ?t"; cases "commitIndex n < ?i"; cases "lastApplied n < ?i")
      (simp_all add: adoptSnapshot_def Let_def case_prod_beta go_defs rebase_def adoptDisk_def keptBy_def sl s1
        max_def del: One_nat_def)
qed

lemma InstallSnapshot_conv:
  "InstallSnapshot e n req =
     (if isTerm req < currentTerm n then (n, \<lparr>isrTerm = currentTerm n\<rparr>)
      else
        let h = heard e n (isTerm req) (isLeaderId req) in
        (if LastIncludedIndex req \<le> snapshotIndex n then h
         else case sm_Restore (sm_if n) (sm n) (isData req) of
           (m, Some err) \<Rightarrow> h\<lparr>sm := m\<rparr> | (m, None) \<Rightarrow> adoptSnapshot (h\<lparr>sm := m\<rparr>) req,
         \<lparr>isrTerm = isTerm req\<rparr>))"
proof -
  have h: "resetElectionDeadline e
     ((if currentTerm n < isTerm req then stepDown (isTerm req) n else n)
      \<lparr>role := Follower, leaderID := isLeaderId req, lastLeaderContact := Some (now e)\<rparr>) =
     heard e n (isTerm req) (isLeaderId req)"
    by (simp add: heard_def)
  show ?thesis
    by (simp add: InstallSnapshot_def h Let_def max_absorb2 split: prod.split option.split)
qed

lemma log_ok_adopt:
  assumes "log_ok n" "snapshotIndex n < LastIncludedIndex req" "LastIncludedIndex req + 1 < two64"
  shows "log_ok (adoptSnapshot n req)"
proof -
  have "Suc (LastIncludedIndex req) + length (keptBy n (LastIncludedIndex req) (LastIncludedTerm req)) < two64"
    using assms lastIndex_Suc [OF assms(1)] lastIndex_less [OF assms(1)]
    by (auto simp: keptBy_def termAt_eq split: if_splits)
  moreover have "contiguous (Suc (LastIncludedIndex req)) (keptBy n (LastIncludedIndex req) (LastIncludedTerm req))"
    using contiguous_kept [OF assms(1,2)] by (simp add: keptBy_def)
  ultimately show ?thesis
    using log_ok_rebase by (simp add: adoptSnapshot_conv [OF assms(1,2)] log_ok_def sentinel_def rebase_def)
qed

lemma log_ok_sm [simp]: "log_ok (n\<lparr>sm := m\<rparr>) = log_ok n"
  by (rule log_ok_cong) simp_all

lemma InstallSnapshot_log_ok:
  assumes "log_ok n" "LastIncludedIndex req + 1 < two64"
  shows "log_ok (fst (InstallSnapshot e n req))"
  using assms by (auto simp: InstallSnapshot_conv Let_def intro!: log_ok_adopt split: prod.splits option.splits)

section \<open>Elections and proposals\<close>

definition room :: "('s, 'm) Node \<Rightarrow> bool" where
  "room n \<longleftrightarrow> lastIndex n + 2 < two64"

definition term_room :: "('s, 'm) Node \<Rightarrow> bool" where
  "term_room n \<longleftrightarrow> currentTerm n + 1 < two64"

definition ownEntry :: "('s, 'm) Node \<Rightarrow> bytes \<Rightarrow> LogEntry" where
  "ownEntry n c = \<lparr>Term = currentTerm n, Index = add64 (lastIndex n) 1, Cmd = c\<rparr>"

lemma appendOwn_conv:
  "appendOwn n c = (n\<lparr>entries := entries n @ [ownEntry n c],
     disk := fst (Append (store_if n) (disk n) [ownEntry n c])\<rparr>, ownEntry n c)"
  by (simp add: appendOwn_def go_defs ownEntry_def Let_def)

lemma log_ok_append:
  assumes "log_ok n" "lastIndex n + 2 < two64"
  shows "log_ok (n\<lparr>entries := entries n @ [ownEntry n c], disk := d\<rparr>)"
  using assms lastIndex_Suc [OF assms(1)] by (auto simp: log_ok_def sentinel_def ownEntry_def)

lemma stepDown_log [simp]: "log_ok (stepDown t n) = log_ok n"
  by (rule log_ok_cong) (simp_all add: stepDown_conv)

lemma becomeLeader_fields:
  assumes "role n \<noteq> Leader"
  shows "entries (becomeLeaderLocked n) = entries n @ [ownEntry n noopCommand]"
    "disk (becomeLeaderLocked n) = fst (Append (store_if n) (disk n) [ownEntry n noopCommand])"
    "currentTerm (becomeLeaderLocked n) = currentTerm n" "votedFor (becomeLeaderLocked n) = votedFor n"
    "role (becomeLeaderLocked n) = Leader" "store_if (becomeLeaderLocked n) = store_if n"
    "snapshotIndex (becomeLeaderLocked n) = snapshotIndex n" "snapshotTerm (becomeLeaderLocked n) = snapshotTerm n"
    "snapshotData (becomeLeaderLocked n) = snapshotData n" "nid (becomeLeaderLocked n) = nid n"
    "peers (becomeLeaderLocked n) = peers n" "quorum (becomeLeaderLocked n) = quorum n"
  using assms by (simp_all add: becomeLeaderLocked_def appendOwn_conv go_defs Let_def ownEntry_def lastIndex_def)

lemma log_ok_becomeLeader: "log_ok n \<Longrightarrow> room n \<Longrightarrow> log_ok (becomeLeaderLocked n)"
proof (cases "role n = Leader")
  case False
  assume "log_ok n" "room n"
  then have "log_ok (n\<lparr>entries := entries n @ [ownEntry n noopCommand], disk := disk n\<rparr>)"
    by (intro log_ok_append) (simp_all add: room_def)
  then show ?thesis by (rule iffD1 [OF log_ok_cong, rotated 3]) (simp_all add: becomeLeader_fields False)
qed (simp add: becomeLeaderLocked_def)

definition electing :: "env \<Rightarrow> ('s, 'm) Node \<Rightarrow> ('s, 'm) Node" where
  "electing e n = resetElectionDeadline e (persistHardState
     (n\<lparr>currentTerm := add64 (currentTerm n) 1, role := Candidate, votedFor := nid n, leaderID := ''''\<rparr>))"

lemma electing_fields [simp]:
  "entries (electing e n) = entries n" "currentTerm (electing e n) = add64 (currentTerm n) 1"
  "votedFor (electing e n) = nid n" "role (electing e n) = Candidate" "store_if (electing e n) = store_if n"
  "snapshotIndex (electing e n) = snapshotIndex n" "snapshotTerm (electing e n) = snapshotTerm n"
  "snapshotData (electing e n) = snapshotData n" "nid (electing e n) = nid n" "peers (electing e n) = peers n"
  "quorum (electing e n) = quorum n" "commitIndex (electing e n) = commitIndex n" "lastApplied (electing e n) = lastApplied n"
  "sm (electing e n) = sm n" "sm_if (electing e n) = sm_if n" "cfg (electing e n) = cfg n" "goroutines (electing e n) = goroutines n"
  "disk (electing e n) = fst (SaveHardState (store_if n) (disk n) \<lparr>hsTerm = add64 (currentTerm n) 1, VotedFor = nid n\<rparr>)"
  by (simp_all add: electing_def go_defs)

lemma startRealElection_conv:
  "startRealElectionLocked e n li lt =
     (if quorum n \<le> 1 then becomeLeaderLocked (electing e n)
      else (electing e n)\<lparr>goroutines := goroutines n @ [GatherVotes (add64 (currentTerm n) 1) li lt False]\<rparr>)"
  unfolding startRealElectionLocked_def Let_def electing_def [symmetric] by simp

lemma log_ok_electing [simp]: "log_ok (electing e n) = log_ok n"
  by (rule log_ok_cong) simp_all

lemma log_ok_goroutines [simp]: "log_ok (n\<lparr>goroutines := g\<rparr>) = log_ok n"
  by (rule log_ok_cong) simp_all

definition canvassing :: "env \<Rightarrow> ('s, 'm) Node \<Rightarrow> ('s, 'm) Node" where
  "canvassing e n = resetElectionDeadline e (n\<lparr>role := Candidate, leaderID := ''''\<rparr>)"

lemma canvassing_fields [simp]:
  "entries (canvassing e n) = entries n" "currentTerm (canvassing e n) = currentTerm n"
  "votedFor (canvassing e n) = votedFor n" "role (canvassing e n) = Candidate" "store_if (canvassing e n) = store_if n"
  "snapshotIndex (canvassing e n) = snapshotIndex n" "snapshotTerm (canvassing e n) = snapshotTerm n"
  "snapshotData (canvassing e n) = snapshotData n" "nid (canvassing e n) = nid n" "peers (canvassing e n) = peers n"
  "quorum (canvassing e n) = quorum n" "commitIndex (canvassing e n) = commitIndex n"
  "lastApplied (canvassing e n) = lastApplied n" "sm (canvassing e n) = sm n" "sm_if (canvassing e n) = sm_if n"
  "cfg (canvassing e n) = cfg n" "disk (canvassing e n) = disk n" "goroutines (canvassing e n) = goroutines n"
  by (simp_all add: canvassing_def go_defs)

lemma beginCampaign_conv:
  "beginCampaignLocked e n =
     (if preVoteEnabled (cfg n)
      then (canvassing e n)\<lparr>goroutines := goroutines n @ [Campaign (currentTerm n) (lastIndex n) (lastTerm n)]\<rparr>
      else startRealElectionLocked e (canvassing e n) (lastIndex n) (lastTerm n))"
  unfolding beginCampaignLocked_def Let_def canvassing_def [symmetric] by (simp add: lastIndex_def lastTerm_def)

lemma log_ok_canvassing [simp]: "log_ok (canvassing e n) = log_ok n"
  by (rule log_ok_cong) simp_all

lemma room_electing [simp]: "room (electing e n) = room n" "room (canvassing e n) = room n"
  by (simp_all add: room_def lastIndex_def)

section \<open>The steps of one server\<close>

text \<open>
  The bounds in the premises keep the arithmetic below \<open>2\<^sup>64\<close>: no log has that many entries
  and no cluster that many elections.
\<close>

inductive node_step :: "('s, 'm) Node \<Rightarrow> ('s, 'm) Node \<Rightarrow> bool" where
  tick: "room n \<Longrightarrow> term_room n \<Longrightarrow> node_step n (electionTick e n)"
| campaign: "room n \<Longrightarrow> term_room n \<Longrightarrow> node_step n (campaign_finish e n b li lt w)"
| request_vote: "node_step n (fst (RequestVote e n rv))"
| vote_reply: "room n \<Longrightarrow> node_step n (fst (gatherVotes_reply n r t pv rvr))"
| append_entries: "req_ok ae \<Longrightarrow> node_step n (fst (AppendEntries e n ae))"
| append_reply: "node_step n (sendAppendEntries_reply n p ae aer)"
| install_snapshot: "LastIncludedIndex is + 1 < two64 \<Longrightarrow> node_step n (fst (InstallSnapshot e n is))"
| snapshot_reply: "node_step n (sendSnapshot_reply n p is isr)"
| confirm_reply: "node_step n (fst (confirmLeadership_reply n t aer))"
| propose: "room n \<Longrightarrow> node_step n (fst (Propose n c))"
| submit: "room n \<Longrightarrow> node_step n (fst (Submit n c))"
| submit_wake: "Submit_wake n i ch wk = Some (n', res) \<Longrightarrow> node_step n n'"
| apply_ready: "node_step n (applyReady n)"
| take_signal: "node_step n (n\<lparr>applyCh := False\<rparr>)"
| take_task: "node_step n (n\<lparr>goroutines := g\<rparr>)"
| start: "node_step n (Start e n)"
| stop: "node_step n (Stop n)"

text \<open>Fields that only \<open>stepDown\<close>, the election and the log operations write.\<close>

definition same_core :: "('s, 'm) Node \<Rightarrow> ('s, 'm) Node \<Rightarrow> bool" where
  "same_core n n' \<longleftrightarrow> entries n' = entries n \<and> disk n' = disk n \<and> store_if n' = store_if n \<and>
     currentTerm n' = currentTerm n \<and> votedFor n' = votedFor n \<and> snapshotIndex n' = snapshotIndex n \<and>
     snapshotTerm n' = snapshotTerm n \<and> snapshotData n' = snapshotData n"

lemma same_core_refl [simp]: "same_core n n"
  by (simp add: same_core_def)

lemma same_core_log_ok: "same_core n n' \<Longrightarrow> log_ok n' = log_ok n"
  unfolding same_core_def by (intro log_ok_cong) auto

lemma same_core_durable: "same_core n n' \<Longrightarrow> durable S v n' = durable S v n"
  by (simp add: same_core_def durable_defs)

lemma drop_pending_core: "same_core n (drop_pending chan_send err i n)"
  by (simp add: drop_pending_def chan_send_def same_core_def Let_def split: option.split)

lemma same_core_trans: "same_core a b \<Longrightarrow> same_core b c \<Longrightarrow> same_core a c"
  by (simp add: same_core_def)

lemma fold_drop_core: "same_core n (fold (drop_pending chan_send err) ks n)"
  by (induction ks arbitrary: n) (auto intro: same_core_trans drop_pending_core)

lemma Stop_core: "same_core n (Stop n)"
proof -
  define n1 where "n1 = cancelLeaderCtx (if stopped n then n\<lparr>running := False, fault := Some Panic\<rparr>
     else n\<lparr>running := False, stopped := True\<rparr>)"
  have "same_core n n1" by (simp add: n1_def cancelLeaderCtx_conv same_core_def)
  then have "same_core n (fold (drop_pending chan_send ErrStopped) (keys_sorted (pending n1)) n1)"
    using fold_drop_core same_core_trans by blast
  then show ?thesis by (simp add: Stop_def Let_def n1_def split: if_splits)
qed

lemma Start_core: "same_core n (Start e n)"
  by (simp add: Start_def Let_def go_defs same_core_def)

lemma applyAll_core: "same_core n (applyAll n)"
  by (simp add: same_core_def)

lemma Submit_wake_core: "Submit_wake n i ch wk = Some (n', res) \<Longrightarrow> same_core n n'"
  by (auto simp: Submit_wake_def same_core_def split: submitWake.splits option.splits if_splits)

lemma snapshot_reply_core:
  "currentTerm n < isrTerm r \<or> same_core n (sendSnapshot_reply n p is r)"
  by (simp add: sendSnapshot_reply_def same_core_def)

lemma advance_core: "same_core n (advanceCommitLocked n)"
  by (simp add: advanceCommit_conv same_core_def)

lemma append_reply_core:
  "currentTerm n < aerTerm r \<or> same_core n (sendAppendEntries_reply n p ae r)"
  by (simp add: sendAppendEntries_reply_def same_core_def go_defs Let_def)

text \<open>The proposals and the winning of an election append one own entry.\<close>

lemma Propose_cases:
  "same_core n (fst (Propose n c)) \<or>
   same_core (fst (appendOwn n c)) (fst (Propose n c))"
  by (simp add: Propose_def case_prod_beta go_defs same_core_def)

lemma Submit_cases:
  "same_core n (fst (Submit n c)) \<or> same_core (fst (appendOwn n c)) (fst (Submit n c))"
  by (simp add: Submit_def case_prod_beta go_defs same_core_def Let_def)

lemma becomeLeader_core:
  "same_core n (becomeLeaderLocked n) \<or> same_core (fst (appendOwn n noopCommand)) (becomeLeaderLocked n)"
proof (cases "role n = Leader")
  case False
  then show ?thesis by (simp add: same_core_def becomeLeader_fields appendOwn_conv)
qed (simp add: becomeLeaderLocked_def)

text \<open>
  Every step is one of nine kinds as far as term, vote, log, snapshot and store go; the
  invariants are proved for these.
\<close>

inductive core_step :: "('s, 'm) Node \<Rightarrow> ('s, 'm) Node \<Rightarrow> bool" where
  idle: "same_core n n' \<Longrightarrow> core_step n n'"
| lower: "currentTerm n < t \<Longrightarrow> same_core (stepDown t n) n' \<Longrightarrow> core_step n n'"
| vote: "core_step n (fst (RequestVote e n rv))"
| merge: "req_ok ae \<Longrightarrow> core_step n (fst (AppendEntries e n ae))"
| install: "LastIncludedIndex is + 1 < two64 \<Longrightarrow> core_step n (fst (InstallSnapshot e n is))"
| own: "room n \<Longrightarrow> same_core (fst (appendOwn n c)) n' \<Longrightarrow> core_step n n'"
| elect: "same_core n n1 \<Longrightarrow> term_room n1 \<Longrightarrow> same_core (electing e n1) n' \<Longrightarrow> core_step n n'"
| win: "same_core n n1 \<Longrightarrow> term_room n1 \<Longrightarrow> room n1 \<Longrightarrow>
     same_core (fst (appendOwn (electing e n1) c)) n' \<Longrightarrow> core_step n n'"
| compact: "same_core n n1 \<Longrightarrow> core_step n (maybeSnapshotLocked n1)"

lemma same_core_room: "same_core n n' \<Longrightarrow> room n' = room n" "same_core n n' \<Longrightarrow> term_room n' = term_room n"
  by (simp_all add: room_def term_room_def same_core_def lastIndex_def)

lemma canvassing_core: "same_core n (canvassing e n)"
  by (simp add: same_core_def)

lemma goroutines_core: "same_core n (n\<lparr>goroutines := g\<rparr>)"
  by (simp add: same_core_def)

lemma election_core:
  assumes "same_core n n1" "room n" "term_room n"
  shows "core_step n (startRealElectionLocked e n1 li lt)"
proof (cases "quorum n1 \<le> 1")
  case True
  consider "same_core (electing e n1) (becomeLeaderLocked (electing e n1))"
    | "same_core (fst (appendOwn (electing e n1) noopCommand)) (becomeLeaderLocked (electing e n1))"
    using becomeLeader_core by blast
  then show ?thesis
    using assms True by cases (auto simp: startRealElection_conv same_core_room intro: core_step.elect core_step.win)
next
  case False
  then show ?thesis
    using assms by (simp add: startRealElection_conv same_core_room core_step.elect [OF assms(1) _ goroutines_core])
qed

lemma tick_core: "room n \<Longrightarrow> term_room n \<Longrightarrow> core_step n (electionTick e n)"
  by (simp add: electionTick_def beginCampaign_conv election_core [OF canvassing_core] core_step.idle
      core_step.idle [OF same_core_trans [OF canvassing_core goroutines_core]])

lemma vote_reply_core: "room n \<Longrightarrow> core_step n (fst (gatherVotes_reply n r t pv resp))"
  using becomeLeader_core [of n]
  by (auto simp: gatherVotes_reply_def Let_def intro: core_step.idle core_step.own core_step.lower)

theorem node_step_core: "node_step n n' \<Longrightarrow> core_step n n'"
proof (induction rule: node_step.induct)
  case (campaign n e b li lt w)
  then show ?case by (auto simp: campaign_finish_def intro: core_step.idle election_core)
next
  case (append_reply n p ae aer)
  then show ?case using append_reply_core [of n aer p ae]
    by (auto simp: sendAppendEntries_reply_def intro: core_step.idle core_step.lower)
next
  case (snapshot_reply n p "is" isr)
  then show ?case using snapshot_reply_core [of n isr p "is"]
    by (auto simp: sendSnapshot_reply_def intro: core_step.idle core_step.lower)
next
  case (confirm_reply n t aer)
  then show ?case by (auto simp: confirmLeadership_reply_def intro: core_step.idle core_step.lower)
next
  case (propose n c)
  then show ?case using Propose_cases [of n c] by (auto intro: core_step.idle core_step.own)
next
  case (submit n c)
  then show ?case using Submit_cases [of n c] by (auto intro: core_step.idle core_step.own)
next
  case (apply_ready n)
  show ?case using applyAll_core [of n]
    by (auto simp: applyReady_def Let_def intro: core_step.idle core_step.compact)
next
  case (take_signal n)
  show ?case by (intro core_step.idle) (simp add: same_core_def)
qed (auto intro: core_step.intros tick_core vote_reply_core Submit_wake_core Start_core Stop_core goroutines_core)

section \<open>Well-formed logs are kept\<close>

lemma core_step_log_ok: "core_step n n' \<Longrightarrow> log_ok n \<Longrightarrow> log_ok n'"
proof (induction rule: core_step.induct)
  case (vote n e rv)
  have "log_ok (n\<lparr>votedFor := v\<rparr>) = log_ok n" for n :: "('a, 'b) Node" and v by (rule log_ok_cong) simp_all
  moreover have "log_ok (resetElectionDeadline e (persistHardState n)) = log_ok n" for n :: "('a, 'b) Node"
    by (rule log_ok_cong) (simp_all add: go_defs)
  ultimately show ?case using vote by (simp add: RequestVote_def Let_def)
next
  case (own n c n')
  then show ?case using log_ok_append [where n = n and c = c] same_core_log_ok [of "fst (appendOwn n c)" n']
    by (simp add: appendOwn_conv room_def)
next
  case (win n n1 e c n')
  then show ?case
    using log_ok_append [where n = "electing e n1" and c = c] same_core_log_ok [of "fst (appendOwn (electing e n1) c)" n']
      same_core_log_ok [of n n1] room_electing(1) [of e n1]
    by (simp add: appendOwn_conv room_def)
next
  case (compact n n1)
  then have "log_ok n1" by (simp add: same_core_log_ok)
  then show ?case
  proof (cases rule: maybeSnapshot_cases)
    case (2 d)
    then show ?thesis using \<open>log_ok n1\<close> by (simp add: log_ok_def sentinel_def)
  qed (use \<open>log_ok n1\<close> in \<open>simp_all add: log_ok_compacted\<close>)
qed (auto simp: same_core_log_ok AppendEntries_log_ok InstallSnapshot_log_ok)

lemma node_step_log_ok: "node_step n n' \<Longrightarrow> log_ok n \<Longrightarrow> log_ok n'"
  by (rule core_step_log_ok [OF node_step_core])

section \<open>Durability is kept\<close>

context reliable_storage
begin

lemma durable_rebase:
  assumes "durable S valid n" "contiguous (Suc (snapshotIndex n)) (tl (entries n))"
    and "valid d0" "AllEntries S d0 = (l, None)" "LoadHardState S d0 = LoadHardState S (disk n)"
    and "filter (\<lambda>e. i < Index e) l = kept"
  shows "durable S valid (rebase n (fst (TruncatePrefix S (fst (SaveSnapshot S d0
     \<lparr>snapIndex = i, snapTerm = t, snapData = data\<rparr>)) i)) i t data kept)"
proof -
  let ?d1 = "fst (SaveSnapshot S d0 \<lparr>snapIndex = i, snapTerm = t, snapData = data\<rparr>)"
  have 1: "valid ?d1" "AllEntries S ?d1 = (l, None)" "LoadHardState S ?d1 = LoadHardState S (disk n)"
    "LoadSnapshot S ?d1 = (\<lparr>snapIndex = i, snapTerm = t, snapData = data\<rparr>, None)"
    using save_snapshot' [OF assms(3)] assms(4,5) by simp_all
  show ?thesis
    using assms(1,6) 1 truncate_prefix' [OF 1(1,2), of i] by (simp add: durable_defs rebase_def)
qed

lemma durable_tl:
  assumes "durable S valid n" "log_ok n"
  shows "contiguous (Suc (snapshotIndex n)) (tl (entries n))" "valid (disk n)" "AllEntries S (disk n) = (tl (entries n), None)"
    "store_if n = S"
  using assms by (cases "entries n"; auto simp: durable_defs log_ok_def)+

lemma tl_kept:
  assumes "log_ok n" "snapshotIndex n < i"
  shows "filter (\<lambda>e. i < Index e) (tl (entries n)) = drop (Suc i - snapshotIndex n) (entries n)"
proof -
  have "contiguous (Suc (snapshotIndex n)) (tl (entries n))"
    using assms(1) by (cases "entries n") (auto simp: log_ok_def)
  then have "filter (\<lambda>e. i < Index e) (tl (entries n)) = drop (Suc i - Suc (snapshotIndex n)) (tl (entries n))"
    using assms(2) by (intro contiguous_filter_gt) auto
  also have "\<dots> = drop (Suc i - snapshotIndex n) (entries n)"
    using assms(2) by (simp add: drop_Suc [symmetric] Suc_diff_le)
  finally show ?thesis .
qed

lemma durable_compacted:
  assumes "durable S valid n" "log_ok n" "snapshotIndex n < lastApplied n"
  shows "durable S valid (compacted n)"
  using durable_rebase [OF assms(1) durable_tl(1-3) [OF assms(1,2)] refl tl_kept [OF assms(2,3)]] assms(1)
  by (simp add: compacted_def Let_def durable_defs)

lemma durable_maybeSnapshot:
  assumes "durable S valid n" "log_ok n"
  shows "durable S valid (maybeSnapshotLocked n)"
  using assms(2)
proof (cases rule: maybeSnapshot_cases)
  case (2 d)
  then show ?thesis using assms(1) no_error(5) by (simp add: durable_defs)
qed (use assms durable_compacted in auto)

lemma durable_adopt:
  assumes "durable S valid n" "log_ok n" "snapshotIndex n < LastIncludedIndex req"
  shows "durable S valid (adoptSnapshot n req)"
proof -
  let ?i = "LastIncludedIndex req" and ?t = "LastIncludedTerm req" and ?s = "snapshotIndex n"
  note tl = durable_tl [OF assms(1,2)]
  define d0 where "d0 = (if termAt n ?i = Some ?t then disk n else fst (TruncateSuffix S (disk n) (?s + 1)))"
  define l where "l = (if termAt n ?i = Some ?t then tl (entries n) else [])"
  have "filter (\<lambda>e. Index e < ?s + 1) (tl (entries n)) = []"
    using contiguous_filter_lt [OF tl(1), of "?s + 1"] by simp
  then have d0: "valid d0" "AllEntries S d0 = (l, None)" "LoadHardState S d0 = LoadHardState S (disk n)"
    using tl truncate_suffix' [OF tl(2,3), of "?s + 1"] by (auto simp: d0_def l_def)
  have "filter (\<lambda>e. ?i < Index e) l = keptBy n ?i ?t"
    using tl_kept [OF assms(2,3)] by (simp add: l_def keptBy_def)
  from durable_rebase [OF assms(1) tl(1) d0 this]
  have "durable S valid (rebase n (adoptDisk n req) ?i ?t (isData req) (keptBy n ?i ?t))"
    using tl(4) by (simp add: adoptDisk_def d0_def Let_def)
  then show ?thesis
    by (simp add: adoptSnapshot_conv [OF assms(2,3)] durable_defs)
qed

lemma durable_InstallSnapshot:
  assumes "durable S valid n" "log_ok n"
  shows "durable S valid (fst (InstallSnapshot e n req))"
proof -
  have "durable S valid ((heard e n (isTerm req) (isLeaderId req))\<lparr>sm := m\<rparr>)" for m
    using durable_heard [OF assms(1), of e "isTerm req" "isLeaderId req"] by (simp add: durable_defs)
  then show ?thesis
    using assms durable_heard
    by (auto simp: InstallSnapshot_conv Let_def intro!: durable_adopt split: prod.splits option.splits)
qed

lemma durable_electing: "durable S valid n \<Longrightarrow> durable S valid (electing e n)"
  by (simp add: durable_defs save_hs')

lemma core_step_durable:
  "core_step n n' \<Longrightarrow> durable S valid n \<Longrightarrow> log_ok n \<Longrightarrow> durable S valid n'"
proof (induction rule: core_step.induct)
  case (lower n t n')
  then show ?case using durable_stepDown [of n t] by (simp add: same_core_durable)
next
  case (own n c n')
  then show ?case using durable_appendOwn [of n c] by (simp add: same_core_durable room_def)
next
  case (elect n n1 e n')
  then show ?case using durable_electing [of n1 e] by (simp add: same_core_durable)
next
  case (win n n1 e c n')
  then have "durable S valid n1" "log_ok n1" by (simp_all add: same_core_durable same_core_log_ok)
  then show ?case
    using win durable_appendOwn [of "electing e n1" c] durable_electing [of n1 e] room_electing(1) [of e n1]
    by (simp add: same_core_durable room_def)
next
  case (compact n n1)
  then show ?case using durable_maybeSnapshot [of n1] by (simp add: same_core_durable same_core_log_ok)
qed (auto simp: same_core_durable durable_RequestVote durable_AppendEntries durable_InstallSnapshot)

lemma node_step_durable:
  "node_step n n' \<Longrightarrow> durable S valid n \<and> log_ok n \<Longrightarrow> durable S valid n' \<and> log_ok n'"
  using core_step_durable node_step_core node_step_log_ok by blast

text \<open>What \<open>loadFromStorage\<close> gives back.\<close>

lemma load_durable:
  assumes "durable S valid n" "log_ok n" and same: "store_if n0 = S" "disk n0 = disk n"
    and restored: "(if snapshotData n = NoBytes then (sm n0, None) else sm_Restore (sm_if n0) (sm n0) (snapshotData n)) = (m, None)"
  shows "loadFromStorage n0 =
     (n0\<lparr>currentTerm := currentTerm n, votedFor := votedFor n, snapshotIndex := snapshotIndex n,
         snapshotTerm := snapshotTerm n, snapshotData := snapshotData n, sm := m, entries := entries n,
         commitIndex := snapshotIndex n, lastApplied := snapshotIndex n\<rparr>, None)"
proof -
  have e: "entries n = sentinel n # tl (entries n)" using assms(2) by (cases "entries n") (auto simp: log_ok_def)
  have "filter (\<lambda>x. snapshotIndex n < Index x) (tl (entries n)) = tl (entries n)"
    using durable_tl(1) [OF assms(1,2)] by (fastforce simp: filter_id_conv dest: contiguous_index_ge)
  then show ?thesis
    using assms(1) same restored e
    by (simp add: loadFromStorage_def durable_defs sentinel_def Let_def split: if_splits)
qed

end

interpretation mem_reliable: reliable_storage MemStorage mem_valid
  by unfold_locales (simp_all add: mem_defs)

section \<open>Terms and votes\<close>

text \<open>Terms never go back, and within a term a vote is never changed.\<close>

definition votes_kept :: "('s, 'm) Node \<Rightarrow> ('s, 'm) Node \<Rightarrow> bool" where
  "votes_kept n n' \<longleftrightarrow> currentTerm n \<le> currentTerm n' \<and>
     (currentTerm n' = currentTerm n \<and> votedFor n \<noteq> '''' \<longrightarrow> votedFor n' = votedFor n)"

lemma votes_kept_refl [simp]: "votes_kept n n"
  by (simp add: votes_kept_def)

lemma votes_kept_trans: "votes_kept a b \<Longrightarrow> votes_kept b c \<Longrightarrow> votes_kept a c"
  by (auto simp: votes_kept_def)

lemma votes_kept_RequestVote: "votes_kept n (fst (RequestVote e n rv))"
  by (auto simp: votes_kept_def RequestVote_def Let_def go_defs)

lemma votes_kept_heard: "votes_kept n (heard e n t l)"
  by (auto simp: votes_kept_def)

lemma maybeSnapshot_votes:
  "currentTerm (maybeSnapshotLocked n) = currentTerm n" "votedFor (maybeSnapshotLocked n) = votedFor n"
  by (simp_all add: maybeSnapshotLocked_def Let_def go_defs split: option.split prod.split)

lemma adoptSnapshot_votes:
  "currentTerm (adoptSnapshot n req) = currentTerm n" "votedFor (adoptSnapshot n req) = votedFor n"
  by (simp_all add: adoptSnapshot_def Let_def go_defs case_prod_beta)

lemma votes_kept_AppendEntries:
  assumes "req_ok ae" "log_ok n"
  shows "votes_kept n (fst (AppendEntries e n ae))"
proof (cases "accepts n ae")
  case True
  then show ?thesis
    using votes_kept_heard [of n e "aeTerm ae" "aeLeaderId ae"]
    by (simp add: AppendEntries_accept [OF assms(2,1) True refl] votes_kept_def commitTo_conv)
qed (simp add: AppendEntries_reject votes_kept_heard)

lemma votes_kept_InstallSnapshot: "votes_kept n (fst (InstallSnapshot e n is))"
  using votes_kept_heard [of n e "isTerm is" "isLeaderId is"]
  by (auto simp: InstallSnapshot_conv Let_def votes_kept_def adoptSnapshot_votes split: prod.split option.split)

lemma core_step_votes: "core_step n n' \<Longrightarrow> log_ok n \<Longrightarrow> votes_kept n n'"
proof (induction rule: core_step.induct)
  case (compact n n1)
  then show ?case by (simp add: votes_kept_def maybeSnapshot_votes same_core_def)
next
  case (vote n e rv)
  show ?case by (rule votes_kept_RequestVote)
next
  case (merge ae n e)
  then show ?case by (rule votes_kept_AppendEntries)
next
  case (install "is" n e)
  show ?case by (rule votes_kept_InstallSnapshot)
qed (auto simp: votes_kept_def same_core_def stepDown_conv appendOwn_conv term_room_def)

section \<open>Crashes and restarts\<close>

text \<open>
  The life of a server: its steps, and restarts that keep nothing but the store
  (\<open>SimCluster.Crash\<close> and \<open>Restart\<close> of \<open>src/internal/cluster/cluster.go\<close>, or the process of
  \<open>src/cmd/node\<close> dying and coming back).
\<close>

definition booted :: "(MemStore, 'm) Config \<Rightarrow> (MemStore, 'm) Node \<Rightarrow> bool" where
  "booted c n \<longleftrightarrow> cfgStorage c = Some MemStorage \<and> (\<exists>m. New c NewMemStore m = Inr n)"

inductive life_step :: "(MemStore, 'm) Config \<Rightarrow> (MemStore, 'm) Node \<Rightarrow> (MemStore, 'm) Node \<Rightarrow> bool" for c where
  step: "node_step n n' \<Longrightarrow> life_step c n n'"
| restart: "New c (disk n) m = Inr n' \<Longrightarrow> life_step c n n'"

abbreviation persisted :: "(MemStore, 'm) Node \<Rightarrow> bool" where
  "persisted n \<equiv> durable MemStorage mem_valid n \<and> log_ok n"

definition new_node :: "('s, 'm) Config \<Rightarrow> 's Storage \<Rightarrow> 'm StateMachine \<Rightarrow> 's \<Rightarrow> 'm \<Rightarrow> ('s, 'm) Node" where
  "new_node c S M d m = \<lparr>cfg = c, store_if = S, disk = d, sm_if = M, sm = m, nid = ID c,
     peers = filter (\<lambda>p. p \<noteq> ID c) (Peers c), quorum = length (Peers c) div 2 + 1,
     currentTerm = 0, votedFor = '''', entries = [], snapshotIndex = 0, snapshotTerm = 0,
     snapshotData = NoBytes, role = Follower, leaderID = '''', commitIndex = 0,
     lastApplied = 0, nextIndex = Map.empty, matchIndex = Map.empty,
     triggerCh = Map.empty, electionDeadline = None, lastLeaderContact = None,
     applyCh = False, pending = fmempty, stopped = False, running = False,
     leaderCtx = None, appliedCount = 0, chans = (\<lambda>_. None), nextChan = 0,
     nextCtx = 0, cancelledCtx = [], goroutines = [], fault = None\<rparr>"

lemma withDefaults_frame [simp]:
  "cfgStorage (withDefaults c) = cfgStorage c" "cfgTransport (withDefaults c) = cfgTransport c"
  "cfgStateMachine (withDefaults c) = cfgStateMachine c" "ID (withDefaults c) = ID c" "Peers (withDefaults c) = Peers c"
  by (simp_all add: withDefaults_def Let_def)

lemma New_eq:
  assumes "cfgStorage c = Some S" "cfgTransport c = Some T" "cfgStateMachine c = Some M"
  shows "New c d m = (case loadFromStorage (new_node (withDefaults c) S M d m) of
     (n, Some err) \<Rightarrow> Inl err | (n, None) \<Rightarrow> Inr n)"
  using assms by (simp add: New_def new_node_def Let_def)

lemma New_Inr:
  assumes "New c d m = Inr n" "cfgStorage c = Some S"
  obtains T M where "cfgTransport c = Some T" "cfgStateMachine c = Some M"
    "loadFromStorage (new_node (withDefaults c) S M d m) = (n, None)"
proof -
  have "cfgTransport c \<noteq> None \<and> cfgStateMachine c \<noteq> None"
    using assms by (auto simp: New_def Let_def split: option.splits)
  then obtain T M where T: "cfgTransport c = Some T" "cfgStateMachine c = Some M" by auto
  then have "loadFromStorage (new_node (withDefaults c) S M d m) = (n, None)"
    using assms by (auto simp: New_eq split: prod.splits option.splits)
  with T show thesis by (rule that)
qed

lemma New_fields:
  assumes "persisted n" "New c (disk n) m = Inr n'" "cfgStorage c = Some MemStorage"
  shows "persisted n'" "currentTerm n' = currentTerm n" "votedFor n' = votedFor n" "entries n' = entries n"
    "snapshotIndex n' = snapshotIndex n" "snapshotTerm n' = snapshotTerm n" "snapshotData n' = snapshotData n"
    "commitIndex n' = snapshotIndex n" "lastApplied n' = snapshotIndex n" "role n' = Follower"
    "nid n' = ID c" "peers n' = filter (\<lambda>p. p \<noteq> ID c) (Peers c)" "quorum n' = length (Peers c) div 2 + 1"
    "disk n' = disk n" "store_if n' = MemStorage"
proof -
  obtain M where load: "loadFromStorage (new_node (withDefaults c) MemStorage M (disk n) m) = (n', None)"
    using assms(2,3) by (rule New_Inr)
  define n0 where "n0 = new_node (withDefaults c) MemStorage M (disk n) m"
  have snap: "LoadSnapshot MemStorage (disk n) = (\<lparr>snapIndex = snapshotIndex n, snapTerm = snapshotTerm n, snapData = snapshotData n\<rparr>, None)"
    and hs: "LoadHardState MemStorage (disk n) = (\<lparr>hsTerm = currentTerm n, VotedFor = votedFor n\<rparr>, None)"
    using assms(1) by (simp_all add: durable_defs)
  have n0: "store_if n0 = MemStorage" "disk n0 = disk n" by (simp_all add: n0_def new_node_def)
  obtain m' where "(if snapshotData n = NoBytes then (sm n0, None) else sm_Restore (sm_if n0) (sm n0) (snapshotData n)) = (m', None)"
    using load snap hs n0
    by (auto simp: loadFromStorage_def n0_def [symmetric] Let_def split: prod.splits option.splits if_splits)
  from mem_reliable.load_durable [OF _ _ n0 this] assms(1)
  have n': "n' = n0\<lparr>currentTerm := currentTerm n, votedFor := votedFor n, snapshotIndex := snapshotIndex n,
         snapshotTerm := snapshotTerm n, snapshotData := snapshotData n, sm := m', entries := entries n,
         commitIndex := snapshotIndex n, lastApplied := snapshotIndex n\<rparr>"
    using load by (simp add: n0_def)
  then show "currentTerm n' = currentTerm n" "votedFor n' = votedFor n" "entries n' = entries n"
    "snapshotIndex n' = snapshotIndex n" "snapshotTerm n' = snapshotTerm n" "snapshotData n' = snapshotData n"
    "commitIndex n' = snapshotIndex n" "lastApplied n' = snapshotIndex n"
    "disk n' = disk n" "store_if n' = MemStorage"
    using n0 by simp_all
  then show "persisted n'" using assms(1) log_ok_cong [of n' n] by (simp add: durable_defs)
  show "role n' = Follower" "nid n' = ID c" "peers n' = filter (\<lambda>p. p \<noteq> ID c) (Peers c)"
    "quorum n' = length (Peers c) div 2 + 1"
    by (simp_all add: n' n0_def new_node_def)
qed

lemma booted_persisted: "booted c n \<Longrightarrow> persisted n"
proof -
  assume "booted c n"
  then obtain m where c: "cfgStorage c = Some MemStorage" and new: "New c NewMemStore m = Inr n"
    by (auto simp: booted_def)
  obtain M where "loadFromStorage (new_node (withDefaults c) MemStorage M NewMemStore m) = (n, None)"
    using new c by (rule New_Inr)
  then have "n = (new_node (withDefaults c) MemStorage M NewMemStore m)\<lparr>entries := [\<lparr>Term = 0, Index = 0, Cmd = NoBytes\<rparr>]\<rparr>"
    by (simp add: loadFromStorage_def new_node_def mem_defs NewMemStore_def)
  then show "persisted n"
    using mem_valid_New by (simp add: new_node_def durable_defs log_ok_def sentinel_def mem_defs NewMemStore_def two64_def)
qed

lemma life_step_persisted:
  "life_step c n n' \<Longrightarrow> cfgStorage c = Some MemStorage \<Longrightarrow> persisted n \<Longrightarrow> persisted n' \<and> votes_kept n n'"
proof (induction rule: life_step.induct)
  case (step n n')
  then show ?case
    using mem_reliable.node_step_durable core_step_votes node_step_core by blast
next
  case (restart n m n')
  then show ?case using New_fields [OF restart(3,1,2)] by (simp add: votes_kept_def)
qed

lemma life_persisted:
  "(life_step c)\<^sup>*\<^sup>* n n' \<Longrightarrow> cfgStorage c = Some MemStorage \<Longrightarrow> persisted n \<Longrightarrow> persisted n' \<and> votes_kept n n'"
proof (induction rule: rtranclp_induct)
  case (step a b)
  then show ?case using life_step_persisted votes_kept_trans by blast
qed simp

text \<open>
  C9: A server votes at most once per term and its term never goes back, over any sequence of
  handler calls, timeouts, crashes and restarts from the store: once it has voted in a term,
  every later state with that term has the same vote.
\<close>

theorem one_vote_per_term:
  assumes "booted c n0" "(life_step c)\<^sup>*\<^sup>* n0 n" "(life_step c)\<^sup>*\<^sup>* n n'"
  shows "currentTerm n \<le> currentTerm n' \<and>
    (currentTerm n' = currentTerm n \<and> votedFor n \<noteq> '''' \<longrightarrow> votedFor n' = votedFor n)"
proof -
  have c: "cfgStorage c = Some MemStorage" using assms(1) by (simp add: booted_def)
  have "persisted n" using life_persisted [OF assms(2) c booted_persisted [OF assms(1)]] by blast
  then have "votes_kept n n'" using life_persisted [OF assms(3) c] by blast
  then show ?thesis by (simp add: votes_kept_def)
qed

lemma New_recovers:
  assumes p: "persisted n" and c: "cfgStorage c = Some MemStorage" "cfgTransport c = Some T" "cfgStateMachine c = Some M"
    and data: "snapshotData n = NoBytes \<or> snd (sm_Restore M m (snapshotData n)) = None"
  shows "\<exists>n'. New c (disk n) m = Inr n' \<and> currentTerm n' = currentTerm n \<and> votedFor n' = votedFor n \<and>
     entries n' = entries n \<and> snapshotIndex n' = snapshotIndex n \<and> snapshotTerm n' = snapshotTerm n \<and>
     snapshotData n' = snapshotData n \<and> role n' = Follower \<and> commitIndex n' = snapshotIndex n \<and>
     lastApplied n' = snapshotIndex n \<and>
     sm n' = (if snapshotData n = NoBytes then m else fst (sm_Restore M m (snapshotData n)))"
proof -
  define n0' where "n0' = new_node (withDefaults c) MemStorage M (disk n) m"
  define m' where "m' = (if snapshotData n = NoBytes then m else fst (sm_Restore M m (snapshotData n)))"
  have "(if snapshotData n = NoBytes then (sm n0', None) else sm_Restore (sm_if n0') (sm n0') (snapshotData n)) = (m', None)"
    using data by (auto simp: n0'_def new_node_def m'_def prod_eq_iff)
  with p have load: "loadFromStorage n0' = (n0'\<lparr>currentTerm := currentTerm n, votedFor := votedFor n,
         snapshotIndex := snapshotIndex n, snapshotTerm := snapshotTerm n, snapshotData := snapshotData n, sm := m',
         entries := entries n, commitIndex := snapshotIndex n, lastApplied := snapshotIndex n\<rparr>, None)"
    by (intro mem_reliable.load_durable) (simp_all add: n0'_def new_node_def)
  then have new: "New c (disk n) m = Inr (fst (loadFromStorage n0'))"
    by (simp add: New_eq [OF c] n0'_def [symmetric])
  have "role n0' = Follower" by (simp add: n0'_def new_node_def)
  then show ?thesis
    using new by (intro exI [of _ "fst (loadFromStorage n0')"]) (simp add: load m'_def [symmetric])
qed

section \<open>Witnesses\<close>

definition w_vote :: "nodeid \<Rightarrow> RequestVoteRequest" where
  "w_vote cand = \<lparr>rvTerm = 1, CandidateId = cand, LastLogIndex = 0, LastLogTerm = 0, PreVote = False\<rparr>"

definition w_voted :: "(MemStore, State) Node" where
  "w_voted = fst (RequestVote env0 (fresh ''b'') (w_vote ''a''))"

definition w_reborn :: "(MemStore, State) Node" where
  "w_reborn = projr (New (cfg3 ''b'') (disk w_voted) New_jukebox)"

lemma fresh_booted: "booted (cfg3 i) (fresh i)"
proof -
  have "New (cfg3 i) NewMemStore New_jukebox = Inr (fresh i)"
    unfolding fresh_def
    by (simp add: New_def loadFromStorage_def Let_def cfg3_def withDefaults_def Millisecond_def mem_defs NewMemStore_def)
  then show ?thesis by (auto simp: booted_def cfg3_def)
qed

lemma w_voted_fields: "currentTerm w_voted = 1" "votedFor w_voted = ''a''" "snapshotData w_voted = NoBytes"
    "disk w_voted = NewMemStore\<lparr>ms_hs := \<lparr>hsTerm = 1, VotedFor = ''a''\<rparr>\<rparr>"
  by (simp_all add: w_voted_def RequestVote_def w_vote_def fresh_eq blank_def go_defs candidateUpToDate_def
      lastIndex_def lastTerm_def mem_defs Let_def)

lemma w_voted_life: "(life_step (cfg3 ''b''))\<^sup>*\<^sup>* (fresh ''b'') w_voted"
  unfolding w_voted_def by (intro r_into_rtranclp life_step.step node_step.request_vote)

lemma w_reborn_New: "New (cfg3 ''b'') (disk w_voted) New_jukebox = Inr w_reborn"
  unfolding w_reborn_def w_voted_fields(4)
  by (simp add: New_def loadFromStorage_def Let_def cfg3_def withDefaults_def Millisecond_def mem_defs NewMemStore_def)

theorem one_vote_per_term_witness:
  "votedFor w_voted = ''a'' \<and> votedFor (fst (RequestVote env0 w_reborn (w_vote ''c''))) = ''a''"
proof -
  let ?n = "fst (RequestVote env0 w_reborn (w_vote ''c''))"
  have "life_step (cfg3 ''b'') w_voted w_reborn" using w_reborn_New by (rule life_step.restart)
  moreover have "life_step (cfg3 ''b'') w_reborn ?n" by (intro life_step.step node_step.request_vote)
  ultimately have run: "(life_step (cfg3 ''b''))\<^sup>*\<^sup>* w_voted ?n" by (meson converse_rtranclp_into_rtranclp r_into_rtranclp)
  have c: "cfgStorage (cfg3 ''b'') = Some MemStorage" by (simp add: cfg3_def)
  have "persisted w_voted" using life_persisted [OF w_voted_life c booted_persisted [OF fresh_booted]] by blast
  then have "currentTerm w_reborn = 1" using New_fields(2) [OF _ w_reborn_New c] by (simp add: w_voted_fields)
  then have
   "currentTerm ?n = 1" by (simp add: RequestVote_def w_vote_def Let_def go_defs)
  then show ?thesis
    using one_vote_per_term [OF fresh_booted w_voted_life run] by (simp add: w_voted_fields)
qed


text \<open>
  C10: Persistence is complete: whenever the server dies, the node that \<open>New\<close> builds from what
  is in the store has the same term, vote, log and snapshot, and starts as a follower whose
  commit and apply positions are those of the snapshot.  (The premise says that the saved
  snapshot, if there is one, can be restored.)
\<close>

theorem restart_recovers:
  assumes "booted c n0" "(life_step c)\<^sup>*\<^sup>* n0 n" "cfgTransport c = Some T" "cfgStateMachine c = Some M"
    and "snapshotData n = NoBytes \<or> snd (sm_Restore M m (snapshotData n)) = None"
  shows "\<exists>n'. New c (disk n) m = Inr n' \<and> currentTerm n' = currentTerm n \<and> votedFor n' = votedFor n \<and>
     entries n' = entries n \<and> snapshotIndex n' = snapshotIndex n \<and> snapshotTerm n' = snapshotTerm n \<and>
     snapshotData n' = snapshotData n \<and> role n' = Follower \<and> commitIndex n' = snapshotIndex n \<and>
     lastApplied n' = snapshotIndex n \<and>
     sm n' = (if snapshotData n = NoBytes then m else fst (sm_Restore M m (snapshotData n)))"
proof -
  have c: "cfgStorage c = Some MemStorage" using assms(1) by (simp add: booted_def)
  have "persisted n" using life_persisted [OF assms(2) c booted_persisted [OF assms(1)]] by blast
  from New_recovers [OF this c assms(3-5)] show ?thesis .
qed

theorem restart_recovers_witness:
  "\<exists>n'. New (cfg3 ''b'') (disk w_voted) New_jukebox = Inr n' \<and> currentTerm n' = 1 \<and> votedFor n' = ''a''"
proof -
  have "cfgTransport (cfg3 ''b'') = Some ''b''" "cfgStateMachine (cfg3 ''b'') = Some Jukebox_SM"
    by (simp_all add: cfg3_def)
  then show ?thesis
    using restart_recovers [OF fresh_booted w_voted_life, of "''b''" Jukebox_SM New_jukebox] w_voted_fields by auto
qed

end
