(* ===== verification/Waiters.thy ===== *)
theory Waiters
  imports NodeSteps
begin

text \<open>
  The callers that wait for the apply loop: every waiter has a result channel of its own, so no
  step of the server can block on a channel while it holds the mutex.
\<close>

section \<open>Waiters\<close>

text \<open>Every waiter has a channel of its own, and nothing has been sent on it yet.\<close>

definition pend_ok :: "('s, 'm) Node \<Rightarrow> bool" where
  "pend_ok n \<longleftrightarrow>
     (\<forall>i w. fmlookup (pending n) i = Some w \<longrightarrow> chans n (w_ch w) = None \<and> w_ch w < nextChan n) \<and>
     (\<forall>i j w v. fmlookup (pending n) i = Some w \<and> fmlookup (pending n) j = Some v \<and> w_ch w = w_ch v \<longrightarrow> i = j)"

definition wait_ok :: "('s, 'm) Node \<Rightarrow> bool" where
  "wait_ok n \<longleftrightarrow> pend_ok n \<and> fault n \<noteq> Some Deadlock"

text \<open>The steps that answer nobody, or only callers that wait.\<close>

definition unawaited :: "('s, 'm) Node \<Rightarrow> nat \<Rightarrow> bool" where
  "unawaited n c \<longleftrightarrow> (\<forall>i w. fmlookup (pending n) i = Some w \<longrightarrow> w_ch w \<noteq> c)"

definition quiet :: "('s, 'm) Node \<Rightarrow> ('s, 'm) Node \<Rightarrow> bool" where
  "quiet n n' \<longleftrightarrow> (pending n' = pending n \<and> chans n' = chans n \<or>
       pending n' = fmempty \<and> (\<forall>c. unawaited n c \<longrightarrow> chans n' c = chans n c)) \<and>
     nextChan n' = nextChan n \<and> (fault n' = fault n \<or> fault n' = Some Panic)"

lemma quiet_refl [simp]: "quiet n n"
  by (simp add: quiet_def)

lemma quiet_trans: "quiet a b \<Longrightarrow> quiet b c \<Longrightarrow> quiet a c"
  by (auto simp: quiet_def unawaited_def)

lemma quiet_wait_ok: "quiet n n' \<Longrightarrow> wait_ok n \<Longrightarrow> wait_ok n'"
  by (auto simp: quiet_def wait_ok_def pend_ok_def)

lemma fold_try_send_other:
  "unawaited n c \<Longrightarrow> chans (fold (drop_pending chan_try_send e) ks n) c = chans n c"
proof (induction ks arbitrary: n)
  case (Cons k ks)
  have "unawaited (drop_pending chan_try_send e k n) c" "chans (drop_pending chan_try_send e k n) c = chans n c"
    using Cons.prems by (auto simp: drop_pending_def chan_try_send_def unawaited_def Let_def split: option.split)
  then show ?case by (simp add: Cons.IH)
qed simp

lemma fail_chans_other [simp]: "unawaited n c \<Longrightarrow> fail_chans e n c = chans n c"
  by (simp add: fail_chans_def failPending_def fold_try_send_other)

lemma quiet_stepDown: "quiet n (stepDown t n)"
  by (simp add: quiet_def stepDown_conv)

lemma quiet_reset: "quiet n (resetElectionDeadline e n)"
  by (simp add: quiet_def resetElectionDeadline_conv)

lemma quiet_heard: "quiet n (heard e n t l)"
  by (simp add: quiet_def heard_def go_defs)

lemma quiet_RequestVote: "quiet n (fst (RequestVote e n rv))"
  by (simp add: quiet_def RequestVote_def go_defs Let_def)

lemma quiet_AppendEntries: "log_ok n \<Longrightarrow> req_ok ae \<Longrightarrow> quiet n (fst (AppendEntries e n ae))"
proof (cases "accepts n ae")
  case True
  assume "log_ok n" "req_ok ae"
  then show ?thesis
    using quiet_heard [of n e "aeTerm ae" "aeLeaderId ae"]
    by (simp add: AppendEntries_accept [OF _ _ True refl] quiet_def commitTo_conv)
qed (simp add: AppendEntries_reject quiet_heard)

lemma quiet_adopt: "quiet n (adoptSnapshot n is)"
  by (simp add: adoptSnapshot_def quiet_def Let_def go_defs case_prod_beta)

lemma quiet_InstallSnapshot: "quiet n (fst (InstallSnapshot e n is))"
proof -
  let ?h = "heard e n (isTerm is) (isLeaderId is)"
  have "quiet n (?h\<lparr>sm := m\<rparr>)" for m using quiet_heard [of n e "isTerm is" "isLeaderId is"] by (simp add: quiet_def)
  then show ?thesis
    using quiet_heard
    by (auto simp: InstallSnapshot_conv Let_def intro!: quiet_trans [OF _ quiet_adopt] split: prod.split option.split)
qed

lemma quiet_advance: "quiet n (advanceCommitLocked n)"
  by (simp add: advanceCommit_conv quiet_def)

lemma quiet_append_reply: "quiet n (sendAppendEntries_reply n p ae aer)"
  by (simp add: sendAppendEntries_reply_def quiet_def go_defs Let_def)

lemma quiet_snapshot_reply: "quiet n (sendSnapshot_reply n p is isr)"
  by (simp add: sendSnapshot_reply_def quiet_stepDown) (simp add: quiet_def)

lemma quiet_becomeLeader: "quiet n (becomeLeaderLocked n)"
  by (simp add: becomeLeaderLocked_def appendOwn_conv quiet_def go_defs Let_def)

lemma quiet_electing: "quiet n (electing e n)" "quiet n (canvassing e n)"
  by (simp_all add: electing_def canvassing_def quiet_def go_defs)

lemma quiet_goroutines: "quiet n (n\<lparr>goroutines := g\<rparr>)"
  by (simp add: quiet_def)

lemma quiet_startReal: "quiet n (startRealElectionLocked e n li lt)"
  by (simp add: startRealElection_conv quiet_trans [OF quiet_electing(1) quiet_becomeLeader]
      quiet_trans [OF quiet_electing(1) quiet_goroutines])

lemma quiet_tick: "quiet n (electionTick e n)"
  by (simp add: electionTick_def beginCampaign_conv quiet_trans [OF quiet_electing(2) quiet_startReal]
      quiet_trans [OF quiet_electing(2) quiet_goroutines])

lemma quiet_vote_reply: "quiet n (fst (gatherVotes_reply n r t pv resp))"
  by (simp add: gatherVotes_reply_def Let_def quiet_stepDown quiet_becomeLeader)

lemma quiet_Propose: "quiet n (fst (Propose n c))"
  by (simp add: Propose_def case_prod_beta appendOwn_conv go_defs quiet_def)

lemma quiet_maybeSnapshot: "quiet n (maybeSnapshotLocked n)"
  by (simp add: maybeSnapshotLocked_def Let_def go_defs quiet_def split: option.split prod.split)

lemma wait_ok_Submit:
  assumes "wait_ok n"
  shows "wait_ok (fst (Submit n c))"
  using assms
  by (auto simp: Submit_def appendOwn_conv go_defs Let_def wait_ok_def pend_ok_def split: if_splits)
    (metis less_irrefl less_SucI)+

lemma wait_ok_wake:
  assumes "wait_ok n" "Submit_wake n i c wk = Some (n', r)"
  shows "wait_ok n'"
  using assms
  by (auto simp: Submit_wake_def wait_ok_def pend_ok_def split: submitWake.splits option.splits if_splits)

text \<open>Sending to a waiter's channel and forgetting the waiter.\<close>

lemma pending_chan_send [simp]: "pending (chan_send n c v) = pending n"
  by (simp add: chan_send_def split: option.split)

lemma wait_ok_send:
  assumes "wait_ok n" "fmlookup (pending n) i = Some w"
  shows "wait_ok ((chan_send n (w_ch w) v)\<lparr>pending := fmdrop i (pending n)\<rparr>)"
    "chan_send n (w_ch w) v = n\<lparr>chans := (chans n)(w_ch w \<mapsto> v)\<rparr>"
proof -
  show s: "chan_send n (w_ch w) v = n\<lparr>chans := (chans n)(w_ch w \<mapsto> v)\<rparr>"
    using assms by (simp add: chan_send_def wait_ok_def pend_ok_def)
  show "wait_ok ((chan_send n (w_ch w) v)\<lparr>pending := fmdrop i (pending n)\<rparr>)"
    unfolding s using assms unfolding wait_ok_def pend_ok_def by auto
qed

lemma wait_ok_deliver: "wait_ok n \<Longrightarrow> wait_ok (deliver n i e r)"
  by (simp add: deliver_def Let_def wait_ok_send(1) split: option.split)

lemma wait_ok_drop: "wait_ok n \<Longrightarrow> wait_ok (drop_pending chan_send err i n)"
  by (simp add: drop_pending_def Let_def wait_ok_send(1) split: option.split)

lemma wait_ok_fold: "wait_ok n \<Longrightarrow> wait_ok (fold (drop_pending chan_send err) ks n)"
  by (induction ks arbitrary: n) (auto intro: wait_ok_drop)

lemma wait_ok_applyOne: "wait_ok n \<Longrightarrow> wait_ok (applyOne n)"
  by (auto simp: applyOne_def Let_def case_prod_beta intro!: wait_ok_deliver split: option.split)
    (auto simp: wait_ok_def pend_ok_def)

lemma wait_ok_applyAll: "wait_ok n \<Longrightarrow> wait_ok (applyAll n)"
proof (induction n rule: applyAll.induct)
  case (1 n)
  then show ?case by (subst applyAll.simps) (auto intro: wait_ok_applyOne)
qed

lemma wait_ok_Stop: "wait_ok n \<Longrightarrow> wait_ok (Stop n)"
proof -
  assume w: "wait_ok n"
  define n1 where "n1 = cancelLeaderCtx (if stopped n then n\<lparr>running := False, fault := Some Panic\<rparr>
     else n\<lparr>running := False, stopped := True\<rparr>)"
  have "quiet n n1" by (simp add: n1_def cancelLeaderCtx_conv quiet_def)
  from quiet_wait_ok [OF this w]
  have "wait_ok (fold (drop_pending chan_send ErrStopped) (keys_sorted (pending n1)) n1)"
    by (rule wait_ok_fold)
  then show ?thesis using w by (simp add: Stop_def Let_def n1_def split: if_splits)
qed

lemma wait_ok_node_step: "node_step n n' \<Longrightarrow> log_ok n \<Longrightarrow> wait_ok n \<Longrightarrow> wait_ok n'"
proof (induction rule: node_step.induct)
  case (campaign n e b li lt w)
  then show ?case by (simp add: campaign_finish_def quiet_wait_ok [OF quiet_startReal])
next
  case (confirm_reply n t aer)
  then show ?case by (simp add: confirmLeadership_reply_def quiet_wait_ok [OF quiet_stepDown])
next
  case (apply_ready n)
  then show ?case by (simp add: applyReady_def Let_def quiet_wait_ok [OF quiet_maybeSnapshot] wait_ok_applyAll)
next
  case (start n e)
  have "quiet n (Start e n)" by (simp add: Start_def Let_def quiet_def go_defs)
  then show ?case using start quiet_wait_ok by blast
next
  case (take_signal n)
  have "quiet n (n\<lparr>applyCh := False\<rparr>)" by (simp add: quiet_def)
  then show ?case using take_signal quiet_wait_ok by blast
next
  case (take_task n g)
  then show ?case by (simp add: quiet_wait_ok [OF quiet_goroutines])
qed (simp_all add: quiet_wait_ok [OF quiet_tick] quiet_wait_ok [OF quiet_RequestVote] quiet_wait_ok [OF quiet_vote_reply]
    quiet_wait_ok [OF quiet_AppendEntries] quiet_wait_ok [OF quiet_append_reply] quiet_wait_ok [OF quiet_InstallSnapshot]
    quiet_wait_ok [OF quiet_snapshot_reply] quiet_wait_ok [OF quiet_Propose] wait_ok_Submit wait_ok_wake wait_ok_Stop)

text \<open>
  C14: No step of a server blocks for ever while it holds the mutex: over any sequence of steps
  from a freshly built node, every send on a result channel finds the channel empty (each
  waiter has a channel of its own and is forgotten once it was answered).
\<close>

theorem no_deadlock:
  assumes "New c NewMemStore m = Inr n0" "cfgStorage c = Some MemStorage" "node_step\<^sup>*\<^sup>* n0 n"
  shows "fault n \<noteq> Some Deadlock"
proof -
  have "persisted n0" using assms(1,2) by (intro booted_persisted [of c]) (auto simp: booted_def)
  obtain M where "loadFromStorage (new_node (withDefaults c) MemStorage M NewMemStore m) = (n0, None)"
    using assms(1,2) by (rule New_Inr)
  then have "wait_ok n0"
    by (auto simp: loadFromStorage_def new_node_def wait_ok_def pend_ok_def mem_defs NewMemStore_def)
  with \<open>persisted n0\<close> have "wait_ok n \<and> log_ok n"
    using assms(3) by (induction rule: rtranclp_induct [OF assms(3)]) (auto intro: wait_ok_node_step node_step_log_ok)
  then show ?thesis by (simp add: wait_ok_def)
qed

theorem no_deadlock_witness:
  "New (cfg3 ''a'') NewMemStore New_jukebox = Inr (fresh ''a'') \<and>
   node_step\<^sup>*\<^sup>* (fresh ''a'') (Stop (electionTick env0 (fresh ''a''))) \<and>
   fault (Stop (electionTick env0 (fresh ''a''))) \<noteq> Some Deadlock"
proof -
  have new: "New (cfg3 ''a'') NewMemStore New_jukebox = Inr (fresh ''a'')"
    by (simp add: fresh_def New_def loadFromStorage_def Let_def cfg3_def withDefaults_def mem_defs NewMemStore_def)
  have "room (fresh ''a'')" "term_room (fresh ''a'')"
    by (simp_all add: fresh_eq blank_def room_def term_room_def two64_def lastIndex_def)
  then have "node_step (fresh ''a'') (electionTick env0 (fresh ''a''))" by (rule node_step.tick)
  then have "node_step\<^sup>*\<^sup>* (fresh ''a'') (Stop (electionTick env0 (fresh ''a'')))"
    using node_step.stop by (meson converse_rtranclp_into_rtranclp r_into_rtranclp)
  with new show ?thesis using no_deadlock [OF new] by (simp add: cfg3_def)
qed

end
