(* ===== verification/RaftSpec.thy ===== *)
theory RaftSpec
  imports RaftPb
begin

text \<open>
  The log protocol of Raft as an abstract state machine: what the servers promise each other
  about their logs, without messages, timers, snapshots or storage.  Every term has at most one
  leader, whose log (\<open>sLead\<close>) only grows; a server acknowledges a prefix of it, votes for a
  candidate whose claim is at least as recent as its own log, and lets a leader overwrite what
  conflicts.  An entry is chosen when a quorum acknowledged it in its own term.  The invariant
  shows that a chosen entry is in the log of every later leader, so that committed prefixes
  agree.  Quorums are the parameter \<open>Q\<close>; all that matters is that two of them meet.
\<close>

section \<open>Logs\<close>

text \<open>\<open>has X i t\<close>: the log \<open>X\<close> has an entry of term \<open>t\<close> at index \<open>i\<close> (the first index is 1).\<close>

definition has :: "LogEntry list \<Rightarrow> nat \<Rightarrow> nat \<Rightarrow> bool" where
  "has X i t \<longleftrightarrow> 1 \<le> i \<and> i \<le> length X \<and> Term (X ! (i - 1)) = t"

definition lastT :: "LogEntry list \<Rightarrow> nat" where
  "lastT X = (if X = [] then 0 else Term (last X))"

text \<open>A log agrees with the leaders' logs: up to an entry of term \<open>t\<close> it is the log of the leader of \<open>t\<close>.\<close>

definition coh :: "(nat \<Rightarrow> LogEntry list) \<Rightarrow> LogEntry list \<Rightarrow> bool" where
  "coh L X \<longleftrightarrow> (\<forall>i<length X. take (Suc i) X = take (Suc i) (L (Term (X ! i))))"

text \<open>A leader between the terms \<open>t\<close> and \<open>T\<close> did not have the entry.\<close>

definition lost :: "(nat \<Rightarrow> LogEntry list) \<Rightarrow> nat \<Rightarrow> nat \<Rightarrow> nat \<Rightarrow> bool" where
  "lost L i t T \<longleftrightarrow> (\<exists>U. t < U \<and> U < T \<and> L U \<noteq> [] \<and> \<not> has (L U) i t)"

definition keeps :: "(nat \<Rightarrow> LogEntry list) \<Rightarrow> LogEntry list \<Rightarrow> nat \<Rightarrow> nat \<Rightarrow> nat \<Rightarrow> bool" where
  "keeps L X i t T \<longleftrightarrow> has X i t \<or> lost L i t T"

text \<open>The order in which logs are compared, last term first.\<close>

definition recent :: "nat \<Rightarrow> nat \<Rightarrow> nat \<Rightarrow> nat \<Rightarrow> bool" where
  "recent i t li lt \<longleftrightarrow> t < lt \<or> t = lt \<and> i \<le> li"

section \<open>The protocol\<close>

record spec =
  sTerm :: "nodeid \<Rightarrow> nat"
  sLog :: "nodeid \<Rightarrow> LogEntry list"
  sLead :: "nat \<Rightarrow> LogEntry list"
  sBoss :: "nat \<Rightarrow> nodeid"
  sAck :: "(nodeid \<times> nat \<times> nat) set"
  sClaim :: "(nodeid \<times> nat \<times> nat \<times> nat) set"
  sVote :: "(nodeid \<times> nodeid \<times> nat \<times> nat \<times> nat) set"
  sCommit :: "nodeid \<Rightarrow> nat"

definition own :: "spec \<Rightarrow> nat \<Rightarrow> nat \<Rightarrow> bool" where
  "own a i t \<longleftrightarrow> has (sLead a t) i t"

definition chosen :: "(nodeid set \<Rightarrow> bool) \<Rightarrow> spec \<Rightarrow> nat \<Rightarrow> nat \<Rightarrow> bool" where
  "chosen Q a i t \<longleftrightarrow> own a i t \<and> (\<exists>A. Q A \<and> (\<forall>q\<in>A. \<exists>j\<ge>i. (q, t, j) \<in> sAck a))"

text \<open>What a follower may make of its log when it hears from the leader of term \<open>T\<close>.\<close>

definition overwrite :: "LogEntry list \<Rightarrow> LogEntry list \<Rightarrow> LogEntry list \<Rightarrow> bool" where
  "overwrite LT X X' \<longleftrightarrow> X' = X \<or> (\<exists>k\<le>length LT. X' = take k LT \<and> (\<forall>j t. k < j \<and> has X j t \<longrightarrow> \<not> has LT j t))"

inductive spec_step :: "(nodeid set \<Rightarrow> bool) \<Rightarrow> spec \<Rightarrow> spec \<Rightarrow> bool" for Q where
  advance: "sTerm a p \<le> t \<Longrightarrow> spec_step Q a (a\<lparr>sTerm := (sTerm a)(p := t)\<rparr>)"
| claim: "sTerm a p < T \<Longrightarrow>
    spec_step Q a (a\<lparr>sClaim := insert (p, T, length (sLog a p), lastT (sLog a p)) (sClaim a)\<rparr>)"
| vote: "(c, T, li, lt) \<in> sClaim a \<Longrightarrow> sTerm a q \<le> T \<Longrightarrow> recent (length (sLog a q)) (lastT (sLog a q)) li lt \<Longrightarrow>
    spec_step Q a (a\<lparr>sTerm := (sTerm a)(q := T), sVote := insert (q, c, T, li, lt) (sVote a)\<rparr>)"
| crown: "(c, T, li, lt) \<in> sClaim a \<Longrightarrow> sTerm a c = T \<Longrightarrow> sLead a T = [] \<Longrightarrow> Q A \<Longrightarrow>
    \<forall>q\<in>A. q = c \<or> (q, c, T, li, lt) \<in> sVote a \<Longrightarrow> Term e = T \<Longrightarrow> X = sLog a c @ [e] \<Longrightarrow>
    spec_step Q a (a\<lparr>sLog := (sLog a)(c := X), sLead := (sLead a)(T := X), sBoss := (sBoss a)(T := c),
       sAck := insert (c, T, length X) (sAck a)\<rparr>)"
| extend: "sLead a T \<noteq> [] \<Longrightarrow> sBoss a T = c \<Longrightarrow> sTerm a c = T \<Longrightarrow> Term e = T \<Longrightarrow> X = sLog a c @ [e] \<Longrightarrow>
    spec_step Q a (a\<lparr>sLog := (sLog a)(c := X), sLead := (sLead a)(T := X), sAck := insert (c, T, length X) (sAck a)\<rparr>)"
| accept: "sLead a T \<noteq> [] \<Longrightarrow> sBoss a T \<noteq> q \<Longrightarrow> sTerm a q \<le> T \<Longrightarrow> overwrite (sLead a T) (sLog a q) X \<Longrightarrow>
    i \<le> length X \<Longrightarrow> i \<le> length (sLead a T) \<Longrightarrow> take i X = take i (sLead a T) \<Longrightarrow>
    spec_step Q a (a\<lparr>sTerm := (sTerm a)(q := T), sLog := (sLog a)(q := X), sAck := insert (q, T, i) (sAck a)\<rparr>)"
| commit: "chosen Q a i t \<Longrightarrow> t \<le> sTerm a p \<Longrightarrow> c \<le> i \<Longrightarrow> c \<le> length (sLog a p) \<Longrightarrow>
    take c (sLog a p) = take c (sLead a t) \<Longrightarrow> spec_step Q a (a\<lparr>sCommit := (sCommit a)(p := c)\<rparr>)"
| forget: "c \<le> sCommit a p \<Longrightarrow> spec_step Q a (a\<lparr>sCommit := (sCommit a)(p := c)\<rparr>)"

definition spec_init :: "spec \<Rightarrow> bool" where
  "spec_init a \<longleftrightarrow> (\<forall>p. sLog a p = []) \<and> (\<forall>T. sLead a T = []) \<and> sAck a = {} \<and> sClaim a = {} \<and> sVote a = {} \<and> (\<forall>p. sCommit a p = 0)"

section \<open>Facts on logs\<close>

lemma has_nth: "i < length X \<Longrightarrow> has X (Suc i) (Term (X ! i))"
  by (simp add: has_def)

lemma has_Nil [simp]: "\<not> has [] i t"
  by (auto simp: has_def)

lemma has_append: "has X i t \<Longrightarrow> has (X @ Y) i t"
  by (auto simp: has_def nth_append)

lemma has_snoc: "has (X @ [e]) i t \<longleftrightarrow> has X i t \<or> i = Suc (length X) \<and> Term e = t"
  by (auto simp: has_def nth_append)

lemma has_take: "has (take k X) i t \<longleftrightarrow> has X i t \<and> i \<le> k"
  by (auto simp: has_def)

lemma has_prefix: "take k X = take k Y \<Longrightarrow> i \<le> k \<Longrightarrow> has X i t \<longleftrightarrow> has Y i t"
  using has_take [of k X i t] has_take [of k Y i t] by simp

lemma cohD: "coh L X \<Longrightarrow> has X i t \<Longrightarrow> take i X = take i (L t) \<and> i \<le> length (L t)"
proof -
  assume c: "coh L X" and h: "has X i t"
  then have eq: "take i X = take i (L t)" by (cases i) (auto simp: coh_def has_def)
  have "min (length X) i = min (length (L t)) i" using arg_cong [OF eq, of length] by simp
  then show ?thesis using eq h by (auto simp: has_def min_def split: if_splits)
qed

lemma coh_has: "coh L X \<Longrightarrow> has X i t \<Longrightarrow> has (L t) i t"
  using cohD [of L X i t] has_prefix [of i X "L t" i t] by simp

lemma coh_take: "coh L X \<Longrightarrow> coh L (take k X)"
  by (auto simp: coh_def min_def)

lemma coh_agree:
  assumes "coh L X" "coh L Y" "has X i t" "has Y i t" "j \<le> i"
  shows "take j X = take j Y" "has X j u \<longleftrightarrow> has Y j u"
proof -
  have "take i X = take i Y" using cohD assms(1-4) by metis
  then show "take j X = take j Y" using assms(5) by (metis min.absorb1 take_take)
  then show "has X j u \<longleftrightarrow> has Y j u" by (rule has_prefix) simp
qed

lemma lost_mono: "lost L i t T \<Longrightarrow> T \<le> T' \<Longrightarrow> lost L i t T'"
  by (auto simp: lost_def)

lemma keeps_mono: "keeps L X i t T \<Longrightarrow> T \<le> T' \<Longrightarrow> keeps L X i t T'"
  by (auto simp: keeps_def lost_mono)

lemma lost_less: "lost L i t (Suc T) \<Longrightarrow> L T = [] \<Longrightarrow> lost L i t T"
  by (auto simp: lost_def) (metis less_SucE)

lemma sorted_has:
  assumes "sorted (map Term X)" "has X i t" "has X j u" "i \<le> j"
  shows "t \<le> u"
proof -
  have "map Term X ! (i - 1) \<le> map Term X ! (j - 1)"
    using assms by (intro sorted_nth_mono) (auto simp: has_def)
  then show ?thesis using assms(2,3) by (auto simp: has_def)
qed

lemma has_last: "X \<noteq> [] \<Longrightarrow> has X (length X) (lastT X)"
  by (auto simp: has_def lastT_def last_conv_nth Suc_le_eq)

section \<open>The invariant\<close>

definition inv_lead :: "spec \<Rightarrow> bool" where
  "inv_lead a \<longleftrightarrow> sLead a 0 = [] \<and> (\<forall>T. coh (sLead a) (sLead a T) \<and> sorted (map Term (sLead a T)) \<and> (\<forall>e\<in>set (sLead a T). Term e \<le> T))"

definition inv_log :: "spec \<Rightarrow> bool" where
  "inv_log a \<longleftrightarrow> (\<forall>p. coh (sLead a) (sLog a p) \<and> (\<forall>e\<in>set (sLog a p). Term e \<le> sTerm a p))"

definition inv_boss :: "spec \<Rightarrow> bool" where
  "inv_boss a \<longleftrightarrow> (\<forall>T. sLead a T \<noteq> [] \<longrightarrow> T \<le> sTerm a (sBoss a T) \<and> (sTerm a (sBoss a T) = T \<longrightarrow> sLog a (sBoss a T) = sLead a T))"

definition inv_ack :: "spec \<Rightarrow> bool" where
  "inv_ack a \<longleftrightarrow> (\<forall>q t j. (q, t, j) \<in> sAck a \<longrightarrow> j \<le> length (sLead a t) \<and> t \<le> sTerm a q \<and>
     (\<forall>i\<le>j. own a i t \<longrightarrow> keeps (sLead a) (sLog a q) i t (Suc (sTerm a q))))"

definition inv_claim :: "spec \<Rightarrow> bool" where
  "inv_claim a \<longleftrightarrow> (\<forall>c T li lt. (c, T, li, lt) \<in> sClaim a \<longrightarrow> lt < T \<and> (li = 0 \<and> lt = 0 \<or> own a li lt) \<and>
     (sTerm a c < T \<or> sTerm a c = T \<and> sLead a T = [] \<longrightarrow>
        (\<forall>i t. own a i t \<and> recent i t li lt \<longrightarrow> keeps (sLead a) (sLog a c) i t T)))"

definition inv_vote :: "spec \<Rightarrow> bool" where
  "inv_vote a \<longleftrightarrow> (\<forall>q c T li lt. (q, c, T, li, lt) \<in> sVote a \<longrightarrow> (c, T, li, lt) \<in> sClaim a \<and> T \<le> sTerm a q \<and>
     (sLead a T = [] \<longrightarrow> (\<forall>t j i. (q, t, j) \<in> sAck a \<and> t < T \<and> i \<le> j \<and> own a i t \<longrightarrow> recent i t li lt \<or> lost (sLead a) i t T)))"

definition inv_crown :: "(nodeid set \<Rightarrow> bool) \<Rightarrow> spec \<Rightarrow> bool" where
  "inv_crown Q a \<longleftrightarrow> (\<forall>T. sLead a T \<noteq> [] \<longrightarrow> (\<exists>A. Q A \<and> (\<forall>q\<in>A. T \<le> sTerm a q \<and>
     (\<forall>t j i. (q, t, j) \<in> sAck a \<and> t < T \<and> i \<le> j \<and> own a i t \<longrightarrow> keeps (sLead a) (sLead a T) i t T))))"

definition agreed :: "(nodeid set \<Rightarrow> bool) \<Rightarrow> spec \<Rightarrow> nat \<Rightarrow> LogEntry list \<Rightarrow> nat \<Rightarrow> bool" where
  "agreed Q a c X T \<longleftrightarrow> c \<le> length X \<and> (c = 0 \<or> (\<exists>i t. chosen Q a i t \<and> t \<le> T \<and> c \<le> i \<and> take c X = take c (sLead a t)))"

definition inv_commit :: "(nodeid set \<Rightarrow> bool) \<Rightarrow> spec \<Rightarrow> bool" where
  "inv_commit Q a \<longleftrightarrow> (\<forall>p. agreed Q a (sCommit a p) (sLog a p) (sTerm a p))"

definition spec_inv :: "(nodeid set \<Rightarrow> bool) \<Rightarrow> spec \<Rightarrow> bool" where
  "spec_inv Q a \<longleftrightarrow> inv_lead a \<and> inv_log a \<and> inv_boss a \<and> inv_ack a \<and> inv_claim a \<and> inv_vote a \<and> inv_crown Q a \<and> inv_commit Q a"

lemma agreed_less:
  assumes "agreed Q a k X T" "c \<le> k"
  shows "agreed Q a c X T"
proof (cases "k = 0")
  case False
  then obtain i t where "chosen Q a i t" "t \<le> T" "k \<le> i" "take k X = take k (sLead a t)" "k \<le> length X"
    using assms(1) by (auto simp: agreed_def)
  moreover from this have "take c X = take c (sLead a t)" using assms(2) by (metis min.absorb1 take_take)
  ultimately show ?thesis using assms(2) unfolding agreed_def by (meson order_trans)
qed (use assms in \<open>simp add: agreed_def\<close>)

lemma own_pos: "inv_lead a \<Longrightarrow> own a i t \<Longrightarrow> 0 < t"
  by (cases t) (auto simp: inv_lead_def own_def has_def)

lemma lead_coh: "inv_lead a \<Longrightarrow> coh (sLead a) (sLead a T)"
  by (simp add: inv_lead_def)

lemma log_coh: "inv_log a \<Longrightarrow> coh (sLead a) (sLog a p)"
  by (simp add: inv_log_def)

lemma log_term: "inv_log a \<Longrightarrow> has (sLog a p) i t \<Longrightarrow> t \<le> sTerm a p"
  by (auto simp: inv_log_def has_def)

lemma lead_term: "inv_lead a \<Longrightarrow> has (sLead a T) i t \<Longrightarrow> t \<le> T"
  by (auto simp: inv_lead_def has_def)

text \<open>A log with its last entry of term \<open>t\<close> is a prefix of the log of that term's leader.\<close>

lemma coh_last: "coh L X \<Longrightarrow> X \<noteq> [] \<Longrightarrow> X = take (length X) (L (lastT X)) \<and> length X \<le> length (L (lastT X))"
  using cohD [OF _ has_last] by fastforce

lemma coh_sorted: "inv_lead a \<Longrightarrow> coh (sLead a) X \<Longrightarrow> sorted (map Term X)"
proof (cases "X = []")
  case False
  assume "inv_lead a" "coh (sLead a) X"
  then have "sorted (map Term (take (length X) (sLead a (lastT X))))"
    by (simp add: inv_lead_def take_map [symmetric])
  then show ?thesis using coh_last [OF \<open>coh (sLead a) X\<close> False] by metis
qed simp

text \<open>An entry of a log is at or below its last one.\<close>

lemma has_recent: "inv_lead a \<Longrightarrow> coh (sLead a) X \<Longrightarrow> has X i t \<Longrightarrow> recent i t (length X) (lastT X)"
proof -
  assume a: "inv_lead a" "coh (sLead a) X" "has X i t"
  then have "X \<noteq> []" "i \<le> length X" by (auto simp: has_def)
  then have "t \<le> lastT X" using sorted_has [OF coh_sorted [OF a(1,2)] a(3) has_last] by simp
  then show ?thesis using \<open>i \<le> length X\<close> by (auto simp: recent_def)
qed

text \<open>Conversely an entry of a leader that is at or below the last one of a log is in it, or was lost.\<close>

lemma recent_keeps:
  assumes "inv_lead a" "coh (sLead a) X" "own a i t" "recent i t (length X) (lastT X)" "lastT X < T"
  shows "keeps (sLead a) X i t T"
proof -
  have "0 < t" using own_pos assms(1,3) .
  then have ne: "X \<noteq> []" using assms(4) by (auto simp: recent_def lastT_def)
  note pre = coh_last [OF assms(2) ne]
  consider "t < lastT X" "has (sLead a (lastT X)) i t" | "t < lastT X" "\<not> has (sLead a (lastT X)) i t" | "t = lastT X" "i \<le> length X"
    using assms(4) by (auto simp: recent_def)
  then show ?thesis
  proof cases
    case 1
    have h: "has (sLead a (lastT X)) (length X) (lastT X)" using coh_has [OF assms(2) has_last [OF ne]] .
    have "i < length X"
    proof (rule ccontr)
      assume "\<not> i < length X"
      then have "lastT X \<le> t" using sorted_has [of "sLead a (lastT X)" "length X" "lastT X" i t] h 1(2) assms(1)
        by (simp add: inv_lead_def)
      then show False using 1(1) by simp
    qed
    then show ?thesis using pre 1(2) has_take [of "length X" "sLead a (lastT X)" i t] by (simp add: keeps_def)
  next
    case 2
    have "sLead a (lastT X) \<noteq> []" using pre ne by auto
    then show ?thesis using 2 assms(5) by (auto simp: keeps_def lost_def)
  next
    case 3
    then show ?thesis using pre assms(3) has_take [of "length X" "sLead a (lastT X)" i t] by (simp add: keeps_def own_def)
  qed
qed

section \<open>Chosen entries are in every later leader's log\<close>

locale quorums =
  fixes Q :: "nodeid set \<Rightarrow> bool"
  assumes meet: "Q A \<Longrightarrow> Q B \<Longrightarrow> A \<inter> B \<noteq> {}"
begin

lemma completeness:
  assumes "inv_crown Q a" "chosen Q a i t" "t < T" "sLead a T \<noteq> []"
  shows "has (sLead a T) i t"
  using assms(3,4)
proof (induction T rule: less_induct)
  case (less T)
  obtain A where A: "Q A" "\<forall>q\<in>A. \<exists>j\<ge>i. (q, t, j) \<in> sAck a" and o: "own a i t"
    using assms(2) by (auto simp: chosen_def)
  obtain B where B: "Q B" "\<forall>q\<in>B. \<forall>t j i. (q, t, j) \<in> sAck a \<and> t < T \<and> i \<le> j \<and> own a i t \<longrightarrow> keeps (sLead a) (sLead a T) i t T"
    using assms(1) less.prems(2) unfolding inv_crown_def by meson
  obtain q where "q \<in> A" "q \<in> B" using meet [OF A(1) B(1)] by blast
  then have "keeps (sLead a) (sLead a T) i t T" using A(2) B(2) o less.prems(1) by blast
  then show ?case using less.IH less.prems(1) by (auto simp: keeps_def lost_def)
qed

text \<open>The log of a leader agrees with every chosen entry of its term or before.\<close>

lemma chosen_in_lead:
  assumes "spec_inv Q a" "chosen Q a i t" "t \<le> T" "sLead a T \<noteq> []"
  shows "has (sLead a T) i t" "c \<le> i \<Longrightarrow> take c (sLead a T) = take c (sLead a t)"
proof -
  have o: "has (sLead a t) i t" using assms(2) by (simp add: chosen_def own_def)
  then show h: "has (sLead a T) i t"
    using completeness [of a i t T] assms by (cases "t = T") (auto simp: spec_inv_def)
  show "take c (sLead a T) = take c (sLead a t)" if "c \<le> i"
    using coh_agree(1) [OF lead_coh lead_coh h o that] assms(1) by (simp add: spec_inv_def)
qed

lemma agreed_in_lead:
  assumes "spec_inv Q a" "agreed Q a c X T" "T \<le> T'" "sLead a T' \<noteq> []"
  shows "take c X = take c (sLead a T')" "c \<le> length (sLead a T')"
proof -
  have "take c X = take c (sLead a T') \<and> c \<le> length (sLead a T')"
  proof (cases "c = 0")
    case False
    then obtain i t where c: "chosen Q a i t" "t \<le> T" "c \<le> i" "take c X = take c (sLead a t)"
      using assms(2) by (auto simp: agreed_def)
    have "t \<le> T'" using c(2) assms(3) by simp
    note l = chosen_in_lead [OF assms(1) c(1) this assms(4)]
    have "i \<le> length (sLead a T')" using l(1) by (simp add: has_def)
    then show ?thesis using l(2) [OF c(3)] c(3,4) by simp
  qed simp
  then show "take c X = take c (sLead a T')" "c \<le> length (sLead a T')" by auto
qed

lemma agreed_agree:
  assumes "spec_inv Q a" "agreed Q a c X T" "agreed Q a d Y U" "k \<le> c" "k \<le> d"
  shows "take k X = take k Y"
proof (cases "k = 0")
  case False
  obtain i t where c: "chosen Q a i t" "c \<le> i" "take c X = take c (sLead a t)" using assms(2,4) False by (auto simp: agreed_def)
  obtain j u where d: "chosen Q a j u" "d \<le> j" "take d Y = take d (sLead a u)" using assms(3,5) False by (auto simp: agreed_def)
  have ne: "sLead a t \<noteq> []" "sLead a u \<noteq> []" using c(1) d(1) by (auto simp: chosen_def own_def has_def)
  have X: "take k X = take k (sLead a t)" using c(3) assms(4) by (metis min.absorb1 take_take)
  have Y: "take k Y = take k (sLead a u)" using d(3) assms(5) by (metis min.absorb1 take_take)
  have "take k (sLead a t) = take k (sLead a u)"
  proof (cases "t \<le> u")
    case True
    then show ?thesis using chosen_in_lead(2) [OF assms(1) c(1) True ne(2), of k] c(2) assms(4) by simp
  next
    case False
    then show ?thesis using chosen_in_lead(2) [OF assms(1) d(1) _ ne(1), of k] d(2) assms(5) by simp
  qed
  then show ?thesis using X Y by simp
qed simp

end

section \<open>A leader's log grows\<close>

text \<open>Winning an election and appending an entry have the same effect; \<open>grown\<close> is the state after it.\<close>

definition grown :: "spec \<Rightarrow> nodeid \<Rightarrow> nat \<Rightarrow> LogEntry \<Rightarrow> spec" where
  "grown a c T e = (let X = sLog a c @ [e] in
     a\<lparr>sLog := (sLog a)(c := X), sLead := (sLead a)(T := X), sBoss := (sBoss a)(T := c), sAck := insert (c, T, length X) (sAck a)\<rparr>)"

definition grows :: "spec \<Rightarrow> nodeid \<Rightarrow> nat \<Rightarrow> LogEntry \<Rightarrow> bool" where
  "grows a c T e \<longleftrightarrow> inv_lead a \<and> inv_log a \<and> sTerm a c = T \<and> Term e = T \<and> 0 < T \<and> (sLead a T = [] \<or> sLead a T = sLog a c \<and> sBoss a T = c)"

lemma grown_simps [simp]:
  "sTerm (grown a c T e) = sTerm a" "sLog (grown a c T e) = (sLog a)(c := sLog a c @ [e])"
  "sLead (grown a c T e) = (sLead a)(T := sLog a c @ [e])" "sBoss (grown a c T e) = (sBoss a)(T := c)"
  "sAck (grown a c T e) = insert (c, T, Suc (length (sLog a c))) (sAck a)" "sClaim (grown a c T e) = sClaim a"
  "sVote (grown a c T e) = sVote a" "sCommit (grown a c T e) = sCommit a"
  by (simp_all add: grown_def Let_def)

lemma grows_prefix: "grows a c T e \<Longrightarrow> i \<le> length (sLead a U) \<Longrightarrow> take i (sLead (grown a c T e) U) = take i (sLead a U)"
  by (auto simp: grows_def)

lemma grows_own: "grows a c T e \<Longrightarrow> own a i t \<Longrightarrow> own (grown a c T e) i t"
  by (auto simp: grows_def own_def has_append)

lemma grows_own_old: "grows a c T e \<Longrightarrow> own (grown a c T e) i t \<Longrightarrow> t \<noteq> T \<or> i \<le> length (sLead a t) \<Longrightarrow> own a i t"
  by (auto simp: grows_def own_def has_snoc split: if_splits) (auto simp: has_def)

lemma grows_lost: "grows a c T e \<Longrightarrow> lost (sLead a) i t U \<Longrightarrow> lost (sLead (grown a c T e)) i t U"
proof -
  assume g: "grows a c T e" and "lost (sLead a) i t U"
  then obtain V where V: "t < V" "V < U" "sLead a V \<noteq> []" "\<not> has (sLead a V) i t" by (auto simp: lost_def)
  have "sLead (grown a c T e) V \<noteq> [] \<and> \<not> has (sLead (grown a c T e) V) i t"
    using g V by (auto simp: grows_def has_snoc)
  then show ?thesis using V(1,2) unfolding lost_def by blast
qed

lemma grows_keeps: "grows a c T e \<Longrightarrow> keeps (sLead a) X i t U \<Longrightarrow> keeps (sLead (grown a c T e)) X i t U"
  unfolding keeps_def using grows_lost by blast

lemma keeps_append: "keeps L X i t U \<Longrightarrow> keeps L (X @ Y) i t U"
  by (auto simp: keeps_def has_append)

lemma grows_coh: "grows a c T e \<Longrightarrow> coh (sLead a) X \<Longrightarrow> coh (sLead (grown a c T e)) X"
proof -
  assume g: "grows a c T e" and X: "coh (sLead a) X"
  have "take (Suc i) X = take (Suc i) (sLead (grown a c T e) (Term (X ! i)))" if "i < length X" for i
    using cohD [OF X has_nth [OF that]] grows_prefix [OF g, of "Suc i" "Term (X ! i)"] by simp
  then show ?thesis unfolding coh_def by blast
qed

lemma grows_coh_new: "grows a c T e \<Longrightarrow> coh (sLead (grown a c T e)) (sLog a c @ [e])"
proof -
  assume g: "grows a c T e"
  then have "coh (sLead (grown a c T e)) (sLog a c)" by (intro grows_coh) (auto simp: grows_def inv_log_def)
  then have "take (Suc i) (sLog a c @ [e]) = take (Suc i) (sLead (grown a c T e) (Term ((sLog a c @ [e]) ! i)))"
    if "i < length (sLog a c @ [e])" for i
    using that g by (cases "i = length (sLog a c)") (auto simp: coh_def grows_def nth_append simp del: grown_simps, simp_all)
  then show ?thesis unfolding coh_def by blast
qed

lemma grows_sorted: "grows a c T e \<Longrightarrow> sorted (map Term (sLog a c @ [e]))"
  using coh_sorted [of a "sLog a c"] by (auto simp: grows_def sorted_append inv_log_def)

lemma grown_lead_log:
  assumes "grows a c T e"
  shows "inv_lead (grown a c T e)" "inv_log (grown a c T e)"
  using assms grows_coh [OF assms] grows_coh_new [OF assms] grows_sorted [OF assms]
  by (auto simp: inv_lead_def inv_log_def grows_def)

lemma grown_boss: "grows a c T e \<Longrightarrow> inv_boss a \<Longrightarrow> inv_boss (grown a c T e)"
  by (auto simp: inv_boss_def grows_def)

lemma grown_ack: "grows a c T e \<Longrightarrow> inv_ack a \<Longrightarrow> inv_ack (grown a c T e)"
proof -
  assume g: "grows a c T e" and i: "inv_ack a"
  have "j \<le> length (sLead (grown a c T e) t) \<and> t \<le> sTerm a q \<and>
      (\<forall>i\<le>j. own (grown a c T e) i t \<longrightarrow> keeps (sLead (grown a c T e)) (sLog (grown a c T e) q) i t (Suc (sTerm a q)))"
    if "(q, t, j) \<in> sAck a" for q t j
  proof -
    have j: "j \<le> length (sLead a t)" "t \<le> sTerm a q" "\<forall>i\<le>j. own a i t \<longrightarrow> keeps (sLead a) (sLog a q) i t (Suc (sTerm a q))"
      using i that by (auto simp: inv_ack_def)
    have "j \<le> length (sLead (grown a c T e) t)" using g j(1) by (auto simp: grows_def)
    moreover have "keeps (sLead (grown a c T e)) (sLog (grown a c T e) q) i t (Suc (sTerm a q))"
      if "i \<le> j" "own (grown a c T e) i t" for i
    proof -
      have "own a i t" using grows_own_old [OF g that(2)] that(1) j(1) by simp
      then have "keeps (sLead (grown a c T e)) (sLog a q) i t (Suc (sTerm a q))" using j(3) that(1) grows_keeps [OF g] by blast
      then show ?thesis by (cases "q = c") (simp_all add: keeps_append)
    qed
    ultimately show ?thesis using j(2) by blast
  qed
  then show ?thesis using g by (auto simp: inv_ack_def grows_def own_def keeps_def)
qed

lemma grown_claim: "grows a c T e \<Longrightarrow> inv_claim a \<Longrightarrow> inv_claim (grown a c T e)"
proof -
  assume g: "grows a c T e" and inv: "inv_claim a"
  have lead: "inv_lead a" using g by (simp add: grows_def)
  have "lt < U \<and> (li = 0 \<and> lt = 0 \<or> own (grown a c T e) li lt) \<and>
      (sTerm a p < U \<or> sTerm a p = U \<and> sLead (grown a c T e) U = [] \<longrightarrow>
        (\<forall>i t. own (grown a c T e) i t \<and> recent i t li lt \<longrightarrow> keeps (sLead (grown a c T e)) (sLog (grown a c T e) p) i t U))"
    if "(p, U, li, lt) \<in> sClaim a" for p U li lt
  proof (intro conjI impI allI; (elim conjE)?)
    have o: "lt < U" "li = 0 \<and> lt = 0 \<or> own a li lt" and
      k: "sTerm a p < U \<or> sTerm a p = U \<and> sLead a U = [] \<Longrightarrow> own a i t \<Longrightarrow> recent i t li lt \<Longrightarrow> keeps (sLead a) (sLog a p) i t U" for i t
      using inv that by (auto simp: inv_claim_def)
    show "lt < U" by (rule o)
    show "li = 0 \<and> lt = 0 \<or> own (grown a c T e) li lt" using o(2) grows_own [OF g] by blast
    fix i t
    assume cond: "sTerm a p < U \<or> sTerm a p = U \<and> sLead (grown a c T e) U = []" and i: "own (grown a c T e) i t" "recent i t li lt"
    have cond': "sTerm a p < U \<or> sTerm a p = U \<and> sLead a U = []" using cond g by (auto simp: grows_def split: if_splits)
    show "keeps (sLead (grown a c T e)) (sLog (grown a c T e) p) i t U"
    proof (cases "own a i t")
      case True
      then have "keeps (sLead (grown a c T e)) (sLog a p) i t U" using k [OF cond' _ i(2)] grows_keeps [OF g] by blast
      then show ?thesis by (cases "p = c") (simp_all add: keeps_append)
    next
      case False
      then have "t = T \<and> length (sLead a t) < i" using grows_own_old [OF g i(1)] by (meson not_le)
      then have new: "t = T" "length (sLead a T) < i" by auto
      have "0 < lt" using i(2) new(1) g by (auto simp: recent_def grows_def)
      then have o': "has (sLead a lt) li lt" using o(2) by (auto simp: own_def)
      have "lt \<noteq> T" using i(2) new o' by (auto simp: recent_def has_def)
      then have "T < lt" using i(2) new(1) by (auto simp: recent_def)
      moreover have "\<not> has (sLead a lt) i T" using cohD [OF lead_coh [OF lead]] new(2) by fastforce
      ultimately have "lost (sLead (grown a c T e)) i t U"
        unfolding lost_def using o(1) new(1) o' by (intro exI [of _ lt]) auto
      then show ?thesis by (simp add: keeps_def)
    qed
  qed
  then show ?thesis unfolding inv_claim_def grown_simps(1,6) by blast
qed

text \<open>The acknowledgements of a server that is past the term are the old ones.\<close>

lemma grown_acked:
  assumes "grows a c T e" "inv_ack a" "(q, t, j) \<in> sAck (grown a c T e)" "t < U" "U \<le> sTerm a q" "i \<le> j" "own (grown a c T e) i t"
  shows "(q, t, j) \<in> sAck a \<and> own a i t"
proof -
  have "(q, t, j) \<in> sAck a" using assms(1,3-5) by (auto simp: grows_def)
  then show ?thesis using grows_own_old [OF assms(1,7)] assms(2,6) by (fastforce simp: inv_ack_def)
qed

lemma grown_vote: "grows a c T e \<Longrightarrow> inv_ack a \<Longrightarrow> inv_vote a \<Longrightarrow> inv_vote (grown a c T e)"
proof -
  assume g: "grows a c T e" and ack: "inv_ack a" and inv: "inv_vote a"
  have "recent i t li lt \<or> lost (sLead (grown a c T e)) i t U"
    if v: "(q, p, U, li, lt) \<in> sVote a" "sLead (grown a c T e) U = []" "(q, t, j) \<in> sAck (grown a c T e)" "t < U" "i \<le> j"
      "own (grown a c T e) i t" for q p U li lt t j i
  proof -
    have "U \<le> sTerm a q" using inv v(1) by (auto simp: inv_vote_def)
    then have "(q, t, j) \<in> sAck a \<and> own a i t" using grown_acked [OF g ack] v by blast
    moreover have "sLead a U = []" using v(2) g by (auto simp: grows_def split: if_splits)
    ultimately have "recent i t li lt \<or> lost (sLead a) i t U" using inv v unfolding inv_vote_def by blast
    then show ?thesis using grows_lost [OF g] by blast
  qed
  then show ?thesis using inv unfolding inv_vote_def grown_simps(1,6,7) by blast
qed

lemma grown_crown:
  assumes g: "grows a c T e" and ack: "inv_ack a" and inv: "inv_crown Q a"
    and new: "sLead a T = [] \<Longrightarrow> \<exists>A. Q A \<and> (\<forall>q\<in>A. T \<le> sTerm a q \<and>
       (\<forall>t j i. (q, t, j) \<in> sAck a \<and> t < T \<and> i \<le> j \<and> own a i t \<longrightarrow> keeps (sLead a) (sLog a c) i t T))"
  shows "inv_crown Q (grown a c T e)"
proof -
  have "\<exists>A. Q A \<and> (\<forall>q\<in>A. U \<le> sTerm a q \<and> (\<forall>t j i. (q, t, j) \<in> sAck (grown a c T e) \<and> t < U \<and> i \<le> j \<and> own (grown a c T e) i t \<longrightarrow>
      keeps (sLead (grown a c T e)) (sLead (grown a c T e) U) i t U))" if "sLead (grown a c T e) U \<noteq> []" for U
  proof -
    define Y where "Y = (if U = T then sLog a c else sLead a U)"
    have "\<exists>A. Q A \<and> (\<forall>q\<in>A. U \<le> sTerm a q \<and>
        (\<forall>t j i. (q, t, j) \<in> sAck a \<and> t < U \<and> i \<le> j \<and> own a i t \<longrightarrow> keeps (sLead a) Y i t U))"
    proof (cases "sLead a U = []")
      case True
      then have "U = T" using that by (auto split: if_splits)
      then show ?thesis using new True by (simp add: Y_def)
    next
      case False
      then have "Y = sLead a U" using g by (auto simp: Y_def grows_def)
      then show ?thesis using inv False unfolding inv_crown_def by simp
    qed
    then obtain A where A: "Q A" "\<forall>q\<in>A. U \<le> sTerm a q \<and>
        (\<forall>t j i. (q, t, j) \<in> sAck a \<and> t < U \<and> i \<le> j \<and> own a i t \<longrightarrow> keeps (sLead a) Y i t U)" by blast
    have "keeps (sLead (grown a c T e)) (sLead (grown a c T e) U) i t U"
      if q: "q \<in> A" "(q, t, j) \<in> sAck (grown a c T e)" "t < U" "i \<le> j" "own (grown a c T e) i t" for q t j i
    proof -
      have "(q, t, j) \<in> sAck a \<and> own a i t" using grown_acked [OF g ack q(2,3) _ q(4,5)] A(2) q(1) by blast
      then have "keeps (sLead (grown a c T e)) Y i t U" using A(2) q grows_keeps [OF g] by blast
      then show ?thesis by (cases "U = T") (simp_all add: Y_def keeps_append)
    qed
    then show ?thesis using A by blast
  qed
  then show ?thesis unfolding inv_crown_def grown_simps(1) by blast
qed

lemma grown_chosen: "grows a c T e \<Longrightarrow> chosen Q a i t \<Longrightarrow> chosen Q (grown a c T e) i t"
  unfolding chosen_def using grows_own by (auto simp del: grown_simps) (metis grown_simps(5) insertCI)

lemma grown_agreed:
  assumes "grows a c T e" "agreed Q a k X U"
  shows "agreed Q (grown a c T e) k X U" "agreed Q (grown a c T e) k (X @ [e]) U"
proof -
  have "take k X = take k (sLead (grown a c T e) t)" if "chosen Q a i t" "k \<le> i" "take k X = take k (sLead a t)" for i t
  proof -
    have "k \<le> length (sLead a t)" using that(1,2) by (auto simp: chosen_def own_def has_def)
    then show ?thesis using grows_prefix [OF assms(1)] that(3) by simp
  qed
  then show ag: "agreed Q (grown a c T e) k X U" using assms(2) grown_chosen [OF assms(1)] unfolding agreed_def by blast
  then show "agreed Q (grown a c T e) k (X @ [e]) U" by (auto simp: agreed_def)
qed

lemma grown_commit: "grows a c T e \<Longrightarrow> inv_commit Q a \<Longrightarrow> inv_commit Q (grown a c T e)"
  unfolding inv_commit_def using grown_agreed by (simp del: grown_simps(3))

section \<open>A follower accepts entries\<close>

definition accepted :: "spec \<Rightarrow> nodeid \<Rightarrow> nat \<Rightarrow> LogEntry list \<Rightarrow> nat \<Rightarrow> spec" where
  "accepted a q T X i = a\<lparr>sTerm := (sTerm a)(q := T), sLog := (sLog a)(q := X), sAck := insert (q, T, i) (sAck a)\<rparr>"

lemma accepted_simps [simp]:
  "sTerm (accepted a q T X i) = (sTerm a)(q := T)" "sLog (accepted a q T X i) = (sLog a)(q := X)"
  "sAck (accepted a q T X i) = insert (q, T, i) (sAck a)" "sLead (accepted a q T X i) = sLead a" "sBoss (accepted a q T X i) = sBoss a"
  "sClaim (accepted a q T X i) = sClaim a" "sVote (accepted a q T X i) = sVote a" "sCommit (accepted a q T X i) = sCommit a"
  "own (accepted a q T X i) = own a"
  by (simp_all add: accepted_def own_def fun_eq_iff)

definition may_accept :: "spec \<Rightarrow> nodeid \<Rightarrow> nat \<Rightarrow> LogEntry list \<Rightarrow> nat \<Rightarrow> bool" where
  "may_accept a q T X i \<longleftrightarrow> sLead a T \<noteq> [] \<and> sBoss a T \<noteq> q \<and> sTerm a q \<le> T \<and> overwrite (sLead a T) (sLog a q) X \<and>
     i \<le> length X \<and> i \<le> length (sLead a T) \<and> take i X = take i (sLead a T)"

text \<open>An entry a follower gives up is one its leader does not have.\<close>

lemma overwrite_has:
  assumes "overwrite LT X X'" "has X j t"
  shows "has X' j t \<or> \<not> has LT j t"
  using assms by (auto simp: overwrite_def has_take)

lemma accept_keeps:
  assumes "may_accept a q T X i" "inv_log a" "own a j t" "keeps (sLead a) (sLog a q) j t U" "T < U"
  shows "keeps (sLead a) X j t U"
proof (cases "lost (sLead a) j t U \<or> has X j t")
  case False
  then have h: "has (sLog a q) j t" using assms(4) by (simp add: keeps_def)
  then have no: "\<not> has (sLead a T) j t" using overwrite_has [of "sLead a T" "sLog a q" X] assms(1) False by (auto simp: may_accept_def)
  then have "t \<noteq> T" using assms(3) by (auto simp: own_def)
  moreover have "t \<le> T" using log_term [OF assms(2) h] assms(1) by (simp add: may_accept_def)
  ultimately have "t < T" by simp
  then have "lost (sLead a) j t U" unfolding lost_def using no assms(1,5) by (intro exI [of _ T]) (simp add: may_accept_def)
  then show ?thesis by (simp add: keeps_def)
qed (auto simp: keeps_def)

lemma accepted_log:
  assumes "may_accept a q T X i" "inv_lead a" "inv_log a"
  shows "inv_log (accepted a q T X i)"
proof -
  have ow: "X = sLog a q \<or> (\<exists>k. X = take k (sLead a T))" using assms(1) by (auto simp: may_accept_def overwrite_def)
  have "coh (sLead a) X" using ow coh_take [OF lead_coh [OF assms(2)]] log_coh [OF assms(3)] by auto
  moreover have "Term e \<le> T" if "e \<in> set X" for e
  proof -
    have "e \<in> set (sLog a q) \<or> e \<in> set (sLead a T)" using ow that by (auto dest: in_set_takeD)
    then show ?thesis using assms by (fastforce simp: inv_log_def inv_lead_def may_accept_def)
  qed
  ultimately show ?thesis using assms(3) by (simp add: inv_log_def)
qed

lemma accepted_boss: "may_accept a q T X i \<Longrightarrow> inv_boss a \<Longrightarrow> inv_boss (accepted a q T X i)"
  by (fastforce simp: inv_boss_def may_accept_def)

lemma accepted_ack:
  assumes m: "may_accept a q T X i" and "inv_log a" "inv_ack a"
  shows "inv_ack (accepted a q T X i)"
proof -
  have "keeps (sLead a) X k t (Suc T)" if "(q, t, j) \<in> sAck a" "k \<le> j" "own a k t" for t j k
  proof -
    have "keeps (sLead a) (sLog a q) k t (Suc (sTerm a q))" using assms(3) that by (auto simp: inv_ack_def)
    then have "keeps (sLead a) (sLog a q) k t (Suc T)" using keeps_mono m by (auto simp: may_accept_def)
    then show ?thesis using accept_keeps [OF m assms(2) that(3)] by simp
  qed
  moreover have "keeps (sLead a) X k T (Suc T)" if "k \<le> i" "own a k T" for k
    using that m has_prefix [of i X "sLead a T" k T] by (auto simp: keeps_def may_accept_def own_def)
  moreover have "t \<le> T" if "(q, t, j) \<in> sAck a" for t j
    using that assms(3) m by (fastforce simp: inv_ack_def may_accept_def)
  ultimately show ?thesis using assms(3) m unfolding inv_ack_def by (auto simp: may_accept_def)
qed

lemma accepted_claim:
  assumes m: "may_accept a q T X i" and "inv_log a" "inv_claim a"
  shows "inv_claim (accepted a q T X i)"
proof -
  have "keeps (sLead a) X j t U"
    if "(q, U, li, lt) \<in> sClaim a" "T < U \<or> T = U \<and> sLead a U = []" "own a j t" "recent j t li lt" for U li lt j t
  proof -
    have "T < U" using that(2) m by (auto simp: may_accept_def)
    moreover from this have "sTerm a q < U" using m by (simp add: may_accept_def)
    then have "keeps (sLead a) (sLog a q) j t U" using that assms(3) unfolding inv_claim_def by blast
    ultimately show ?thesis using accept_keeps [OF m assms(2) that(3)] by blast
  qed
  then show ?thesis using assms(3) unfolding inv_claim_def by auto
qed

lemma accepted_vote: "may_accept a q T X i \<Longrightarrow> inv_vote a \<Longrightarrow> inv_vote (accepted a q T X i)"
proof -
  assume m: "may_accept a q T X i" and inv: "inv_vote a"
  have "(c, U, li, lt) \<in> sClaim a \<and> U \<le> sTerm (accepted a q T X i) p \<and>
      (sLead a U = [] \<longrightarrow> (\<forall>t j k. (p, t, j) \<in> sAck (accepted a q T X i) \<and> t < U \<and> k \<le> j \<and> own a k t \<longrightarrow> recent k t li lt \<or> lost (sLead a) k t U))"
    if v: "(p, c, U, li, lt) \<in> sVote a" for p c U li lt
  proof -
    have old: "(c, U, li, lt) \<in> sClaim a" "U \<le> sTerm a p"
      "sLead a U = [] \<longrightarrow> (\<forall>t j k. (p, t, j) \<in> sAck a \<and> t < U \<and> k \<le> j \<and> own a k t \<longrightarrow> recent k t li lt \<or> lost (sLead a) k t U)"
      using inv v unfolding inv_vote_def by blast+
    have "(p, t, j) \<in> sAck a" if "(p, t, j) \<in> sAck (accepted a q T X i)" "t < U" for t j
      using that old(2) m by (auto simp: may_accept_def)
    moreover have "U \<le> sTerm (accepted a q T X i) p" using old(2) m by (auto simp: may_accept_def)
    ultimately show ?thesis using old by blast
  qed
  then show ?thesis unfolding inv_vote_def accepted_simps(4,6,7,9) by blast
qed

lemma accepted_crown: "may_accept a q T X i \<Longrightarrow> inv_crown Q a \<Longrightarrow> inv_crown Q (accepted a q T X i)"
proof -
  assume m: "may_accept a q T X i" and inv: "inv_crown Q a"
  have "\<exists>A. Q A \<and> (\<forall>p\<in>A. U \<le> sTerm (accepted a q T X i) p \<and> (\<forall>t j k. (p, t, j) \<in> sAck (accepted a q T X i) \<and> t < U \<and> k \<le> j \<and> own a k t \<longrightarrow>
      keeps (sLead a) (sLead a U) k t U))" if ne: "sLead a U \<noteq> []" for U
  proof -
    obtain A where "Q A" "\<forall>p\<in>A. U \<le> sTerm a p \<and> (\<forall>t j k. (p, t, j) \<in> sAck a \<and> t < U \<and> k \<le> j \<and> own a k t \<longrightarrow> keeps (sLead a) (sLead a U) k t U)"
      using inv ne unfolding inv_crown_def by meson
    then show ?thesis using m by (intro exI [of _ A]) (auto simp: may_accept_def)
  qed
  then show ?thesis unfolding inv_crown_def by simp
qed

lemma accepted_chosen: "chosen Q a k t \<Longrightarrow> chosen Q (accepted a q T X i) k t"
  unfolding chosen_def by auto blast

lemma accepted_agreed: "agreed Q a k Y U \<Longrightarrow> agreed Q (accepted a q T X i) k Y U"
  using accepted_chosen unfolding agreed_def by fastforce

context quorums
begin

lemma accepted_commit:
  assumes m: "may_accept a q T X i" and inv: "spec_inv Q a"
  shows "inv_commit Q (accepted a q T X i)"
proof -
  let ?c = "sCommit a q"
  have ag: "agreed Q a ?c (sLog a q) (sTerm a q)" using inv by (simp add: spec_inv_def inv_commit_def)
  have T: "sTerm a q \<le> T" "sLead a T \<noteq> []" "overwrite (sLead a T) (sLog a q) X" using m by (simp_all add: may_accept_def)
  note eq = agreed_in_lead [OF inv ag T(1,2)]
  have "?c \<le> length X \<and> take ?c X = take ?c (sLog a q)"
  proof (cases "X = sLog a q \<or> ?c = 0")
    case False
    then obtain k where k: "X = take k (sLead a T)" "\<forall>j t. k < j \<and> has (sLog a q) j t \<longrightarrow> \<not> has (sLead a T) j t"
      using T(3) by (auto simp: overwrite_def)
    have "?c \<le> length (sLog a q)" using ag by (simp add: agreed_def)
    then have h: "has (sLog a q) ?c (Term (sLog a q ! (?c - 1)))" using False by (simp add: has_def)
    then have "has (sLead a T) ?c (Term (sLog a q ! (?c - 1)))" using has_prefix [OF eq(1)] by simp
    then have "?c \<le> k" using h k(2) not_le by blast
    then show ?thesis using k(1) eq by simp
  qed (use ag in \<open>auto simp: agreed_def\<close>)
  then have "agreed Q a ?c X T" using ag T(1) unfolding agreed_def by (metis order_trans)
  then show ?thesis using inv accepted_agreed unfolding spec_inv_def inv_commit_def by simp
qed

end

section \<open>Every step keeps the invariant\<close>

lemma later_inv:
  assumes inv: "spec_inv Q a" and mono: "\<And>q. sTerm a q \<le> sTerm b q"
    and eq: "sLead b = sLead a" "sLog b = sLog a" "sBoss b = sBoss a" "sAck b = sAck a" "sClaim b = sClaim a" "sVote b = sVote a" "sCommit b = sCommit a"
  shows "spec_inv Q b"
proof -
  have own: "own b = own a" by (simp add: own_def fun_eq_iff eq)
  have cho: "chosen Q b = chosen Q a" by (simp add: chosen_def fun_eq_iff own eq)
  have "inv_lead b" using inv by (simp add: spec_inv_def inv_lead_def eq)
  moreover have "inv_log b" using inv mono unfolding spec_inv_def inv_log_def eq by (meson order_trans)
  moreover have "T \<le> sTerm b (sBoss a T) \<and> (sTerm b (sBoss a T) = T \<longrightarrow> sLog a (sBoss a T) = sLead a T)" if "sLead a T \<noteq> []" for T
  proof -
    have "T \<le> sTerm a (sBoss a T)" "sTerm a (sBoss a T) = T \<longrightarrow> sLog a (sBoss a T) = sLead a T"
      using inv that by (auto simp: spec_inv_def inv_boss_def)
    then show ?thesis using mono [of "sBoss a T"] by auto
  qed
  then have "inv_boss b" unfolding inv_boss_def eq by blast
  moreover have "keeps (sLead a) (sLog a q) i u (Suc (sTerm b q))" if "keeps (sLead a) (sLog a q) i u (Suc (sTerm a q))" for q i u
    using keeps_mono [OF that] mono by simp
  then have "inv_ack b" using inv mono unfolding spec_inv_def inv_ack_def eq own by (meson order_trans)
  moreover have "sTerm a c < U \<or> sTerm a c = U \<and> sLead a U = []" if "sTerm b c < U \<or> sTerm b c = U \<and> sLead a U = []" for c U
    using that mono [of c] by linarith
  then have "inv_claim b" using inv unfolding spec_inv_def inv_claim_def eq own by blast
  moreover have "inv_vote b" using inv mono unfolding spec_inv_def inv_vote_def eq own by (meson order_trans)
  moreover have "inv_crown Q b" using inv mono unfolding spec_inv_def inv_crown_def eq own by (meson order_trans)
  moreover have "agreed Q b c X (sTerm b q)" if "agreed Q a c X (sTerm a q)" for c X q
    using that mono unfolding agreed_def eq cho by (meson order_trans)
  then have "inv_commit Q b" using inv unfolding spec_inv_def inv_commit_def eq by blast
  ultimately show ?thesis by (simp add: spec_inv_def)
qed

lemma advance_inv: "spec_inv Q a \<Longrightarrow> sTerm a p \<le> t \<Longrightarrow> spec_inv Q (a\<lparr>sTerm := (sTerm a)(p := t)\<rparr>)"
  by (erule later_inv) simp_all

lemma claim_inv:
  assumes inv: "spec_inv Q a" and T: "sTerm a p < T"
  shows "spec_inv Q (a\<lparr>sClaim := insert (p, T, length (sLog a p), lastT (sLog a p)) (sClaim a)\<rparr>)"
proof -
  let ?X = "sLog a p"
  let ?a = "a\<lparr>sClaim := insert (p, T, length ?X, lastT ?X) (sClaim a)\<rparr>"
  have lead: "inv_lead a" "coh (sLead a) ?X" using inv by (auto simp: spec_inv_def inv_log_def)
  have own: "own ?a = own a" by (simp add: own_def fun_eq_iff)
  have cho: "chosen Q ?a = chosen Q a" by (simp add: chosen_def fun_eq_iff own)
  have o: "length ?X = 0 \<and> lastT ?X = 0 \<or> own a (length ?X) (lastT ?X)"
    using coh_has [OF lead(2) has_last] by (auto simp: own_def lastT_def)
  have lt: "lastT ?X < T"
  proof (cases "?X = []")
    case False
    then show ?thesis using log_term [of a p] has_last [OF False] inv T by (fastforce simp: spec_inv_def)
  qed (use T in \<open>simp add: lastT_def\<close>)
  have "inv_claim ?a"
    using inv o lt recent_keeps [OF lead] unfolding spec_inv_def inv_claim_def own by auto
  moreover have "inv_lead ?a \<longleftrightarrow> inv_lead a" "inv_log ?a \<longleftrightarrow> inv_log a" "inv_boss ?a \<longleftrightarrow> inv_boss a" "inv_ack ?a \<longleftrightarrow> inv_ack a"
      "inv_crown Q ?a \<longleftrightarrow> inv_crown Q a" "inv_commit Q ?a \<longleftrightarrow> inv_commit Q a"
    by (simp_all add: inv_lead_def inv_log_def inv_boss_def inv_ack_def inv_crown_def inv_commit_def agreed_def own cho)
  moreover have "inv_vote a \<Longrightarrow> inv_vote ?a" by (simp add: inv_vote_def own) blast
  ultimately show ?thesis using inv unfolding spec_inv_def by blast
qed

lemma vote_inv:
  assumes inv: "spec_inv Q a" and c: "(c, T, li, lt) \<in> sClaim a" "sTerm a q = T" "recent (length (sLog a q)) (lastT (sLog a q)) li lt"
  shows "spec_inv Q (a\<lparr>sVote := insert (q, c, T, li, lt) (sVote a)\<rparr>)"
proof -
  let ?a = "a\<lparr>sVote := insert (q, c, T, li, lt) (sVote a)\<rparr>"
  have lead: "inv_lead a" "coh (sLead a) (sLog a q)" using inv by (auto simp: spec_inv_def inv_log_def)
  have own: "own ?a = own a" by (simp add: own_def fun_eq_iff)
  have cho: "chosen Q ?a = chosen Q a" by (simp add: chosen_def fun_eq_iff own)
  have "recent i t li lt \<or> lost (sLead a) i t T"
    if v: "sLead a T = []" "(q, t, j) \<in> sAck a" "t < T" "i \<le> j" "own a i t" for t j i
  proof -
    have "keeps (sLead a) (sLog a q) i t (Suc T)" using inv v c(2) unfolding spec_inv_def inv_ack_def by blast
    then consider "has (sLog a q) i t" | "lost (sLead a) i t T" using lost_less v(1) by (auto simp: keeps_def)
    then show ?thesis
    proof cases
      case 1
      then have "recent i t (length (sLog a q)) (lastT (sLog a q))" using has_recent [OF lead] by simp
      then show ?thesis using c(3) by (auto simp: recent_def)
    qed simp
  qed
  note new = this
  have old: "inv_vote a" using inv by (simp add: spec_inv_def)
  have "inv_vote ?a" unfolding inv_vote_def own
  proof (intro allI impI)
    fix q' c' U li' lt' assume v: "(q', c', U, li', lt') \<in> sVote ?a"
    show "(c', U, li', lt') \<in> sClaim ?a \<and> U \<le> sTerm ?a q' \<and> (sLead ?a U = [] \<longrightarrow>
        (\<forall>t j i. (q', t, j) \<in> sAck ?a \<and> t < U \<and> i \<le> j \<and> own a i t \<longrightarrow> recent i t li' lt' \<or> lost (sLead ?a) i t U))"
    proof (cases "(q', c', U, li', lt') = (q, c, T, li, lt)")
      case True
      then show ?thesis using c new by auto
    next
      case False
      then have "(q', c', U, li', lt') \<in> sVote a" using v by auto
      then show ?thesis using old unfolding inv_vote_def by simp blast
    qed
  qed
  moreover have "inv_lead ?a \<longleftrightarrow> inv_lead a" "inv_log ?a \<longleftrightarrow> inv_log a" "inv_boss ?a \<longleftrightarrow> inv_boss a" "inv_ack ?a \<longleftrightarrow> inv_ack a"
      "inv_claim ?a \<longleftrightarrow> inv_claim a" "inv_crown Q ?a \<longleftrightarrow> inv_crown Q a" "inv_commit Q ?a \<longleftrightarrow> inv_commit Q a"
    by (simp_all add: inv_lead_def inv_log_def inv_boss_def inv_ack_def inv_claim_def inv_crown_def inv_commit_def agreed_def own cho)
  ultimately show ?thesis using inv unfolding spec_inv_def by blast
qed

lemma crown_ready:
  assumes inv: "spec_inv Q a" and c: "(c, T, li, lt) \<in> sClaim a" "sTerm a c = T" "sLead a T = []"
    and q: "q = c \<or> (q, c, T, li, lt) \<in> sVote a" and ack: "(q, t, j) \<in> sAck a" "t < T" "i \<le> j" "own a i t"
  shows "keeps (sLead a) (sLog a c) i t T"
proof (cases "q = c")
  case True
  then have "keeps (sLead a) (sLog a c) i t (Suc T)" using inv ack c(2) unfolding spec_inv_def inv_ack_def by blast
  then show ?thesis using lost_less c(3) by (auto simp: keeps_def)
next
  case False
  then have "recent i t li lt \<or> lost (sLead a) i t T" using inv q ack c(3) unfolding spec_inv_def inv_vote_def by blast
  then show ?thesis using inv c ack(4) unfolding spec_inv_def inv_claim_def keeps_def by blast
qed

lemma grown_inv:
  assumes inv: "spec_inv Q a" and g: "grows a c T e"
    and new: "sLead a T = [] \<Longrightarrow> \<exists>A. Q A \<and> (\<forall>q\<in>A. T \<le> sTerm a q \<and>
       (\<forall>t j i. (q, t, j) \<in> sAck a \<and> t < T \<and> i \<le> j \<and> own a i t \<longrightarrow> keeps (sLead a) (sLog a c) i t T))"
  shows "spec_inv Q (grown a c T e)"
  using inv grown_lead_log [OF g] grown_boss [OF g] grown_ack [OF g] grown_claim [OF g] grown_vote [OF g] grown_crown [OF g _ _ new] grown_commit [OF g]
  unfolding spec_inv_def by blast

lemma crown_inv:
  assumes inv: "spec_inv Q a" and c: "(c, T, li, lt) \<in> sClaim a" "sTerm a c = T" "sLead a T = []"
    and A: "Q A" "\<forall>q\<in>A. q = c \<or> (q, c, T, li, lt) \<in> sVote a" and e: "Term e = T"
  shows "spec_inv Q (grown a c T e)"
proof (rule grown_inv [OF inv])
  have "lt < T" using inv c(1) unfolding spec_inv_def inv_claim_def by blast
  then show "grows a c T e" using inv c e by (simp add: grows_def spec_inv_def)
  have "T \<le> sTerm a q" if "q \<in> A" for q
  proof (cases "q = c")
    case False
    then have "(q, c, T, li, lt) \<in> sVote a" using A(2) that by blast
    then show ?thesis using inv unfolding spec_inv_def inv_vote_def by blast
  qed (simp add: c(2))
  then show "\<exists>A. Q A \<and> (\<forall>q\<in>A. T \<le> sTerm a q \<and>
       (\<forall>t j i. (q, t, j) \<in> sAck a \<and> t < T \<and> i \<le> j \<and> own a i t \<longrightarrow> keeps (sLead a) (sLog a c) i t T))"
    using A crown_ready [OF inv c] by blast
qed

lemma extend_inv:
  assumes inv: "spec_inv Q a" and c: "sLead a T \<noteq> []" "sBoss a T = c" "sTerm a c = T" and e: "Term e = T"
  shows "spec_inv Q (grown a c T e)"
proof (rule grown_inv [OF inv])
  have "0 < T" using inv c(1) by (cases T) (simp_all add: spec_inv_def inv_lead_def)
  then show "grows a c T e" using inv c e by (auto simp: grows_def spec_inv_def inv_boss_def)
qed (use c(1) in simp)

context quorums
begin

lemma accept_inv: "spec_inv Q a \<Longrightarrow> may_accept a q T X i \<Longrightarrow> spec_inv Q (accepted a q T X i)"
  using accepted_log accepted_boss accepted_ack accepted_claim accepted_vote accepted_crown accepted_commit
  unfolding spec_inv_def by (simp add: inv_lead_def)

lemma commit_inv:
  assumes inv: "spec_inv Q a" and c: "agreed Q a c (sLog a p) (sTerm a p)"
  shows "spec_inv Q (a\<lparr>sCommit := (sCommit a)(p := c)\<rparr>)"
proof -
  let ?a = "a\<lparr>sCommit := (sCommit a)(p := c)\<rparr>"
  have own: "own ?a = own a" by (simp add: own_def fun_eq_iff)
  have cho: "chosen Q ?a = chosen Q a" by (simp add: chosen_def fun_eq_iff own)
  have "agreed Q ?a = agreed Q a" by (simp add: agreed_def cho fun_eq_iff)
  then have "inv_commit Q ?a" using assms by (simp add: spec_inv_def inv_commit_def)
  moreover have "inv_lead ?a \<longleftrightarrow> inv_lead a" "inv_log ?a \<longleftrightarrow> inv_log a" "inv_boss ?a \<longleftrightarrow> inv_boss a" "inv_ack ?a \<longleftrightarrow> inv_ack a"
      "inv_claim ?a \<longleftrightarrow> inv_claim a" "inv_vote ?a \<longleftrightarrow> inv_vote a" "inv_crown Q ?a \<longleftrightarrow> inv_crown Q a"
    by (simp_all add: inv_lead_def inv_log_def inv_boss_def inv_ack_def inv_claim_def inv_vote_def inv_crown_def own)
  ultimately show ?thesis using inv unfolding spec_inv_def by blast
qed

lemma spec_step_inv: "spec_step Q a a' \<Longrightarrow> spec_inv Q a \<Longrightarrow> spec_inv Q a'"
proof (induction rule: spec_step.induct)
  case (vote c T li lt a q)
  then show ?case
    using vote_inv [OF advance_inv [OF vote.prems vote.hyps(2)], of c T li lt q] by simp
next
  case (crown c T li lt a A e X)
  then show ?case using crown_inv [OF crown.prems crown.hyps(1-6)] by (simp add: grown_def Let_def)
next
  case (extend a T c e X)
  then have "(sBoss a)(T := c) = sBoss a" by auto
  then show ?case using extend_inv [OF extend.prems extend.hyps(1-4)] extend.hyps(5) by (simp add: grown_def Let_def)
next
  case (accept a T q X i)
  then show ?case using accept_inv [OF accept.prems] by (simp add: accepted_def may_accept_def)
next
  case (commit a i t p c)
  then show ?case by (intro commit_inv) (auto simp: agreed_def)
next
  case (forget c a p)
  have "agreed Q a (sCommit a p) (sLog a p) (sTerm a p)" using forget by (simp add: spec_inv_def inv_commit_def)
  from commit_inv [OF forget.prems agreed_less [OF this forget.hyps]] show ?case .
qed (auto intro: advance_inv claim_inv)

lemma spec_init_inv: "spec_init a \<Longrightarrow> spec_inv Q a"
  by (simp add: spec_init_def spec_inv_def inv_lead_def inv_log_def inv_boss_def inv_ack_def inv_claim_def inv_vote_def
      inv_crown_def inv_commit_def agreed_def coh_def)

lemma spec_safe:
  assumes "spec_inv Q a" "k \<le> sCommit a p" "k \<le> sCommit a q"
  shows "take k (sLog a p) = take k (sLog a q)"
proof -
  have "agreed Q a (sCommit a r) (sLog a r) (sTerm a r)" for r using assms(1) by (simp add: spec_inv_def inv_commit_def)
  from agreed_agree [OF assms(1) this this assms(2,3)] show ?thesis .
qed

end

text \<open>What is agreed stays agreed.\<close>


lemma agreed_step:
  assumes "spec_step Q a a'" "spec_inv Q a" "agreed Q a k Y U"
  shows "agreed Q a' k Y U"
  using assms
proof (induction rule: spec_step.induct)
  case (crown c T li lt a A e X)
  have "lt < T" using crown.prems(1) crown.hyps(1) unfolding spec_inv_def inv_claim_def by blast
  then have "grows a c T e" using crown by (simp add: grows_def spec_inv_def)
  from grown_agreed(1) [OF this crown.prems(2)] show ?case using crown.hyps(7) by (simp add: grown_def Let_def)
next
  case (extend a T c e X)
  have "0 < T" using extend.prems(1) extend.hyps(1) by (cases T) (simp_all add: spec_inv_def inv_lead_def)
  then have "grows a c T e" using extend by (auto simp: grows_def spec_inv_def inv_boss_def)
  moreover have "(sBoss a)(T := c) = sBoss a" using extend.hyps(2) by auto
  ultimately show ?case using grown_agreed(1) [of a c T e] extend.prems(2) extend.hyps(5) by (simp add: grown_def Let_def)
next
  case (accept a T q X i)
  from accepted_agreed [OF accept.prems(2)] show ?case by (simp add: accepted_def)
qed (simp_all add: agreed_def chosen_def own_def)

end
