(* ===== verification/LogView.thy ===== *)
theory LogView
  imports Waiters RaftSpec
begin

text \<open>
  The log of a server as a plain list.  A server keeps the entries behind its snapshot; \<open>view X n\<close>
  says that they are what is left of the log \<open>X\<close>, which starts at index 1.  The lemmas give what
  the handlers do to \<open>X\<close>: merging entries of a leader and installing its snapshot overwrite it
  with the leader's log, compaction does not change it.
\<close>

section \<open>Views\<close>

definition view :: "LogEntry list \<Rightarrow> ('s, 'm) Node \<Rightarrow> bool" where
  "view X n \<longleftrightarrow> snapshotIndex n \<le> length X \<and> tl (entries n) = drop (snapshotIndex n) X \<and>
     snapshotTerm n = (if snapshotIndex n = 0 then 0 else Term (X ! (snapshotIndex n - 1)))"

lemma view_cong:
  "entries n' = entries n \<Longrightarrow> snapshotIndex n' = snapshotIndex n \<Longrightarrow> snapshotTerm n' = snapshotTerm n \<Longrightarrow> view X n' = view X n"
  by (simp add: view_def)

lemma view_entries:
  assumes "log_ok n" "view X n"
  shows "entries n = sentinel n # drop (snapshotIndex n) X" "length (entries n) = Suc (length X - snapshotIndex n)"
    "lastIndex n = length X" "lastTerm n = lastT X"
proof -
  show e: "entries n = sentinel n # drop (snapshotIndex n) X"
    using assms by (cases "entries n") (auto simp: log_ok_def view_def)
  then show len: "length (entries n) = Suc (length X - snapshotIndex n)" by simp
  show "lastIndex n = length X" using lastIndex_Suc [OF assms(1)] len assms(2) by (simp add: view_def)
  show "lastTerm n = lastT X"
  proof (cases "snapshotIndex n = length X")
    case True
    then show ?thesis using e assms(2) by (auto simp: lastTerm_def lastT_def view_def sentinel_def last_conv_nth)
  next
    case False
    then have "snapshotIndex n < length X" using assms(2) by (simp add: view_def)
    then show ?thesis using e by (auto simp: lastTerm_def lastT_def last_drop)
  qed
qed

lemma view_termAt:
  assumes "log_ok n" "view X n"
  shows "termAt n i = Some t \<longleftrightarrow> snapshotIndex n \<le> i \<and> i \<le> length X \<and> (if i = 0 then t = 0 else has X i t)"
proof -
  note v = view_entries [OF assms]
  have "Term (entries n ! (i - snapshotIndex n)) = (if i = 0 then 0 else Term (X ! (i - 1)))"
    if "snapshotIndex n \<le> i" "i \<le> length X"
  proof (cases "i = snapshotIndex n")
    case True
    then show ?thesis using v(1) assms(2) by (auto simp: sentinel_def view_def)
  next
    case False
    then have "i - snapshotIndex n = Suc (i - Suc (snapshotIndex n))" "0 < i" using that by auto
    then show ?thesis using v(1) that False by (simp add: nth_drop)
  qed
  then show ?thesis using v(3) by (auto simp: termAt_eq [OF assms(1)] has_def)
qed

lemma view_entry: "log_ok n \<Longrightarrow> view X n \<Longrightarrow> snapshotIndex n < i \<Longrightarrow> i \<le> length X \<Longrightarrow> entries n ! (i - snapshotIndex n) = X ! (i - 1)"
proof -
  assume a: "log_ok n" "view X n" "snapshotIndex n < i" "i \<le> length X"
  then have "i - snapshotIndex n = Suc (i - Suc (snapshotIndex n))" by simp
  then show ?thesis using view_entries(1) [OF a(1,2)] a(3,4) by (simp add: nth_drop)
qed

lemma view_snoc:
  assumes "view X n" "entries n \<noteq> []" "entries n' = entries n @ [e]" "snapshotIndex n' = snapshotIndex n" "snapshotTerm n' = snapshotTerm n"
  shows "view (X @ [e]) n'"
  using assms by (auto simp: view_def nth_append)

section \<open>Merging\<close>

lemma take_agree: "coh L X \<Longrightarrow> coh L Y \<Longrightarrow> has X i t \<Longrightarrow> has Y i t \<Longrightarrow> take i X = take i Y"
  using coh_agree(1) by blast

lemma merge_view:
  fixes n :: "('s, 'm) Node"
  assumes ok: "log_ok n" "view X n" and coh: "coh L X" "coh L LT"
    and snap: "take (snapshotIndex n) X = take (snapshotIndex n) LT" "snapshotIndex n \<le> length LT"
    and req: "req_ok ae" "accepts n ae"
    and ae: "PrevLogIndex ae = p" "aeEntries ae = take m (drop p LT)" "p + m \<le> length LT" "p = 0 \<or> has LT p (PrevLogTerm ae)"
  obtains X' where "view X' (n\<lparr>entries := mergeLog n (aeEntries ae)\<rparr>)" "overwrite LT X X'" "p + m \<le> length X'" "take (p + m) X' = take (p + m) LT"
proof -
  let ?s = "snapshotIndex n" and ?es = "aeEntries ae"
  note v = view_entries [OF ok]
  have con: "contiguous (Suc p) ?es" using req(1) ae(1) by (simp add: req_ok_def)
  have len: "length ?es = m" using ae(2,3) by simp
  have es: "?es ! j = LT ! (p + j)" "Index (?es ! j) = Suc (p + j)" if "j < m" for j
    using that ae(2,3) contiguous_nth [OF con, of j] len by simp_all
  have pX: "p \<le> length X" using req(2) ae(1) v(3) by (simp add: accepts_def)
  have agree_p: "take p X = take p LT"
  proof (cases "?s \<le> p")
    case True
    then have "termAt n p = Some (PrevLogTerm ae)" using req(2) ae(1) by (simp add: accepts_def)
    then show ?thesis using ae(4) take_agree [OF coh] view_termAt [OF ok] by (auto split: if_splits)
  next
    case False
    then show ?thesis using snap(1) by (metis min.absorb1 nat_le_linear take_take)
  qed
  have pres: "present n (LT ! (i - 1)) \<longleftrightarrow> i \<le> ?s \<or> (i \<le> length X \<and> take i X = take i LT)"
    if i: "p < i" "i \<le> p + m" for i
  proof -
    have e: "LT ! (i - 1) = ?es ! (i - Suc p)" "Index (?es ! (i - Suc p)) = i" using es [of "i - Suc p"] i by simp_all
    have h: "has LT i (Term (LT ! (i - 1)))" using i ae(3) by (simp add: has_def)
    have "has X i (Term (LT ! (i - 1))) \<longleftrightarrow> i \<le> length X \<and> take i X = take i LT"
      using take_agree [OF coh _ h] has_prefix [of i X LT i] h by (auto simp: has_def)
    then show ?thesis using e i by (auto simp: present_def view_termAt [OF ok])
  qed
  show thesis
  proof (cases "missing n ?es")
    case Nil
    have "p + m \<le> length X \<and> take (p + m) X = take (p + m) LT"
    proof (cases m)
      case (Suc j)
      have "present n (LT ! (p + m - 1))" using Nil es(1) [of j] len Suc by (auto simp: missing_Nil) (metis lessI nth_mem)
      then have "p + m \<le> ?s \<or> (p + m \<le> length X \<and> take (p + m) X = take (p + m) LT)" using pres [of "p + m"] Suc by simp
      moreover have "?s \<le> length X" using ok(2) by (simp add: view_def)
      ultimately show ?thesis using snap(1) by (metis min.absorb1 order_trans take_take)
    qed (use pX agree_p in simp)
    moreover have "n\<lparr>entries := mergeLog n ?es\<rparr> = n" using Nil by (simp add: mergeLog_def)
    ultimately show thesis using that [of X] ok(2) by (simp add: overwrite_def)
  next
    case (Cons e rest)
    have k: "Suc p \<le> ?s + length (entries n)" using pX v(2) ok(2) by (simp add: view_def)
    obtain pre where pre: "?es = pre @ e # rest" "\<forall>x\<in>set pre. present n x" "\<not> present n e" using Cons by (rule missing_split)
    define i where "i = Suc (p + length pre)"
    have j: "length pre < m" using pre(1) len by (metis add_Suc_right length_Cons length_append less_add_Suc1)
    have ei: "e = LT ! (i - 1)" "Index e = i" using es [OF j] pre(1) by (simp_all add: i_def nth_append)
    have im: "p < i" "i \<le> p + m" using j by (simp_all add: i_def)
    have new: "?s < i" "\<not> (i \<le> length X \<and> take i X = take i LT)" using pre(3) pres [OF im] ei(1) by auto
    have before: "i - 1 \<le> length X \<and> take (i - 1) X = take (i - 1) LT"
    proof (cases "length pre = 0")
      case False
      define d where "d = length pre - 1"
      have d: "d < length pre" "i - 1 - 1 = p + d" using False by (cases pre; simp add: d_def i_def)+
      have "pre ! d = LT ! (i - 1 - 1)" using es(1) [of d] pre(1) j d by (simp add: nth_append)
      then have "present n (LT ! (i - 1 - 1))" using pre(2) nth_mem [OF d(1)] by metis
      then have "i - 1 \<le> ?s \<or> (i - 1 \<le> length X \<and> take (i - 1) X = take (i - 1) LT)"
        using pres [of "i - 1"] False im by (simp add: i_def)
      moreover have "i - 1 \<le> ?s \<Longrightarrow> i - 1 = ?s" using new(1) by simp
      moreover have "?s \<le> length X" using ok(2) by (simp add: view_def)
      ultimately show ?thesis using snap(1) by metis
    qed (use pX agree_p in \<open>simp add: i_def\<close>)
    have rest: "e # rest = drop (i - 1) (take (p + m) LT)"
    proof -
      have "e # rest = drop (length pre) ?es" using pre(1) by simp
      also have "\<dots> = drop (i - 1) (take (p + m) LT)" by (simp add: ae(2) i_def take_drop add.commute)
      finally show ?thesis .
    qed
    have "mergeLog n ?es = take (i - ?s) (entries n) @ e # rest" using Cons ei(2) by (simp add: mergeLog_def)
    also have "take (i - ?s) (entries n) = sentinel n # take (i - 1 - ?s) (drop ?s X)"
      using v(1) new(1) by (simp add: take_Cons')
    finally have m: "mergeLog n ?es = sentinel n # take (i - 1 - ?s) (drop ?s X) @ e # rest" by simp
    have "take (i - 1 - ?s) (drop ?s X) = drop ?s (take (i - 1) LT)" using before by (metis drop_take)
    moreover have "drop ?s (take (i - 1) LT) @ drop (i - 1) (take (p + m) LT) = drop ?s (take (p + m) LT)"
    proof -
      have "take (p + m) LT = take (i - 1) LT @ drop (i - 1) (take (p + m) LT)"
        using im by (metis append_take_drop_id diff_le_self le_trans min.absorb1 take_take)
      moreover have "?s \<le> length (take (i - 1) LT)" using new(1) im ae(3) by simp
      ultimately show ?thesis by (metis append_Nil2 diff_is_0_eq drop_0 drop_append)
    qed
    ultimately have "tl (mergeLog n ?es) = drop ?s (take (p + m) LT)" using m rest by simp
    moreover have "LT ! (?s - 1) = X ! (?s - 1)" if "?s \<noteq> 0"
      using snap that by (metis diff_less nth_take zero_less_iff_neq_zero zero_less_one)
    ultimately have "view (take (p + m) LT) (n\<lparr>entries := mergeLog n ?es\<rparr>)"
      using ok(2) new(1) im ae(3) by (auto simp: view_def)
    moreover have "\<not> has LT k t" if "p + m < k" "has X k t" for k t
    proof
      assume "has LT k t"
      then have "take k X = take k LT" "k \<le> length X" using take_agree [OF coh that(2)] that(2) by (auto simp: has_def)
      then show False using new(2) that(1) im(2) by (metis dual_order.trans less_imp_le min.absorb1 take_take)
    qed
    then have "overwrite LT X (take (p + m) LT)" using ae(3) by (auto simp: overwrite_def)
    ultimately show thesis using that [of "take (p + m) LT"] ae(3) by simp
  qed
qed

section \<open>Compaction and snapshots\<close>

lemma rebase_fields [simp]:
  "snapshotIndex (rebase n d i t data kept) = i" "snapshotTerm (rebase n d i t data kept) = t"
  "tl (entries (rebase n d i t data kept)) = kept" "commitIndex (rebase n d i t data kept) = commitIndex n"
  "lastApplied (rebase n d i t data kept) = lastApplied n" "currentTerm (rebase n d i t data kept) = currentTerm n"
  "role (rebase n d i t data kept) = role n" "matchIndex (rebase n d i t data kept) = matchIndex n"
  "goroutines (rebase n d i t data kept) = goroutines n"
  by (simp_all add: rebase_def)

lemma view_rebase:
  assumes "log_ok n" "view X n" "snapshotIndex n < i" "has X i t"
  shows "view X (rebase n d i t data (drop (Suc i - snapshotIndex n) (entries n)))"
proof -
  have "drop (Suc i - snapshotIndex n) (entries n) = drop (i - snapshotIndex n) (drop (snapshotIndex n) X)"
    using view_entries(1) [OF assms(1,2)] assms(3) by (simp add: Suc_diff_le)
  then show ?thesis using assms(3,4) by (simp add: view_def has_def)
qed

lemma view_compacted:
  assumes "log_ok n" "view X n" "snapshotIndex n < lastApplied n" "lastApplied n \<le> lastIndex n"
  shows "view X (compacted n)"
proof -
  have i: "lastApplied n \<le> length X" using assms view_entries(3) by metis
  then have "termAt n (lastApplied n) = Some (Term (X ! (lastApplied n - 1)))"
    using assms(3) by (simp add: view_termAt [OF assms(1,2)] has_def)
  moreover have "has X (lastApplied n) (Term (X ! (lastApplied n - 1)))" using i assms(3) by (simp add: has_def)
  ultimately show ?thesis using view_rebase [OF assms(1-3)] by (simp add: compacted_def Let_def)
qed

lemma adopt_view:
  fixes n :: "('s, 'm) Node"
  assumes ok: "log_ok n" "view X n" and coh: "coh L X" "coh L LT" and i: "snapshotIndex n < i" "has LT i t"
  obtains X' where "view X' (rebase n d i t data (keptBy n i t))" "overwrite LT X X'" "i \<le> length X'" "take i X' = take i LT"
proof (cases "termAt n i = Some t")
  case True
  then have h: "has X i t" "i \<le> length X" using i(1) by (auto simp: view_termAt [OF ok])
  then have "view X (rebase n d i t data (keptBy n i t))" using view_rebase [OF ok i(1)] True by (simp add: keptBy_def)
  then show thesis using that [of X] h take_agree [OF coh h(1) i(2)] by (simp add: overwrite_def)
next
  case False
  have len: "i \<le> length LT" "0 < i" using i(2) by (auto simp: has_def)
  have "view (take i LT) (rebase n d i t data (keptBy n i t))" using False i(2) len by (auto simp: view_def keptBy_def has_def)
  moreover have "\<not> has LT j u" if "i < j" "has X j u" for j u
  proof
    assume "has LT j u"
    then have "take j X = take j LT" "j \<le> length X" using take_agree [OF coh that(2)] that(2) by (auto simp: has_def)
    then have "has X i t" using has_prefix [of j X LT i t] i(2) that(1) by simp
    then show False using False i(1) that(1) \<open>j \<le> length X\<close> by (simp add: view_termAt [OF ok])
  qed
  then have "overwrite LT X (take i LT)" using len by (auto simp: overwrite_def)
  ultimately show thesis using that [of "take i LT"] len by simp
qed

end
