(* ===== verification/Cluster.thy ===== *)
theory Cluster
  imports Waiters
begin

text \<open>
  A whole cluster: the servers that \<open>src/internal/cluster/cluster.go\<close> starts over in-memory
  stores and the jukebox, the messages between them, and crashes and restarts.

  The network (\<open>src/internal/transport\<close>) may lose, delay, duplicate and reorder: \<open>net\<close> is the
  set of all messages ever sent, and a step may deliver any of them or none.  An RPC is a
  request and, paired with it, the answer its handler gave.  The vote rounds a candidate has
  running are explicit (\<open>rounds\<close>), because each of their goroutines counts at most one answer.
  The replication loops are the steps \<open>send_entries\<close> and \<open>send_snapshot\<close>, which a leader may
  take at any time for any peer.  A crash loses everything but the store.
\<close>

section \<open>Starting servers\<close>

record Options =
  oHeartbeatInterval :: int
  oElectionTimeoutMin :: int
  oElectionTimeoutMax :: int
  oSnapshotThreshold :: int

definition DefaultOptions :: Options where
  "DefaultOptions = \<lparr>oHeartbeatInterval = 20 * Millisecond, oElectionTimeoutMin = 150 * Millisecond,
     oElectionTimeoutMax = 300 * Millisecond, oSnapshotThreshold = 1000\<rparr>"

definition nodeConfig :: "Options \<Rightarrow> nodeid list \<Rightarrow> nodeid \<Rightarrow> (MemStore, State) Config" where
  "nodeConfig opts ids i = \<lparr>ID = i, Peers = ids, cfgStorage = Some MemStorage, cfgTransport = Some i,
     cfgStateMachine = Some Jukebox_SM, HeartbeatInterval = oHeartbeatInterval opts,
     ElectionTimeoutMin = oElectionTimeoutMin opts, ElectionTimeoutMax = oElectionTimeoutMax opts,
     SnapshotThreshold = oSnapshotThreshold opts, DisablePreVote = False\<rparr>"

text \<open>\<open>None\<close> is the panic of \<open>startNode\<close> when \<open>raft.New\<close> fails.\<close>

definition startNode :: "Options \<Rightarrow> nodeid list \<Rightarrow> env \<Rightarrow> nodeid \<Rightarrow> MemStore \<Rightarrow> (MemStore, State) Node option" where
  "startNode opts ids e i d =
     (case New (nodeConfig opts ids i) d New_jukebox of Inl err \<Rightarrow> None | Inr n \<Rightarrow> Some (Start e n))"

section \<open>Messages and rounds\<close>

datatype msg =
    RV nodeid nodeid RequestVoteRequest
  | RVR nodeid nodeid RequestVoteRequest RequestVoteResponse
  | AE nodeid nodeid AppendEntriesRequest
  | AER nodeid nodeid AppendEntriesRequest AppendEntriesResponse
  | IS nodeid nodeid InstallSnapshotRequest
  | ISR nodeid nodeid InstallSnapshotRequest InstallSnapshotResponse
  | ReadAE nodeid nodeid AppendEntriesRequest
  | ReadAER nodeid nodeid AppendEntriesRequest AppendEntriesResponse

text \<open>A running \<open>gatherVotes\<close>: its arguments, its counters, and the peers it still waits for.\<close>

record round =
  rReq :: RequestVoteRequest
  rCount :: voteRound
  rLeft :: "nodeid list"

record sys =
  nodes :: "nodeid \<Rightarrow> (MemStore, State) Node"
  up :: "nodeid \<Rightarrow> bool"
  net :: "msg set"
  rounds :: "nodeid \<Rightarrow> round list"

definition setNode :: "sys \<Rightarrow> nodeid \<Rightarrow> (MemStore, State) Node \<Rightarrow> sys" where
  "setNode s p n = s\<lparr>nodes := (nodes s)(p := n)\<rparr>"

definition send :: "sys \<Rightarrow> msg set \<Rightarrow> sys" where
  "send s ms = s\<lparr>net := net s \<union> ms\<rparr>"

definition setRounds :: "sys \<Rightarrow> nodeid \<Rightarrow> round list \<Rightarrow> sys" where
  "setRounds s p rs = s\<lparr>rounds := (rounds s)(p := rs)\<rparr>"

text \<open>The round a campaigning goroutine runs; \<open>PreVote\<close> tells the two kinds apart.\<close>

definition taskRound :: "(MemStore, State) Node \<Rightarrow> task \<Rightarrow> round option" where
  "taskRound n tk =
     (case tk of
        Campaign b li lt \<Rightarrow> Some \<lparr>rReq = gatherVotes_request n (add64 b 1) li lt True, rCount = newRound, rLeft = peers n\<rparr>
      | GatherVotes t li lt pv \<Rightarrow> Some \<lparr>rReq = gatherVotes_request n t li lt pv, rCount = newRound, rLeft = peers n\<rparr>
      | _ \<Rightarrow> None)"

section \<open>Steps\<close>

text \<open>
  \<open>reads\<close> tells whether the cluster serves linearizable reads, whose heartbeats are messages of
  their own.
\<close>

inductive sys_step :: "bool \<Rightarrow> Options \<Rightarrow> nodeid list \<Rightarrow> sys \<Rightarrow> sys \<Rightarrow> bool" for reads opts ids where
  tick: "p \<in> set ids \<Longrightarrow> up s p \<Longrightarrow> room (nodes s p) \<Longrightarrow> term_room (nodes s p) \<Longrightarrow>
    sys_step reads opts ids s (setNode s p (electionTick e (nodes s p)))"
| spawn: "p \<in> set ids \<Longrightarrow> up s p \<Longrightarrow> goroutines (nodes s p) = g1 @ tk # g2 \<Longrightarrow> taskRound (nodes s p) tk = Some r \<Longrightarrow>
    sys_step reads opts ids s
      (send (setRounds (setNode s p ((nodes s p)\<lparr>goroutines := g1 @ g2\<rparr>)) p (rounds s p @ [r]))
         {RV p q (rReq r) | q. q \<in> set (peers (nodes s p))})"
| deliver_rv: "p \<in> set ids \<Longrightarrow> up s p \<Longrightarrow> RV c p rv \<in> net s \<Longrightarrow> RequestVote e (nodes s p) rv = (n', resp) \<Longrightarrow>
    sys_step reads opts ids s (send (setNode s p n') {RVR p c rv resp})"
| deliver_rvr: "c \<in> set ids \<Longrightarrow> up s c \<Longrightarrow> room (nodes s c) \<Longrightarrow> RVR p c rv resp \<in> net s \<Longrightarrow>
    rounds s c = r1 @ r # r2 \<Longrightarrow> rReq r = rv \<Longrightarrow> p \<in> set (rLeft r) \<Longrightarrow>
    gatherVotes_reply (nodes s c) (rCount r) (rvTerm rv) (PreVote rv) resp = (n', cnt) \<Longrightarrow>
    sys_step reads opts ids s
      (setRounds (setNode s c n') c (r1 @ r\<lparr>rCount := cnt, rLeft := removeAll p (rLeft r)\<rparr> # r2))"
| rv_failed: "rounds s c = r1 @ r # r2 \<Longrightarrow>
    sys_step reads opts ids s (setRounds s c (r1 @ r\<lparr>rLeft := removeAll p (rLeft r)\<rparr> # r2))"
| campaign_done: "p \<in> set ids \<Longrightarrow> up s p \<Longrightarrow> room (nodes s p) \<Longrightarrow> term_room (nodes s p) \<Longrightarrow>
    rounds s p = r1 @ r # r2 \<Longrightarrow> rLeft r = [] \<Longrightarrow> PreVote (rReq r) \<Longrightarrow> rvTerm (rReq r) = add64 b 1 \<Longrightarrow>
    sys_step reads opts ids s
      (setRounds (setNode s p (campaign_finish e (nodes s p) b (LastLogIndex (rReq r)) (LastLogTerm (rReq r))
           (gatherVotes_result (nodes s p) (rCount r)))) p (r1 @ r2))"
| send_entries: "p \<in> set ids \<Longrightarrow> up s p \<Longrightarrow> q \<in> set (peers (nodes s p)) \<Longrightarrow>
    sendAppendEntries (nodes s p) q = SendEntries ae \<Longrightarrow>
    sys_step reads opts ids s (send s {AE p q ae})"
| deliver_ae: "q \<in> set ids \<Longrightarrow> up s q \<Longrightarrow> AE p q ae \<in> net s \<Longrightarrow> AppendEntries e (nodes s q) ae = (n', resp) \<Longrightarrow>
    sys_step reads opts ids s (send (setNode s q n') {AER q p ae resp})"
| deliver_aer: "p \<in> set ids \<Longrightarrow> up s p \<Longrightarrow> AER q p ae resp \<in> net s \<Longrightarrow>
    sys_step reads opts ids s (setNode s p (sendAppendEntries_reply (nodes s p) q ae resp))"
| send_snapshot: "p \<in> set ids \<Longrightarrow> up s p \<Longrightarrow> q \<in> set (peers (nodes s p)) \<Longrightarrow> sendSnapshot (nodes s p) t = Some is \<Longrightarrow>
    sys_step reads opts ids s (send s {IS p q is})"
| deliver_is: "q \<in> set ids \<Longrightarrow> up s q \<Longrightarrow> IS p q is \<in> net s \<Longrightarrow> InstallSnapshot e (nodes s q) is = (n', resp) \<Longrightarrow>
    sys_step reads opts ids s (send (setNode s q n') {ISR q p is resp})"
| deliver_isr: "p \<in> set ids \<Longrightarrow> up s p \<Longrightarrow> ISR q p is resp \<in> net s \<Longrightarrow>
    sys_step reads opts ids s (setNode s p (sendSnapshot_reply (nodes s p) q is resp))"
| propose: "p \<in> set ids \<Longrightarrow> up s p \<Longrightarrow> room (nodes s p) \<Longrightarrow>
    sys_step reads opts ids s (setNode s p (fst (Propose (nodes s p) c)))"
| submit: "p \<in> set ids \<Longrightarrow> up s p \<Longrightarrow> room (nodes s p) \<Longrightarrow>
    sys_step reads opts ids s (setNode s p (fst (Submit (nodes s p) c)))"
| wake: "p \<in> set ids \<Longrightarrow> up s p \<Longrightarrow> Submit_wake (nodes s p) i ch wk = Some (n', res) \<Longrightarrow>
    sys_step reads opts ids s (setNode s p n')"
| apply_ready: "p \<in> set ids \<Longrightarrow> up s p \<Longrightarrow> applyCh (nodes s p) \<Longrightarrow>
    sys_step reads opts ids s (setNode s p (applyReady ((nodes s p)\<lparr>applyCh := False\<rparr>)))"
| crash: "p \<in> set ids \<Longrightarrow>
    sys_step reads opts ids s (setRounds (s\<lparr>up := (up s)(p := False)\<rparr>) p [])"
| restart: "p \<in> set ids \<Longrightarrow> \<not> up s p \<Longrightarrow> startNode opts ids e p (disk (nodes s p)) = Some n' \<Longrightarrow>
    sys_step reads opts ids s (setNode (s\<lparr>up := (up s)(p := True)\<rparr>) p n')"
| read_send: "reads \<Longrightarrow> p \<in> set ids \<Longrightarrow> up s p \<Longrightarrow> q \<in> set (peers (nodes s p)) \<Longrightarrow> c \<le> commitIndex (nodes s p) \<Longrightarrow>
    confirmLeadership_request (nodes s p) t c q = Some ae \<Longrightarrow>
    sys_step reads opts ids s (send s {ReadAE p q ae})"
| read_deliver: "q \<in> set ids \<Longrightarrow> up s q \<Longrightarrow> ReadAE p q ae \<in> net s \<Longrightarrow> AppendEntries e (nodes s q) ae = (n', resp) \<Longrightarrow>
    sys_step reads opts ids s (send (setNode s q n') {ReadAER q p ae resp})"
| read_reply: "p \<in> set ids \<Longrightarrow> up s p \<Longrightarrow> ReadAER q p ae resp \<in> net s \<Longrightarrow>
    sys_step reads opts ids s (setNode s p (fst (confirmLeadership_reply (nodes s p) (aeTerm ae) resp)))"

text \<open>The cluster as \<open>cluster.New\<close> leaves it.\<close>

definition initial :: "Options \<Rightarrow> nodeid list \<Rightarrow> sys \<Rightarrow> bool" where
  "initial opts ids s \<longleftrightarrow> net s = {} \<and> (\<forall>p. rounds s p = []) \<and>
     (\<forall>p\<in>set ids. up s p \<and> (\<exists>e. startNode opts ids e p NewMemStore = Some (nodes s p)))"

inductive reachable :: "bool \<Rightarrow> Options \<Rightarrow> nodeid list \<Rightarrow> sys \<Rightarrow> bool" for reads opts ids where
  init: "initial opts ids s \<Longrightarrow> reachable reads opts ids s"
| step: "reachable reads opts ids s \<Longrightarrow> sys_step reads opts ids s s' \<Longrightarrow> reachable reads opts ids s'"

text \<open>Server names are distinct and not empty (an empty \<open>votedFor\<close> means no vote).\<close>

definition cluster_ok :: "nodeid list \<Rightarrow> bool" where
  "cluster_ok ids \<longleftrightarrow> distinct ids \<and> '''' \<notin> set ids"

end
