(* ===== verification/ClusterFacts.thy ===== *)
theory ClusterFacts
  imports Cluster
begin

text \<open>
  What every step of the cluster keeps, whatever the messages say: who the servers are, that
  their logs are well formed and their stores hold what a restart needs, and that the requests
  in the network have the shape a leader gives them.
\<close>

section \<open>Fields no step changes\<close>

definition fixed :: "('s, 'm) Node \<Rightarrow> ('s, 'm) Node \<Rightarrow> bool" where
  "fixed n n' \<longleftrightarrow> nid n' = nid n \<and> peers n' = peers n \<and> quorum n' = quorum n \<and> cfg n' = cfg n \<and>
     sm_if n' = sm_if n \<and> store_if n' = store_if n"

lemma fixed_refl [simp]: "fixed n n"
  by (simp add: fixed_def)

lemma fixed_trans: "fixed a b \<Longrightarrow> fixed b c \<Longrightarrow> fixed a c"
  by (simp add: fixed_def)

lemma fixed_stepDown: "fixed n (stepDown t n)"
  by (simp add: fixed_def stepDown_conv)

lemma fixed_heard: "fixed n (heard e n t l)"
  by (simp add: fixed_def)

lemma fixed_RequestVote: "fixed n (fst (RequestVote e n rv))"
  by (simp add: fixed_def RequestVote_def go_defs Let_def)

lemma fixed_AppendEntries: "log_ok n \<Longrightarrow> req_ok ae \<Longrightarrow> fixed n (fst (AppendEntries e n ae))"
proof (cases "accepts n ae")
  case True
  assume "log_ok n" "req_ok ae"
  then show ?thesis by (simp add: AppendEntries_accept [OF _ _ True refl] fixed_def commitTo_conv)
qed (simp add: AppendEntries_reject fixed_heard)

lemma fixed_adopt: "fixed n (adoptSnapshot n is)"
  by (simp add: adoptSnapshot_def fixed_def Let_def go_defs case_prod_beta)

lemma fixed_InstallSnapshot: "fixed n (fst (InstallSnapshot e n is))"
proof -
  have "fixed n ((heard e n (isTerm is) (isLeaderId is))\<lparr>sm := m\<rparr>)" for m
    by (simp add: fixed_def)
  then show ?thesis
    by (auto simp: InstallSnapshot_conv Let_def fixed_heard intro!: fixed_trans [OF _ fixed_adopt] split: prod.split option.split)
qed

lemma fixed_append_reply: "fixed n (sendAppendEntries_reply n p ae aer)"
  by (simp add: sendAppendEntries_reply_def fixed_def go_defs Let_def)

lemma fixed_snapshot_reply: "fixed n (sendSnapshot_reply n p is isr)"
  by (simp add: sendSnapshot_reply_def fixed_stepDown) (simp add: fixed_def)

lemma fixed_becomeLeader: "fixed n (becomeLeaderLocked n)"
  by (simp add: becomeLeaderLocked_def appendOwn_conv fixed_def go_defs Let_def)

lemma fixed_electing: "fixed n (electing e n)" "fixed n (canvassing e n)"
  by (simp_all add: fixed_def)

lemma fixed_goroutines: "fixed n (n\<lparr>goroutines := g\<rparr>)"
  by (simp add: fixed_def)

lemma fixed_startReal: "fixed n (startRealElectionLocked e n li lt)"
  by (simp add: startRealElection_conv fixed_trans [OF fixed_electing(1) fixed_becomeLeader]
      fixed_trans [OF fixed_electing(1) fixed_goroutines])

lemma fixed_tick: "fixed n (electionTick e n)"
  by (simp add: electionTick_def beginCampaign_conv fixed_trans [OF fixed_electing(2) fixed_startReal]
      fixed_trans [OF fixed_electing(2) fixed_goroutines])

lemma fixed_vote_reply: "fixed n (fst (gatherVotes_reply n r t pv resp))"
  by (simp add: gatherVotes_reply_def Let_def fixed_stepDown fixed_becomeLeader)

lemma fixed_Propose: "fixed n (fst (Propose n c))"
  by (simp add: Propose_def case_prod_beta appendOwn_conv go_defs fixed_def)

lemma fixed_Submit: "fixed n (fst (Submit n c))"
  by (simp add: Submit_def case_prod_beta appendOwn_conv go_defs fixed_def Let_def)

lemma fixed_wake: "Submit_wake n i c wk = Some (n', r) \<Longrightarrow> fixed n n'"
  by (auto simp: Submit_wake_def fixed_def split: submitWake.splits option.splits if_splits)

lemma fixed_maybeSnapshot: "fixed n (maybeSnapshotLocked n)"
  by (simp add: maybeSnapshotLocked_def Let_def go_defs fixed_def split: option.split prod.split)

lemma fixed_applyReady: "fixed n (applyReady n)"
proof -
  have "fixed n (applyAll n)" by (simp add: fixed_def)
  then show ?thesis by (simp add: applyReady_def Let_def fixed_trans [OF _ fixed_maybeSnapshot])
qed

lemma fixed_drop: "fixed n (fold (drop_pending chan_send err) ks n)"
proof (induction ks arbitrary: n)
  case (Cons k ks)
  have "fixed n (drop_pending chan_send err k n)"
    by (simp add: drop_pending_def chan_send_def fixed_def Let_def split: option.split)
  then show ?case using Cons.IH fixed_trans by auto
qed simp

lemma fixed_Stop: "fixed n (Stop n)"
proof -
  define n1 where "n1 = cancelLeaderCtx (if stopped n then n\<lparr>running := False, fault := Some Panic\<rparr>
     else n\<lparr>running := False, stopped := True\<rparr>)"
  have "fixed n n1" by (simp add: n1_def cancelLeaderCtx_conv fixed_def)
  then have "fixed n (fold (drop_pending chan_send ErrStopped) (keys_sorted (pending n1)) n1)"
    by (rule fixed_trans [OF _ fixed_drop])
  then show ?thesis by (simp add: Stop_def Let_def n1_def split: if_splits)
qed

lemma fixed_Start: "fixed n (Start e n)"
  by (simp add: Start_def Let_def go_defs fixed_def)

lemmas fixed_ops = fixed_stepDown fixed_RequestVote fixed_AppendEntries fixed_InstallSnapshot fixed_append_reply
  fixed_snapshot_reply fixed_startReal fixed_tick fixed_vote_reply fixed_Propose fixed_Submit fixed_wake
  fixed_applyReady fixed_Stop fixed_Start fixed_goroutines

lemma node_step_fixed: "node_step n n' \<Longrightarrow> log_ok n \<Longrightarrow> fixed n n'"
proof (induction rule: node_step.induct)
  case (take_signal n)
  show ?case by (simp add: fixed_def)
qed (auto simp: campaign_finish_def confirmLeadership_reply_def intro: fixed_ops)

section \<open>The requests a leader builds\<close>

lemma sendAppendEntries_spec:
  assumes "log_ok n" "sendAppendEntries n q = SendEntries ae"
  shows "role n = Leader" "aeTerm ae = currentTerm n" "aeLeaderId ae = nid n" "LeaderCommit ae = commitIndex n"
    "snapshotIndex n \<le> PrevLogIndex ae" "PrevLogIndex ae \<le> lastIndex n"
    "termAt n (PrevLogIndex ae) = Some (PrevLogTerm ae)"
    "aeEntries ae = drop (Suc (PrevLogIndex ae) - snapshotIndex n) (entries n)"
proof -
  define ni where "ni = mget (nextIndex n) q"
  have ni: "role n = Leader" "snapshotIndex n < ni"
    and t: "termAt n (ni - 1) = Some (PrevLogTerm ae)"
    and ae: "ae = \<lparr>aeTerm = currentTerm n, aeLeaderId = nid n, PrevLogIndex = ni - 1, PrevLogTerm = PrevLogTerm ae,
                aeEntries = sliceFrom n ni, LeaderCommit = commitIndex n\<rparr>"
    using assms(2) by (auto simp: sendAppendEntries_def ni_def Let_def split: if_splits option.splits)
  have p: "PrevLogIndex ae = ni - 1" by (subst ae) simp
  have "sliceFrom n ni = drop (Suc (ni - 1) - snapshotIndex n) (entries n)"
    using ni(2) sliceFrom_eq [OF assms(1)] by simp
  then show "aeEntries ae = drop (Suc (PrevLogIndex ae) - snapshotIndex n) (entries n)"
    by (subst (1 2) ae) simp
  show "role n = Leader" by (rule ni)
  show "aeTerm ae = currentTerm n" "aeLeaderId ae = nid n" "LeaderCommit ae = commitIndex n"
    by (subst ae, simp)+
  show "termAt n (PrevLogIndex ae) = Some (PrevLogTerm ae)" using t p by simp
  then show "snapshotIndex n \<le> PrevLogIndex ae" "PrevLogIndex ae \<le> lastIndex n"
    using assms(1) by (auto simp: termAt_eq split: if_splits)
qed

lemma sendAppendEntries_req_ok:
  assumes "log_ok n" "sendAppendEntries n q = SendEntries ae"
  shows "req_ok ae"
proof -
  note sp = sendAppendEntries_spec [OF assms]
  have "contiguous (Suc (PrevLogIndex ae)) (aeEntries ae)"
    using contiguous_drop [of "snapshotIndex n" "entries n" "Suc (PrevLogIndex ae) - snapshotIndex n"] sp(5,8) assms(1)
    by (simp add: log_ok_def)
  moreover have "Suc (PrevLogIndex ae) + length (aeEntries ae) < two64"
    using sp(5,6,8) lastIndex_Suc [OF assms(1)] lastIndex_less [OF assms(1)] by simp
  ultimately show ?thesis by (simp add: req_ok_def)
qed

lemma confirmLeadership_request_spec:
  assumes "log_ok n" "confirmLeadership_request n t c q = Some ae"
  shows "role n = Leader" "currentTerm n = t" "aeTerm ae = t" "aeEntries ae = []" "LeaderCommit ae = c" "req_ok ae"
proof -
  show "role n = Leader" "currentTerm n = t" "aeTerm ae = t" "aeEntries ae = []" "LeaderCommit ae = c"
    using assms(2) by (auto simp: confirmLeadership_request_def Let_def split: if_splits option.splits)
  have "PrevLogIndex ae = 0 \<or> PrevLogIndex ae \<le> lastIndex n"
    using assms by (auto simp: confirmLeadership_request_def Let_def termAt_eq split: if_splits option.splits)
  then show "req_ok ae"
    using lastIndex_less [OF assms(1)] \<open>aeEntries ae = []\<close> by (auto simp: req_ok_def two64_def)
qed

lemma sendSnapshot_spec:
  assumes "sendSnapshot n t = Some is"
  shows "role n = Leader" "currentTerm n = t" "isTerm is = t" "isLeaderId is = nid n"
    "LastIncludedIndex is = snapshotIndex n" "LastIncludedTerm is = snapshotTerm n" "isData is = snapshotData n"
  using assms by (auto simp: sendSnapshot_def split: if_splits)

section \<open>The base invariant\<close>

fun msg_ok :: "msg \<Rightarrow> bool" where
  "msg_ok (AE p q ae) = req_ok ae"
| "msg_ok (ReadAE p q ae) = req_ok ae"
| "msg_ok (IS p q is) = (LastIncludedIndex is + 1 < two64)"
| "msg_ok _ = True"

definition member_ok :: "nodeid list \<Rightarrow> nodeid \<Rightarrow> (MemStore, State) Node \<Rightarrow> bool" where
  "member_ok ids p n \<longleftrightarrow> nid n = p \<and> peers n = filter (\<lambda>q. q \<noteq> p) ids \<and> quorum n = length ids div 2 + 1 \<and>
     sm_if n = Jukebox_SM \<and> persisted n \<and> wait_ok n"

definition base_ok :: "nodeid list \<Rightarrow> sys \<Rightarrow> bool" where
  "base_ok ids s \<longleftrightarrow> (\<forall>p\<in>set ids. member_ok ids p (nodes s p)) \<and> (\<forall>m\<in>net s. msg_ok m)"

lemma member_ok_step: "member_ok ids p n \<Longrightarrow> node_step n n' \<Longrightarrow> member_ok ids p n'"
  unfolding member_ok_def
  using node_step_fixed [of n n'] mem_reliable.node_step_durable [of n n'] wait_ok_node_step [of n n']
  by (auto simp: fixed_def)

lemma New_fixed:
  assumes "New c d m = Inr n" "cfgStorage c = Some S" "cfgStateMachine c = Some M"
  shows "sm_if n = M" "pending n = fmempty" "fault n = None" "goroutines n = []" "running n = False" "cfg n = withDefaults c"
    "stopped n = False" "applyCh n = False" "electionDeadline n = None"
proof -
  obtain M' where "cfgStateMachine c = Some M'" and "loadFromStorage (new_node (withDefaults c) S M' d m) = (n, None)"
    using assms(1,2) by (rule New_Inr)
  then have load: "loadFromStorage (new_node (withDefaults c) S M d m) = (n, None)" using assms(3) by simp
  have "\<exists>a b i t dt m' es ci la. n = (new_node (withDefaults c) S M d m)\<lparr>currentTerm := a, votedFor := b, snapshotIndex := i,
      snapshotTerm := t, snapshotData := dt, sm := m', entries := es, commitIndex := ci, lastApplied := la\<rparr>"
    using load by (auto simp: loadFromStorage_def Let_def split: prod.splits option.splits) blast+
  then show "sm_if n = M" "pending n = fmempty" "fault n = None" "goroutines n = []" "running n = False"
    "cfg n = withDefaults c" "stopped n = False" "applyCh n = False" "electionDeadline n = None"
    by (auto simp: new_node_def)
qed

lemma startNode_New:
  assumes "startNode opts ids e p d = Some n"
  obtains n0 where "New (nodeConfig opts ids p) d New_jukebox = Inr n0" "n = Start e n0"
  using assms by (auto simp: startNode_def split: sum.splits)

lemma member_ok_New:
  assumes "New (nodeConfig opts ids p) (disk n) New_jukebox = Inr n'" "persisted n"
  shows "member_ok ids p n'"
  using New_fields [OF assms(2,1)] New_fixed [OF assms(1)]
  by (auto simp: member_ok_def nodeConfig_def wait_ok_def pend_ok_def)

lemma member_ok_startNode:
  assumes "startNode opts ids e p (disk n) = Some n'" "persisted n"
  shows "member_ok ids p n'"
proof -
  obtain n0 where n0: "New (nodeConfig opts ids p) (disk n) New_jukebox = Inr n0" "n' = Start e n0"
    using assms(1) by (rule startNode_New)
  show ?thesis
    unfolding n0(2) using member_ok_New [OF n0(1) assms(2)] node_step.start by (rule member_ok_step)
qed

lemma member_ok_boot:
  assumes "startNode opts ids e p NewMemStore = Some n"
  shows "member_ok ids p n"
proof -
  obtain n0 where n0: "New (nodeConfig opts ids p) NewMemStore New_jukebox = Inr n0" "n = Start e n0"
    using assms by (rule startNode_New)
  then have "booted (nodeConfig opts ids p) n0" by (auto simp: booted_def nodeConfig_def)
  then have "persisted n0" by (rule booted_persisted)
  obtain M where "loadFromStorage (new_node (withDefaults (nodeConfig opts ids p)) MemStorage M NewMemStore New_jukebox) = (n0, None)"
    using n0(1) by (rule New_Inr) (simp_all add: nodeConfig_def)
  then have "disk n0 = NewMemStore"
    by (auto simp: loadFromStorage_def new_node_def mem_defs NewMemStore_def)
  then have "member_ok ids p n0" using member_ok_New [of opts ids p n0 n0] n0(1) \<open>persisted n0\<close> by simp
  then show ?thesis unfolding n0(2) using node_step.start by (rule member_ok_step)
qed

lemma setters [simp]:
  "nodes (setNode s p n) = (nodes s)(p := n)" "up (setNode s p n) = up s" "net (setNode s p n) = net s"
  "rounds (setNode s p n) = rounds s" "nodes (send s ms) = nodes s" "up (send s ms) = up s" "net (send s ms) = net s \<union> ms"
  "rounds (send s ms) = rounds s" "nodes (setRounds s p rs) = nodes s" "up (setRounds s p rs) = up s"
  "net (setRounds s p rs) = net s" "rounds (setRounds s p rs) = (rounds s)(p := rs)"
  by (simp_all add: setNode_def send_def setRounds_def)

lemma base_member: "base_ok ids s \<Longrightarrow> p \<in> set ids \<Longrightarrow> member_ok ids p (nodes s p)"
  by (simp add: base_ok_def)

lemma base_log_ok: "base_ok ids s \<Longrightarrow> p \<in> set ids \<Longrightarrow> log_ok (nodes s p)"
  by (simp add: base_ok_def member_ok_def)

lemma base_nodes: "base_ok ids s \<Longrightarrow> net s' = net s \<Longrightarrow> nodes s' = nodes s \<Longrightarrow> base_ok ids s'"
  by (simp add: base_ok_def)

lemma base_setNode: "base_ok ids s \<Longrightarrow> member_ok ids p n' \<Longrightarrow> base_ok ids (setNode s p n')"
  by (simp add: base_ok_def)

lemma base_send: "base_ok ids s \<Longrightarrow> (\<And>m. m \<in> ms \<Longrightarrow> msg_ok m) \<Longrightarrow> base_ok ids (send s ms)"
  by (auto simp: base_ok_def)

lemma base_setRounds [simp]: "base_ok ids (setRounds s p rs) = base_ok ids s"
  by (simp add: base_ok_def)

lemma base_up [simp]: "base_ok ids (s\<lparr>up := u\<rparr>) = base_ok ids s"
  by (simp add: base_ok_def)

text \<open>
  What a step does to the servers: at most one of them changes, by steps of its own or by a
  restart from its store.
\<close>

lemma sys_step_node:
  assumes "sys_step reads opts ids s s'" "base_ok ids s"
  obtains "nodes s' = nodes s"
  | p n' where "p \<in> set ids" "nodes s' = (nodes s)(p := n')" "node_step\<^sup>*\<^sup>* (nodes s p) n'"
  | p n' e where "p \<in> set ids" "nodes s' = (nodes s)(p := n')" "startNode opts ids e p (disk (nodes s p)) = Some n'"
  using assms(1)
proof (cases rule: sys_step.cases)
  case (tick p e)
  then show ?thesis by (intro that(2)) (auto intro: node_step.tick)
next
  case (spawn p g1 tk g2 r)
  then show ?thesis by (intro that(2)) (auto intro: node_step.take_task)
next
  case (deliver_rv p c rv e n' resp)
  then have "node_step (nodes s p) n'" using node_step.request_vote [of "nodes s p" e rv] by simp
  then show ?thesis using deliver_rv by (intro that(2)) auto
next
  case (deliver_rvr c p rv resp r1 r r2 n' cnt)
  then have "node_step (nodes s c) n'"
    using node_step.vote_reply [of "nodes s c" "rCount r" "rvTerm rv" "PreVote rv" resp] by simp
  then show ?thesis using deliver_rvr by (intro that(2)) auto
next
  case (campaign_done p r1 r r2 b e)
  then show ?thesis by (intro that(2)) (auto intro: node_step.campaign)
next
  case (deliver_ae q p ae e n' resp)
  then have "node_step (nodes s q) n'"
    using node_step.append_entries [of ae "nodes s q" e] assms(2) by (auto simp: base_ok_def)
  then show ?thesis using deliver_ae by (intro that(2)) auto
next
  case (deliver_aer p q ae resp)
  then show ?thesis by (intro that(2)) (auto intro: node_step.append_reply)
next
  case (deliver_is q p "is" e n' resp)
  then have "node_step (nodes s q) n'"
    using node_step.install_snapshot [of "is" "nodes s q" e] assms(2) by (auto simp: base_ok_def)
  then show ?thesis using deliver_is by (intro that(2)) auto
next
  case (deliver_isr p q "is" resp)
  then show ?thesis by (intro that(2)) (auto intro: node_step.snapshot_reply)
next
  case (propose p c)
  then show ?thesis by (intro that(2)) (auto intro: node_step.propose)
next
  case (submit p c)
  then show ?thesis by (intro that(2)) (auto intro: node_step.submit)
next
  case (wake p i ch wk n' res)
  then show ?thesis by (intro that(2)) (auto intro: node_step.submit_wake)
next
  case (apply_ready p)
  have "node_step\<^sup>*\<^sup>* (nodes s p) (applyReady ((nodes s p)\<lparr>applyCh := False\<rparr>))"
    using node_step.take_signal r_into_rtranclp [of node_step, OF node_step.apply_ready]
    by (rule converse_rtranclp_into_rtranclp)
  then show ?thesis using apply_ready by (intro that(2)) auto
next
  case (restart p e n')
  then show ?thesis by (intro that(3)) auto
next
  case (read_deliver q p ae e n' resp)
  then have "node_step (nodes s q) n'"
    using node_step.append_entries [of ae "nodes s q" e] assms(2) by (auto simp: base_ok_def)
  then show ?thesis using read_deliver by (intro that(2)) auto
next
  case (read_reply p q ae resp)
  then show ?thesis by (intro that(2)) (auto intro: node_step.confirm_reply)
qed (auto intro: that(1))

lemma member_ok_steps: "node_step\<^sup>*\<^sup>* n n' \<Longrightarrow> member_ok ids p n \<Longrightarrow> member_ok ids p n'"
  by (induction rule: rtranclp_induct) (auto intro: member_ok_step)

lemma sys_step_net:
  assumes "sys_step reads opts ids s s'" "base_ok ids s"
  shows "net s \<subseteq> net s'" "\<forall>m\<in>net s'. msg_ok m"
proof -
  show "net s \<subseteq> net s'" using assms(1) by (cases rule: sys_step.cases) auto
  have old: "\<forall>m\<in>net s. msg_ok m" using assms(2) by (simp add: base_ok_def)
  show "\<forall>m\<in>net s'. msg_ok m" using assms(1)
  proof (cases rule: sys_step.cases)
    case (send_entries p q ae)
    then show ?thesis using old sendAppendEntries_req_ok [OF base_log_ok [OF assms(2)]] by auto
  next
    case (send_snapshot p q t "is")
    have "snapshotIndex (nodes s p) + 1 < two64"
      using snapshotIndex_le_last lastIndex_less base_log_ok [OF assms(2) send_snapshot(2)] by fastforce
    then show ?thesis using old send_snapshot sendSnapshot_spec(5) [OF send_snapshot(5)] by simp
  next
    case (read_send p q c t ae)
    then show ?thesis using old confirmLeadership_request_spec(6) [OF base_log_ok [OF assms(2)]] by auto
  qed (use old in auto)
qed

lemma base_ok_step: "sys_step reads opts ids s s' \<Longrightarrow> base_ok ids s \<Longrightarrow> base_ok ids s'"
proof -
  assume st: "sys_step reads opts ids s s'" and b: "base_ok ids s"
  have "\<forall>p\<in>set ids. member_ok ids p (nodes s' p)"
    using st b
  proof (cases rule: sys_step_node)
    case (2 p n')
    then show ?thesis using b member_ok_steps by (auto simp: base_ok_def)
  next
    case (3 p n' e)
    have "persisted (nodes s p)" using b 3(1) by (auto simp: base_ok_def member_ok_def)
    with 3(3) have "member_ok ids p n'" by (rule member_ok_startNode)
    then show ?thesis using b 3(2) by (auto simp: base_ok_def)
  qed (use b in \<open>simp add: base_ok_def\<close>)
  then show ?thesis using sys_step_net [OF st b] by (simp add: base_ok_def)
qed

lemma base_ok_initial: "initial opts ids s \<Longrightarrow> base_ok ids s"
  by (auto simp: initial_def base_ok_def intro: member_ok_boot)

lemma reachable_base: "reachable reads opts ids s \<Longrightarrow> base_ok ids s"
  by (induction rule: reachable.induct) (auto intro: base_ok_initial base_ok_step)

section \<open>Terms and votes across the cluster\<close>

lemma startNode_votes:
  assumes "startNode opts ids e p (disk n) = Some n'" "persisted n"
  shows "currentTerm n' = currentTerm n" "votedFor n' = votedFor n" "role n' = Follower" "entries n' = entries n"
    "snapshotIndex n' = snapshotIndex n" "snapshotTerm n' = snapshotTerm n" "snapshotData n' = snapshotData n"
    "commitIndex n' = snapshotIndex n" "lastApplied n' = snapshotIndex n" "goroutines n' = [ElectionLoop, ApplyLoop]"
proof -
  obtain n0 where n0: "New (nodeConfig opts ids p) (disk n) New_jukebox = Inr n0" "n' = Start e n0"
    using assms(1) by (rule startNode_New)
  have c: "cfgStorage (nodeConfig opts ids p) = Some MemStorage" by (simp add: nodeConfig_def)
  have run: "running n0 = False" "goroutines n0 = []" using New_fixed [OF n0(1)] by (simp_all add: nodeConfig_def)
  show "currentTerm n' = currentTerm n" "votedFor n' = votedFor n" "role n' = Follower" "entries n' = entries n"
    "snapshotIndex n' = snapshotIndex n" "snapshotTerm n' = snapshotTerm n" "snapshotData n' = snapshotData n"
    "commitIndex n' = snapshotIndex n" "lastApplied n' = snapshotIndex n" "goroutines n' = [ElectionLoop, ApplyLoop]"
    using New_fields [OF assms(2) n0(1) c] run by (simp_all add: n0(2) Start_def go_defs Let_def)
qed

lemma node_steps_votes: "node_step\<^sup>*\<^sup>* n n' \<Longrightarrow> log_ok n \<Longrightarrow> votes_kept n n' \<and> log_ok n'"
proof (induction rule: rtranclp_induct)
  case (step a b)
  then show ?case using core_step_votes node_step_core node_step_log_ok votes_kept_trans by blast
qed simp

lemma sys_step_votes:
  assumes "sys_step reads opts ids s s'" "base_ok ids s" "p \<in> set ids"
  shows "votes_kept (nodes s p) (nodes s' p)"
  using assms(1,2)
proof (cases rule: sys_step_node)
  case (2 q n')
  then show ?thesis using node_steps_votes base_log_ok [OF assms(2)] by auto
next
  case (3 q n' e)
  have "persisted (nodes s q)" using base_member [OF assms(2) 3(1)] by (simp add: member_ok_def)
  then show ?thesis using startNode_votes(1,2) [OF 3(3)] 3(2) by (auto simp: votes_kept_def)
qed simp

end
