(* ===== verification/ElectionSafety.thy ===== *)
theory ElectionSafety
  imports ClusterFacts
begin

text \<open>
  Election safety: at most one leader per term, over any execution with lost, duplicated and
  reordered messages, crashes and restarts.  The invariant \<open>elect_ok\<close> relates the votes the
  servers have stored, the answers in the network and the vote rounds; that two leaders of one
  term are the same server is then the intersection of two majorities.
\<close>

section \<open>Steps that elect nobody\<close>

definition calm :: "('s, 'm) Node \<Rightarrow> ('s, 'm) Node \<Rightarrow> bool" where
  "calm n n' \<longleftrightarrow> (role n' = Leader \<longrightarrow> role n = Leader \<and> currentTerm n' = currentTerm n) \<and>
     set (goroutines n') \<subseteq> set (goroutines n)"

lemma calm_refl [simp]: "calm n n"
  by (simp add: calm_def)

lemma calm_trans: "calm a b \<Longrightarrow> calm b c \<Longrightarrow> calm a c"
  by (auto simp: calm_def)

lemma calm_stepDown: "calm n (stepDown t n)"
  by (simp add: calm_def stepDown_conv)

lemma calm_heard: "calm n (heard e n t l)"
  by (simp add: calm_def heard_def go_defs)

lemma calm_RequestVote: "calm n (fst (RequestVote e n rv))"
  by (simp add: calm_def RequestVote_def go_defs Let_def)

lemma calm_AppendEntries: "log_ok n \<Longrightarrow> req_ok ae \<Longrightarrow> calm n (fst (AppendEntries e n ae))"
proof (cases "accepts n ae")
  case True
  assume "log_ok n" "req_ok ae"
  then show ?thesis
    using calm_heard [of n e "aeTerm ae" "aeLeaderId ae"]
    by (simp add: AppendEntries_accept [OF _ _ True refl] calm_def commitTo_conv)
qed (simp add: AppendEntries_reject calm_heard)

lemma calm_adopt: "calm n (adoptSnapshot n is)"
  by (simp add: adoptSnapshot_def calm_def Let_def go_defs case_prod_beta)

lemma calm_InstallSnapshot: "calm n (fst (InstallSnapshot e n is))"
proof -
  have "calm n ((heard e n (isTerm is) (isLeaderId is))\<lparr>sm := m\<rparr>)" for m
    using calm_heard [of n e "isTerm is" "isLeaderId is"] by (simp add: calm_def)
  then show ?thesis
    by (auto simp: InstallSnapshot_conv Let_def calm_heard intro!: calm_trans [OF _ calm_adopt] split: prod.split option.split)
qed

lemma calm_append_reply: "calm n (sendAppendEntries_reply n p ae aer)"
  by (simp add: sendAppendEntries_reply_def calm_def go_defs Let_def)

lemma calm_snapshot_reply: "calm n (sendSnapshot_reply n p is isr)"
  by (simp add: sendSnapshot_reply_def calm_stepDown) (simp add: calm_def)

lemma calm_confirm: "calm n (fst (confirmLeadership_reply n t aer))"
  by (simp add: confirmLeadership_reply_def calm_stepDown)

lemma calm_Propose: "calm n (fst (Propose n c))"
  by (simp add: Propose_def case_prod_beta appendOwn_conv go_defs calm_def)

lemma calm_Submit: "calm n (fst (Submit n c))"
  by (simp add: Submit_def case_prod_beta appendOwn_conv go_defs calm_def Let_def)

lemma calm_wake: "Submit_wake n i c wk = Some (n', r) \<Longrightarrow> calm n n'"
  by (auto simp: Submit_wake_def calm_def split: submitWake.splits option.splits if_splits)

lemma calm_applyAll: "calm n (applyAll n)"
proof -
  have "goroutines (deliver n i e r) = goroutines n" for n :: "('a, 'b) Node" and i e r
    by (simp add: deliver_def chan_send_def Let_def split: option.split)
  then have "goroutines (applyOne n) = goroutines n" for n :: "('a, 'b) Node"
    by (simp add: applyOne_def Let_def case_prod_beta split: option.split)
  then have "goroutines (applyAll n) = goroutines n"
    by (induction n rule: applyAll.induct) (subst applyAll.simps, simp)
  then show ?thesis by (simp add: calm_def)
qed

lemma calm_applyReady: "calm n (applyReady n)"
proof -
  have "calm n (maybeSnapshotLocked n)" for n :: "('a, 'b) Node"
    by (simp add: maybeSnapshotLocked_def Let_def go_defs calm_def split: option.split prod.split)
  then have "calm n (maybeSnapshotLocked (applyAll n))" using calm_applyAll calm_trans by blast
  then show ?thesis by (simp add: applyReady_def Let_def calm_applyAll)
qed

section \<open>Votes\<close>

text \<open>The server has cast its vote of term \<open>t\<close> for \<open>c\<close>, or is past that term.\<close>

definition voted :: "('s, 'm) Node \<Rightarrow> uint64 \<Rightarrow> nodeid \<Rightarrow> bool" where
  "voted n t c \<longleftrightarrow> t < currentTerm n \<or> t = currentTerm n \<and> votedFor n = c"

lemma voted_mono: "voted n t c \<Longrightarrow> votes_kept n n' \<Longrightarrow> c \<noteq> '''' \<Longrightarrow> voted n' t c"
  by (auto simp: voted_def votes_kept_def)

lemma RequestVote_grants:
  assumes "RequestVote e n rv = (n', resp)" "VoteGranted resp" "\<not> PreVote rv"
  shows "currentTerm n \<le> rvTerm rv" "currentTerm n' = rvTerm rv" "votedFor n' = CandidateId rv"
    "currentTerm n = rvTerm rv \<longrightarrow> votedFor n = '''' \<or> votedFor n = CandidateId rv"
  using assms by (auto simp: RequestVote_def Let_def go_defs split: if_splits)

text \<open>Real candidacies: a request for votes in the network, or a goroutine about to send them.\<close>

definition asked :: "sys \<Rightarrow> nodeid \<Rightarrow> uint64 \<Rightarrow> bool" where
  "asked s c t \<longleftrightarrow> (\<exists>q rv. RV c q rv \<in> net s \<and> \<not> PreVote rv \<and> rvTerm rv = t)"

definition standing :: "('s, 'm) Node \<Rightarrow> uint64 \<Rightarrow> bool" where
  "standing n t \<longleftrightarrow> (\<exists>li lt pv. GatherVotes t li lt pv \<in> set (goroutines n) \<and> \<not> pv)"

definition granted_to :: "sys \<Rightarrow> nodeid \<Rightarrow> nodeid \<Rightarrow> uint64 \<Rightarrow> bool" where
  "granted_to s v c t \<longleftrightarrow> (\<exists>rv resp. RVR v c rv resp \<in> net s \<and> \<not> PreVote rv \<and> rvTerm rv = t \<and> VoteGranted resp)"

definition elected :: "nodeid list \<Rightarrow> sys \<Rightarrow> nodeid \<Rightarrow> uint64 \<Rightarrow> bool" where
  "elected ids s p t \<longleftrightarrow> length ids \<le> 1 \<or>
     (\<exists>G. G \<subseteq> set ids - {p} \<and> length ids div 2 \<le> card G \<and> (\<forall>v\<in>G. granted_to s v p t))"

definition round_ok :: "nodeid list \<Rightarrow> sys \<Rightarrow> nodeid \<Rightarrow> round \<Rightarrow> bool" where
  "round_ok ids s c r \<longleftrightarrow> set (rLeft r) \<subseteq> set ids - {c} \<and>
     (\<exists>G. G \<subseteq> set ids - {c} - set (rLeft r) \<and> granted (rCount r) = 1 + card G \<and>
        (\<forall>v\<in>G. \<exists>resp. RVR v c (rReq r) resp \<in> net s \<and> VoteGranted resp))"

definition elect_ok :: "nodeid list \<Rightarrow> sys \<Rightarrow> bool" where
  "elect_ok ids s \<longleftrightarrow>
     (\<forall>c q rv. RV c q rv \<in> net s \<longrightarrow> c \<in> set ids \<and> (\<not> PreVote rv \<longrightarrow> voted (nodes s c) (rvTerm rv) c) \<and> CandidateId rv = c) \<and>
     (\<forall>c\<in>set ids. \<forall>t. standing (nodes s c) t \<longrightarrow> voted (nodes s c) t c) \<and>
     (\<forall>v c rv resp. RVR v c rv resp \<in> net s \<longrightarrow> v \<in> set ids \<and> RV c v rv \<in> net s \<and>
        (\<not> PreVote rv \<and> VoteGranted resp \<longrightarrow> voted (nodes s v) (rvTerm rv) c)) \<and>
     (\<forall>v c c' t. granted_to s v c t \<and> granted_to s v c' t \<longrightarrow> c = c') \<and>
     (\<forall>v c t. granted_to s v c t \<and> (asked s v t \<or> standing (nodes s v) t) \<longrightarrow> c = v) \<and>
     (\<forall>c\<in>set ids. \<forall>r\<in>set (rounds s c). round_ok ids s c r) \<and>
     (\<forall>p\<in>set ids. role (nodes s p) = Leader \<longrightarrow> elected ids s p (currentTerm (nodes s p)))"

lemma elect_okD:
  assumes "elect_ok ids s"
  shows "RV c q rv \<in> net s \<Longrightarrow> c \<in> set ids" "RV c q rv \<in> net s \<Longrightarrow> \<not> PreVote rv \<Longrightarrow> voted (nodes s c) (rvTerm rv) c"
    "RV c q rv \<in> net s \<Longrightarrow> CandidateId rv = c"
    "c \<in> set ids \<Longrightarrow> standing (nodes s c) t \<Longrightarrow> voted (nodes s c) t c"
    "RVR v c rv resp \<in> net s \<Longrightarrow> v \<in> set ids" "RVR v c rv resp \<in> net s \<Longrightarrow> RV c v rv \<in> net s"
    "granted_to s v c t \<Longrightarrow> voted (nodes s v) t c" "granted_to s v c t \<Longrightarrow> v \<in> set ids" "granted_to s v c t \<Longrightarrow> c \<in> set ids"
    "granted_to s v c t \<Longrightarrow> asked s c t"
    "granted_to s v c t \<Longrightarrow> granted_to s v c' t \<Longrightarrow> c = c'"
    "granted_to s v c t \<Longrightarrow> asked s v t \<or> standing (nodes s v) t \<Longrightarrow> c = v"
    "c \<in> set ids \<Longrightarrow> r \<in> set (rounds s c) \<Longrightarrow> round_ok ids s c r"
    "p \<in> set ids \<Longrightarrow> role (nodes s p) = Leader \<Longrightarrow> elected ids s p (currentTerm (nodes s p))"
    "RVR v c rv resp \<in> net s \<Longrightarrow> \<not> PreVote rv \<Longrightarrow> VoteGranted resp \<Longrightarrow> voted (nodes s v) (rvTerm rv) c"
  using assms unfolding elect_ok_def by (auto simp: granted_to_def asked_def) blast+

lemma elect_okI:
  assumes "\<And>c q rv. RV c q rv \<in> net s \<Longrightarrow> c \<in> set ids \<and> (\<not> PreVote rv \<longrightarrow> voted (nodes s c) (rvTerm rv) c) \<and> CandidateId rv = c"
    and "\<And>c t. c \<in> set ids \<Longrightarrow> standing (nodes s c) t \<Longrightarrow> voted (nodes s c) t c"
    and "\<And>v c rv resp. RVR v c rv resp \<in> net s \<Longrightarrow> v \<in> set ids \<and> RV c v rv \<in> net s \<and>
        (\<not> PreVote rv \<and> VoteGranted resp \<longrightarrow> voted (nodes s v) (rvTerm rv) c)"
    and "\<And>v c c' t. granted_to s v c t \<Longrightarrow> granted_to s v c' t \<Longrightarrow> c = c'"
    and "\<And>v c t. granted_to s v c t \<Longrightarrow> asked s v t \<or> standing (nodes s v) t \<Longrightarrow> c = v"
    and "\<And>c r. c \<in> set ids \<Longrightarrow> r \<in> set (rounds s c) \<Longrightarrow> round_ok ids s c r"
    and "\<And>p. p \<in> set ids \<Longrightarrow> role (nodes s p) = Leader \<Longrightarrow> elected ids s p (currentTerm (nodes s p))"
  shows "elect_ok ids s"
  unfolding elect_ok_def by (intro conjI allI ballI impI; (elim conjE)?) (fact assms | (drule assms(1,3), blast))+

text \<open>Two elections of the same term elect the same server.\<close>

lemma elected_unique:
  assumes ok: "elect_ok ids s" "distinct ids" and p: "p \<in> set ids" "elected ids s p t" and q: "q \<in> set ids" "elected ids s q t"
  shows "p = q"
proof (cases "length ids \<le> 1")
  case True
  then show ?thesis using p(1) q(1) by (cases ids) auto
next
  case False
  then obtain G H where G: "G \<subseteq> set ids - {p}" "length ids div 2 \<le> card G" "\<forall>v\<in>G. granted_to s v p t"
    and H: "H \<subseteq> set ids - {q}" "length ids div 2 \<le> card H" "\<forall>v\<in>H. granted_to s v q t"
    using p(2) q(2) unfolding elected_def by auto
  have fin: "finite G" "finite H" using G(1) H(1) by (auto intro: finite_subset)
  have "1 \<le> length ids div 2" using False by simp
  then have "G \<noteq> {}" "H \<noteq> {}" using G(2) H(2) by auto
  then have "asked s p t" "asked s q t" using G(3) H(3) elect_okD(10) [OF ok(1)] by blast+
  have "card (insert p G) = Suc (card G)" "card (insert q H) = Suc (card H)"
    using fin G(1) H(1) by (auto intro!: card_insert_disjoint)
  then obtain v where "v \<in> insert p G" "v \<in> insert q H"
    using majorities_meet [of "set ids" "insert p G" "insert q H"] G(1,2) H(1,2) p(1) q(1) distinct_card [OF ok(2)] by auto
  then consider "v = p" "v = q" | "v = p" "v \<in> H" | "v \<in> G" "v = q" | "v \<in> G" "v \<in> H" by blast
  then show ?thesis
  proof cases
    case 2
    then show ?thesis using H(3) elect_okD(12) [OF ok(1)] \<open>asked s p t\<close> by blast
  next
    case 3
    then show ?thesis using G(3) elect_okD(12) [OF ok(1)] \<open>asked s q t\<close> by blast
  next
    case 4
    then show ?thesis using G(3) H(3) elect_okD(11) [OF ok(1)] by blast
  qed simp
qed

section \<open>The invariant is kept\<close>

definition still :: "('s, 'm) Node \<Rightarrow> ('s, 'm) Node \<Rightarrow> bool" where
  "still n n' \<longleftrightarrow> (role n' = Leader \<longrightarrow> role n = Leader \<and> currentTerm n' = currentTerm n) \<and>
     (\<forall>t. standing n' t \<longrightarrow> standing n t)"

lemma calm_still: "calm n n' \<Longrightarrow> still n n'"
  by (auto simp: calm_def still_def standing_def)

lemma still_refl [simp]: "still n n"
  by (simp add: still_def)

fun is_vote :: "msg \<Rightarrow> bool" where
  "is_vote (RV c q rv) = True"
| "is_vote (RVR v c rv resp) = True"
| "is_vote _ = False"

lemma granted_mono: "granted_to s v c t \<Longrightarrow> net s \<subseteq> net s' \<Longrightarrow> granted_to s' v c t"
  by (auto simp: granted_to_def)

lemma elected_mono: "elected ids s p t \<Longrightarrow> net s \<subseteq> net s' \<Longrightarrow> elected ids s' p t"
proof -
  assume e: "elected ids s p t" and n: "net s \<subseteq> net s'"
  have "granted_to s' v p t" if "granted_to s v p t" for v using that n by (rule granted_mono)
  with e show ?thesis unfolding elected_def by blast
qed

lemma round_ok_mono: "round_ok ids s c r \<Longrightarrow> net s \<subseteq> net s' \<Longrightarrow> round_ok ids s' c r"
proof -
  assume r: "round_ok ids s c r" and n: "net s \<subseteq> net s'"
  then obtain G where G: "G \<subseteq> set ids - {c} - set (rLeft r)" "granted (rCount r) = 1 + card G"
      "\<forall>v\<in>G. \<exists>resp. RVR v c (rReq r) resp \<in> net s \<and> VoteGranted resp"
    by (auto simp: round_ok_def)
  have "\<forall>v\<in>G. \<exists>resp. RVR v c (rReq r) resp \<in> net s' \<and> VoteGranted resp" using G(3) n by (meson subsetD)
  with r G(1,2) show ?thesis by (auto simp: round_ok_def)
qed

lemma ids_nonempty: "cluster_ok ids \<Longrightarrow> p \<in> set ids \<Longrightarrow> p \<noteq> ''''"
  by (auto simp: cluster_ok_def)

text \<open>Steps that send no vote message.\<close>

lemma elect_ok_silent:
  assumes ok: "elect_ok ids s" "cluster_ok ids"
    and votes: "\<And>p. p \<in> set ids \<Longrightarrow> votes_kept (nodes s p) (nodes s' p)"
    and calm: "\<And>p t. p \<in> set ids \<Longrightarrow> standing (nodes s' p) t \<Longrightarrow> standing (nodes s p) t"
    and lead: "\<And>p. p \<in> set ids \<Longrightarrow> role (nodes s' p) = Leader \<Longrightarrow> elected ids s p (currentTerm (nodes s' p))"
    and net: "net s \<subseteq> net s'" "\<And>m. m \<in> net s' \<Longrightarrow> is_vote m \<Longrightarrow> m \<in> net s"
    and rounds: "\<And>c r. c \<in> set ids \<Longrightarrow> r \<in> set (rounds s' c) \<Longrightarrow> round_ok ids s c r"
  shows "elect_ok ids s'"
proof -
  note D = elect_okD [OF ok(1)]
  have rv: "RV c q rv \<in> net s' \<longleftrightarrow> RV c q rv \<in> net s" "RVR v c rv resp \<in> net s' \<longleftrightarrow> RVR v c rv resp \<in> net s" for c q v rv resp
    using net by (auto dest: net(2))
  have gr: "granted_to s' v c t \<longleftrightarrow> granted_to s v c t" "asked s' c t \<longleftrightarrow> asked s c t" for v c t
    by (auto simp: granted_to_def asked_def rv)
  have vm: "voted (nodes s p) t c \<Longrightarrow> c \<in> set ids \<Longrightarrow> p \<in> set ids \<Longrightarrow> voted (nodes s' p) t c" for p t c
    using voted_mono votes ids_nonempty [OF ok(2)] by blast
  have 1: "c \<in> set ids \<and> (\<not> PreVote rv \<longrightarrow> voted (nodes s' c) (rvTerm rv) c) \<and> CandidateId rv = c" if "RV c q rv \<in> net s'" for c q rv
    using that D(1,2,3) vm by (auto simp: rv)
  have 2: "voted (nodes s' c) t c" if "c \<in> set ids" "standing (nodes s' c) t" for c t
    using that calm D(4) vm by auto
  have 3: "v \<in> set ids \<and> RV c v rv \<in> net s' \<and> (\<not> PreVote rv \<and> VoteGranted resp \<longrightarrow> voted (nodes s' v) (rvTerm rv) c)"
    if "RVR v c rv resp \<in> net s'" for v c rv resp
  proof -
    have "RVR v c rv resp \<in> net s" using that by (simp add: rv)
    moreover have "granted_to s v c (rvTerm rv)" if "\<not> PreVote rv" "VoteGranted resp"
      using that \<open>RVR v c rv resp \<in> net s\<close> by (auto simp: granted_to_def)
    ultimately show ?thesis using D(5,6,7,9) vm unfolding rv by blast
  qed
  have 4: "c = v" if "granted_to s' v c t" "asked s' v t \<or> standing (nodes s' v) t" for v c t
    using that D(8) [of v c t] D(12) [of v c t] calm [of v] by (auto simp: gr)
  have 5: "round_ok ids s' c r" if "c \<in> set ids" "r \<in> set (rounds s' c)" for c r
    using rounds [OF that] net(1) by (rule round_ok_mono)
  have 6: "elected ids s' p (currentTerm (nodes s' p))" if "p \<in> set ids" "role (nodes s' p) = Leader" for p
    using lead [OF that] net(1) by (rule elected_mono)
  have 7: "c = c'" if "granted_to s' v c t" "granted_to s' v c' t" for v c c' t
    using that D(11) unfolding gr by blast
  show ?thesis by (rule elect_okI) (fact 1 2 3 4 5 6 7)+
qed

lemma elect_ok_quiet:
  assumes ok: "elect_ok ids s" "cluster_ok ids"
    and votes: "\<And>p. p \<in> set ids \<Longrightarrow> votes_kept (nodes s p) (nodes s' p)"
    and still: "\<And>p. p \<in> set ids \<Longrightarrow> still (nodes s p) (nodes s' p)"
    and net: "net s \<subseteq> net s'" "\<And>m. m \<in> net s' \<Longrightarrow> is_vote m \<Longrightarrow> m \<in> net s"
    and rounds: "\<And>c r. c \<in> set ids \<Longrightarrow> r \<in> set (rounds s' c) \<Longrightarrow> round_ok ids s c r"
  shows "elect_ok ids s'"
proof (rule elect_ok_silent [OF ok votes _ _ net rounds])
  fix p t assume "p \<in> set ids" "standing (nodes s' p) t"
  then show "standing (nodes s p) t" using still by (auto simp: still_def)
next
  fix p assume p: "p \<in> set ids" "role (nodes s' p) = Leader"
  then have "role (nodes s p) = Leader" "currentTerm (nodes s' p) = currentTerm (nodes s p)"
    using still by (auto simp: still_def)
  then show "elected ids s p (currentTerm (nodes s' p))" using elect_okD(14) [OF ok(1) p(1)] by simp
qed

text \<open>A vote is cast.\<close>

lemma elect_ok_vote:
  assumes ok: "elect_ok ids s" "cluster_ok ids" and p: "p \<in> set ids" and rv: "RV c p rv \<in> net s"
    and step: "RequestVote e (nodes s p) rv = (n', resp)"
  shows "elect_ok ids (send (setNode s p n') {RVR p c rv resp})" (is "elect_ok ids ?s'")
proof -
  note D = elect_okD [OF ok(1)]
  have c: "c \<in> set ids" "CandidateId rv = c" using D(1,3) rv by auto
  have vk: "votes_kept (nodes s p) n'" and st: "still (nodes s p) n'"
    using votes_kept_RequestVote [of "nodes s p" e rv] calm_still [OF calm_RequestVote, of "nodes s p" e rv] step by auto
  have "elect_ok ids (setNode s p n')"
    using ok vk st D(13) by (intro elect_ok_quiet [OF ok(1,2)]) auto
  note D' = elect_okD [OF this]
  let ?t = "rvTerm rv"
  let ?new = "\<not> PreVote rv \<and> VoteGranted resp"
  have new: "voted (nodes s p) ?t x \<Longrightarrow> x \<noteq> '''' \<Longrightarrow> x = c" "voted n' ?t c" if ?new for x
    using RequestVote_grants [OF step] that c(2) by (auto simp: voted_def)
  have g: "granted_to ?s' v x t \<longleftrightarrow> granted_to s v x t \<or> v = p \<and> x = c \<and> t = ?t \<and> ?new" for v x t
    by (auto simp: granted_to_def)
  have a: "asked ?s' x t \<longleftrightarrow> asked s x t" for x t by (auto simp: asked_def)
  have old: "x = c" if "granted_to s p x ?t" ?new for x
    using new(1) [OF that(2)] D(7) [OF that(1)] D(9) [OF that(1)] ids_nonempty [OF ok(2)] by blast
  have self: "c = p" if ?new "asked s p ?t \<or> standing n' ?t"
  proof -
    have "voted (nodes s p) ?t p" if "asked s p ?t" using that D(2) unfolding asked_def by metis
    then have "voted (nodes s p) ?t p" using that(2) st D(4) [OF p] by (auto simp: still_def)
    then show ?thesis using new(1) [OF that(1)] ids_nonempty [OF ok(2) p] by blast
  qed
  have 4: "\<forall>v x x' t. granted_to ?s' v x t \<and> granted_to ?s' v x' t \<longrightarrow> x = x'"
    using D(11) old by (auto simp: g)
  have 5: "\<forall>v x t. granted_to ?s' v x t \<and> (asked ?s' v t \<or> standing (nodes ?s' v) t) \<longrightarrow> x = v"
  proof (intro allI impI; elim conjE)
    fix v x t assume "granted_to ?s' v x t" and st': "asked ?s' v t \<or> standing (nodes ?s' v) t"
    then consider "granted_to (setNode s p n') v x t" | "v = p" "x = c" "t = ?t" "?new" by (auto simp: g granted_to_def)
    then show "x = v"
    proof cases
      case 1
      then show ?thesis using st' by (intro D'(12)) (auto simp: asked_def)
    next
      case 2
      then show ?thesis using self st' by (auto simp: a)
    qed
  qed
  have 3: "\<forall>v x rv' r. RVR v x rv' r \<in> net ?s' \<longrightarrow> v \<in> set ids \<and> RV x v rv' \<in> net ?s' \<and>
        (\<not> PreVote rv' \<and> VoteGranted r \<longrightarrow> voted (nodes ?s' v) (rvTerm rv') x)"
    using D'(5,6,15) p rv new(2) by auto
  have 6: "\<forall>x\<in>set ids. \<forall>r\<in>set (rounds ?s' x). round_ok ids ?s' x r"
    using D(13) round_ok_mono [of ids s _ _ ?s'] by auto
  have 7: "\<forall>x\<in>set ids. role (nodes ?s' x) = Leader \<longrightarrow> elected ids ?s' x (currentTerm (nodes ?s' x))"
  proof (intro ballI impI)
    fix x assume "x \<in> set ids" "role (nodes ?s' x) = Leader"
    then have "elected ids (setNode s p n') x (currentTerm (nodes ?s' x))" using D'(14) by simp
    then show "elected ids ?s' x (currentTerm (nodes ?s' x))" by (rule elected_mono) auto
  qed
  have 1: "\<forall>x q rv'. RV x q rv' \<in> net ?s' \<longrightarrow> x \<in> set ids \<and> (\<not> PreVote rv' \<longrightarrow> voted (nodes ?s' x) (rvTerm rv') x) \<and> CandidateId rv' = x"
    using D'(1,2,3) by auto
  have 2: "\<forall>x\<in>set ids. \<forall>t. standing (nodes ?s' x) t \<longrightarrow> voted (nodes ?s' x) t x"
    using D'(4) by auto
  show ?thesis unfolding elect_ok_def by (intro conjI) (fact 1 2 3 4 5 6 7)+
qed

text \<open>A candidate's goroutine starts and sends its requests.\<close>

lemma elect_ok_spawn:
  assumes ok: "elect_ok ids s" "cluster_ok ids" "base_ok ids s" and p: "p \<in> set ids"
    and g: "goroutines (nodes s p) = g1 @ tk # g2" "taskRound (nodes s p) tk = Some r"
  shows "elect_ok ids
      (send (setRounds (setNode s p ((nodes s p)\<lparr>goroutines := g1 @ g2\<rparr>)) p (rounds s p @ [r]))
         {RV p q (rReq r) | q. q \<in> set (peers (nodes s p))})" (is "elect_ok ids ?s'")
proof -
  note D = elect_okD [OF ok(1)]
  let ?n = "(nodes s p)\<lparr>goroutines := g1 @ g2\<rparr>"
  have m: "nid (nodes s p) = p" "set (peers (nodes s p)) = set ids - {p}"
    using base_member [OF ok(3) p] by (auto simp: member_ok_def)
  have r: "CandidateId (rReq r) = p" "rCount r = newRound" "rLeft r = peers (nodes s p)"
    using g(2) m(1) by (auto simp: taskRound_def gatherVotes_request_def split: task.splits)
  have real: "standing (nodes s p) (rvTerm (rReq r))" if "\<not> PreVote (rReq r)"
    using g that by (force simp: taskRound_def gatherVotes_request_def standing_def split: task.splits)
  have st: "standing ?n t \<Longrightarrow> standing (nodes s p) t" for t using g(1) by (auto simp: standing_def)
  have v: "voted (nodes ?s' x) t c = voted (nodes s x) t c" for x t c by (simp add: voted_def)
  have gr: "granted_to ?s' w c t = granted_to s w c t" for w c t by (auto simp: granted_to_def)
  have as: "asked ?s' x t \<Longrightarrow> asked s x t \<or> x = p \<and> standing (nodes s p) t" for x t
    using real by (auto simp: asked_def)
  have el: "elected ids ?s' x t = elected ids s x t" for x t by (simp add: elected_def gr)
  show ?thesis
  proof (rule elect_okI)
    fix c q rv assume "RV c q rv \<in> net ?s'"
    then consider "RV c q rv \<in> net s" | "c = p" "rv = rReq r" by auto
    then show "c \<in> set ids \<and> (\<not> PreVote rv \<longrightarrow> voted (nodes ?s' c) (rvTerm rv) c) \<and> CandidateId rv = c"
      unfolding v by cases (use D(1,2,3) D(4) [OF p] real r(1) p in auto)
  next
    fix c t assume "c \<in> set ids" "standing (nodes ?s' c) t"
    then show "voted (nodes ?s' c) t c" unfolding v using D(4) st by (auto split: if_splits)
  next
    fix w c rv resp assume a: "RVR w c rv resp \<in> net ?s'"
    then have "RVR w c rv resp \<in> net s" by auto
    then show "w \<in> set ids \<and> RV c w rv \<in> net ?s' \<and> (\<not> PreVote rv \<and> VoteGranted resp \<longrightarrow> voted (nodes ?s' w) (rvTerm rv) c)"
      unfolding v using D(5,6,15) by auto
  next
    fix w c c' t assume "granted_to ?s' w c t" "granted_to ?s' w c' t"
    then show "c = c'" unfolding gr by (rule D(11))
  next
    fix w c t assume a: "granted_to ?s' w c t" "asked ?s' w t \<or> standing (nodes ?s' w) t"
    have "asked s w t \<or> standing (nodes s w) t" using a(2) as [of w t] st [of t] by (auto split: if_splits)
    then show "c = w" using a(1) D(12) unfolding gr by blast
  next
    fix c r' assume a: "c \<in> set ids" "r' \<in> set (rounds ?s' c)"
    have new: "round_ok ids s p r"
      unfolding round_ok_def r newRound_def using m(2) by (auto intro: exI [of _ "{}"])
    have "round_ok ids s c r'" using a D(13) new by (auto split: if_splits)
    then show "round_ok ids ?s' c r'" by (rule round_ok_mono) auto
  next
    fix x assume "x \<in> set ids" "role (nodes ?s' x) = Leader"
    then show "elected ids ?s' x (currentTerm (nodes ?s' x))" unfolding el using D(14) by (auto split: if_splits)
  qed
qed

text \<open>A server starts a real election: a new term, with its own vote.\<close>

lemma elect_ok_candidate:
  assumes ok: "elect_ok ids s" "cluster_ok ids" and p: "p \<in> set ids" and v: "votes_kept (nodes s p) n'"
    and tm: "currentTerm n' = currentTerm (nodes s p) + 1" "votedFor n' = p"
    and new: "\<And>t. standing n' t \<Longrightarrow> standing (nodes s p) t \<or> t = currentTerm n'"
    and lead: "role n' = Leader \<Longrightarrow> length ids \<le> 1"
    and s': "nodes s' = (nodes s)(p := n')" "net s' = net s" "\<And>c r. c \<in> set ids \<Longrightarrow> r \<in> set (rounds s' c) \<Longrightarrow> round_ok ids s c r"
  shows "elect_ok ids s'"
proof -
  note D = elect_okD [OF ok(1)]
  have vk: "voted (nodes s' x) t c" if "voted (nodes s x) t c" "c \<in> set ids" for x t c
    using that voted_mono [OF _ v] ids_nonempty [OF ok(2)] by (auto simp: s'(1))
  have gr: "granted_to s' w c t = granted_to s w c t" "asked s' w t = asked s w t" "elected ids s' w t = elected ids s w t" for w c t
    by (auto simp: granted_to_def asked_def elected_def s'(2))
  show ?thesis
  proof (rule elect_okI)
    fix c q rv assume "RV c q rv \<in> net s'"
    then show "c \<in> set ids \<and> (\<not> PreVote rv \<longrightarrow> voted (nodes s' c) (rvTerm rv) c) \<and> CandidateId rv = c"
      unfolding s'(2) using D(1,2,3) vk by blast
  next
    fix c t assume c: "c \<in> set ids" "standing (nodes s' c) t"
    show "voted (nodes s' c) t c"
    proof (cases "standing (nodes s c) t")
      case True
      then show ?thesis using D(4) [OF c(1)] vk c(1) by blast
    next
      case False
      then show ?thesis using c new tm(2) by (auto simp: s'(1) voted_def split: if_splits)
    qed
  next
    fix w c rv resp assume "RVR w c rv resp \<in> net s'"
    then have "RVR w c rv resp \<in> net s" by (simp add: s'(2))
    then show "w \<in> set ids \<and> RV c w rv \<in> net s' \<and> (\<not> PreVote rv \<and> VoteGranted resp \<longrightarrow> voted (nodes s' w) (rvTerm rv) c)"
      unfolding s'(2) using D(1,5,6,15) vk by blast
  next
    fix w c c' t assume "granted_to s' w c t" "granted_to s' w c' t"
    then show "c = c'" unfolding gr by (rule D(11))
  next
    fix w c t assume a: "granted_to s' w c t" "asked s' w t \<or> standing (nodes s' w) t"
    show "c = w"
    proof (cases "asked s w t \<or> standing (nodes s w) t")
      case True
      then show ?thesis using a(1) D(12) unfolding gr by blast
    next
      case False
      then have "w = p" "t = currentTerm (nodes s p) + 1" using a(2) new tm(1) by (auto simp: gr s'(1) split: if_splits)
      moreover have "voted (nodes s w) t c" using a(1) D(7) unfolding gr by blast
      ultimately show ?thesis by (simp add: voted_def)
    qed
  next
    fix c r assume "c \<in> set ids" "r \<in> set (rounds s' c)"
    then show "round_ok ids s' c r" using s'(2,3) round_ok_mono by blast
  next
    fix x assume x: "x \<in> set ids" "role (nodes s' x) = Leader"
    show "elected ids s' x (currentTerm (nodes s' x))"
    proof (cases "x = p")
      case True
      then show ?thesis using lead x(2) by (simp add: s'(1) elected_def)
    next
      case False
      then show ?thesis unfolding gr using D(14) x by (simp add: s'(1))
    qed
  qed
qed

text \<open>A round counts an answer, and the server may have won.\<close>

lemma round_ok_reply:
  assumes r: "round_ok ids s c r" and p: "p \<in> set (rLeft r)" "RVR p c (rReq r) resp \<in> net s"
    and step: "gatherVotes_reply n (rCount r) t pv resp = (n', cnt)"
  shows "round_ok ids s c (r\<lparr>rCount := cnt, rLeft := removeAll p (rLeft r)\<rparr>)"
proof -
  obtain G where G: "G \<subseteq> set ids - {c} - set (rLeft r)" "granted (rCount r) = 1 + card G"
      "\<forall>v\<in>G. \<exists>resp. RVR v c (rReq r) resp \<in> net s \<and> VoteGranted resp" and left: "set (rLeft r) \<subseteq> set ids - {c}"
    using r by (auto simp: round_ok_def)
  have "finite G" using G(1) by (auto intro: finite_subset)
  have "granted cnt = granted (rCount r) \<or> granted cnt = granted (rCount r) + 1 \<and> VoteGranted resp"
    using step by (auto simp: gatherVotes_reply_def Let_def split: if_splits)
  then show ?thesis
  proof
    assume "granted cnt = granted (rCount r)"
    then show ?thesis using G left by (auto simp: round_ok_def intro!: exI [of _ G])
  next
    assume a: "granted cnt = granted (rCount r) + 1 \<and> VoteGranted resp"
    have "p \<notin> G" "p \<in> set ids - {c}" using G(1) p(1) left by auto
    then have "card (insert p G) = Suc (card G)" "insert p G \<subseteq> set ids - {c} - (set (rLeft r) - {p})"
      using \<open>finite G\<close> G(1) by auto
    then show ?thesis
      using a G(2,3) p(2) left unfolding round_ok_def by (intro conjI exI [of _ "insert p G"]) auto
  qed
qed

lemma gatherVotes_leader:
  assumes "gatherVotes_reply n r t pv resp = (n', cnt)"
  shows "still n n' \<or> role n' = Leader \<and> currentTerm n' = t \<and> \<not> pv \<and> quorum n \<le> granted cnt"
    and "standing n' u \<Longrightarrow> standing n u"
proof -
  have bl: "role (becomeLeaderLocked n) = Leader" "currentTerm (becomeLeaderLocked n) = currentTerm n"
    if "role n \<noteq> Leader" using becomeLeader_fields [OF that] by simp_all
  have st: "standing (becomeLeaderLocked n) u \<Longrightarrow> standing n u"
    by (auto simp: becomeLeaderLocked_def appendOwn_conv go_defs Let_def standing_def split: if_splits)
  show "still n n' \<or> role n' = Leader \<and> currentTerm n' = t \<and> \<not> pv \<and> quorum n \<le> granted cnt"
    using assms calm_still [OF calm_stepDown, of n "rvrTerm resp"] bl
    by (auto simp: gatherVotes_reply_def Let_def split: if_splits)
  show "standing n' u \<Longrightarrow> standing n u"
    using assms calm_still [OF calm_stepDown, of n "rvrTerm resp"] st
    by (auto simp: gatherVotes_reply_def Let_def still_def split: if_splits)
qed

lemma elect_ok_reply:
  assumes ok: "elect_ok ids s" "cluster_ok ids" "base_ok ids s" and c: "c \<in> set ids" "room (nodes s c)"
    and m: "RVR p c rv resp \<in> net s" and r: "rounds s c = r1 @ r # r2" "rReq r = rv" "p \<in> set (rLeft r)"
    and step: "gatherVotes_reply (nodes s c) (rCount r) (rvTerm rv) (PreVote rv) resp = (n', cnt)"
  shows "elect_ok ids (setRounds (setNode s c n') c (r1 @ r\<lparr>rCount := cnt, rLeft := removeAll p (rLeft r)\<rparr> # r2))"
    (is "elect_ok ids ?s'")
proof -
  note D = elect_okD [OF ok(1)]
  define r' where "r' = r\<lparr>rCount := cnt, rLeft := removeAll p (rLeft r)\<rparr>"
  have rok: "round_ok ids s c r'"
    unfolding r'_def using D(13) [OF c(1)] r m step by (intro round_ok_reply) auto
  have mem: "log_ok (nodes s c)" "quorum (nodes s c) = length ids div 2 + 1"
    using base_member [OF ok(3) c(1)] by (auto simp: member_ok_def)
  have "node_step (nodes s c) n'"
    using node_step.vote_reply [OF c(2), of "rCount r" "rvTerm rv" "PreVote rv" resp] step by simp
  then have vk: "votes_kept (nodes s c) n'" using core_step_votes node_step_core mem(1) by blast
  have won: "elected ids s c (currentTerm n')" if "role n' = Leader"
  proof -
    consider "still (nodes s c) n'" | "currentTerm n' = rvTerm rv" "\<not> PreVote rv" "quorum (nodes s c) \<le> granted cnt"
      using gatherVotes_leader(1) [OF step] by blast
    then show ?thesis
    proof cases
      case 1
      then show ?thesis using that D(14) [OF c(1)] by (auto simp: still_def)
    next
      case 2
      obtain G where G: "G \<subseteq> set ids - {c}" "granted cnt = 1 + card G"
          "\<forall>v\<in>G. \<exists>resp. RVR v c rv resp \<in> net s \<and> VoteGranted resp"
        using rok r(2) by (auto simp: round_ok_def r'_def)
      then have "\<forall>v\<in>G. granted_to s v c (rvTerm rv)" using 2(2) unfolding granted_to_def by blast
      then show ?thesis using G(1,2) 2 mem(2) unfolding elected_def by (intro disjI2 exI [of _ G]) auto
    qed
  qed
  have rs: "round_ok ids s x y" if "x \<in> set ids" "y \<in> set (rounds ?s' x)" for x y
    using that D(13) rok r(1) unfolding r'_def by (auto split: if_splits)
  show ?thesis
    using vk won gatherVotes_leader(2) [OF step] D(14) rs
    by (intro elect_ok_silent [OF ok(1,2)]) (auto split: if_splits)
qed

text \<open>Timeouts and the end of a pre-vote round.\<close>

lemma startReal_facts:
  assumes "term_room n"
  shows "currentTerm (startRealElectionLocked e n li lt) = currentTerm n + 1"
    "votedFor (startRealElectionLocked e n li lt) = nid n"
    "standing (startRealElectionLocked e n li lt) t \<Longrightarrow> standing n t \<or> t = currentTerm n + 1"
    "role (startRealElectionLocked e n li lt) = Leader \<Longrightarrow> quorum n \<le> 1"
proof -
  have a: "add64 (currentTerm n) 1 = currentTerm n + 1" using assms by (simp add: term_room_def)
  have b: "role (electing e n) \<noteq> Leader" by simp
  have g: "goroutines (becomeLeaderLocked (electing e n)) = goroutines n @ map (ReplicationLoop (nextCtx n)) (peers n)"
    by (simp add: becomeLeaderLocked_def appendOwn_conv go_defs Let_def electing_def)
  show "currentTerm (startRealElectionLocked e n li lt) = currentTerm n + 1"
    "votedFor (startRealElectionLocked e n li lt) = nid n"
    "role (startRealElectionLocked e n li lt) = Leader \<Longrightarrow> quorum n \<le> 1"
    using a becomeLeader_fields [OF b] by (simp_all add: startRealElection_conv split: if_splits)
  show "standing (startRealElectionLocked e n li lt) t \<Longrightarrow> standing n t \<or> t = currentTerm n + 1"
    using g a by (auto simp: startRealElection_conv standing_def split: if_splits)
qed

lemma elect_ok_startReal:
  assumes ok: "elect_ok ids s" "cluster_ok ids" "base_ok ids s" and p: "p \<in> set ids" "term_room (nodes s p)"
    and n1: "currentTerm n1 = currentTerm (nodes s p)" "nid n1 = nid (nodes s p)" "quorum n1 = quorum (nodes s p)"
      "\<And>t. standing n1 t \<Longrightarrow> standing (nodes s p) t"
    and s': "nodes s' = (nodes s)(p := startRealElectionLocked e n1 li lt)" "net s' = net s"
      "\<And>c r. c \<in> set ids \<Longrightarrow> r \<in> set (rounds s' c) \<Longrightarrow> round_ok ids s c r"
  shows "elect_ok ids s'"
proof -
  have m: "nid (nodes s p) = p" "quorum (nodes s p) = length ids div 2 + 1"
    using base_member [OF ok(3) p(1)] by (auto simp: member_ok_def)
  have tr: "term_room n1" using p(2) n1(1) by (simp add: term_room_def)
  note f = startReal_facts [OF tr, of e li lt]
  show ?thesis
  proof (rule elect_ok_candidate [OF ok(1,2) p(1) _ _ _ _ _ s'])
    show "votes_kept (nodes s p) (startRealElectionLocked e n1 li lt)" using f(1) n1(1) by (simp add: votes_kept_def)
    show "role (startRealElectionLocked e n1 li lt) = Leader \<Longrightarrow> length ids \<le> 1" using f(4) n1(3) m(2) by simp
  qed (use f n1 m in auto)
qed

lemma elect_ok_step:
  assumes st: "sys_step reads opts ids s s'" and ok: "elect_ok ids s" "cluster_ok ids" "base_ok ids s"
  shows "elect_ok ids s'"
proof -
  note D = elect_okD [OF ok(1)]
  note votes = sys_step_votes [OF st ok(3)]
  have quiet: "elect_ok ids s'"
    if "\<And>p. p \<in> set ids \<Longrightarrow> still (nodes s p) (nodes s' p)" "net s \<subseteq> net s'"
      "\<And>m. m \<in> net s' \<Longrightarrow> is_vote m \<Longrightarrow> m \<in> net s"
      "\<And>c r. c \<in> set ids \<Longrightarrow> r \<in> set (rounds s' c) \<Longrightarrow> round_ok ids s c r"
    using that votes by (intro elect_ok_quiet [OF ok(1,2)])
  have lok: "p \<in> set ids \<Longrightarrow> log_ok (nodes s p)" for p using base_log_ok [OF ok(3)] .
  have mok: "m \<in> net s \<Longrightarrow> msg_ok m" for m using ok(3) by (simp add: base_ok_def)
  show ?thesis using st
  proof (cases rule: sys_step.cases)
    case (tick p e)
    let ?n = "nodes s p"
    have "elect_ok ids s'" if "\<not> (role ?n \<noteq> Leader \<and> (case electionDeadline ?n of None \<Rightarrow> True | Some t \<Rightarrow> t < now e)) \<or> preVoteEnabled (cfg ?n)"
    proof (rule quiet)
      fix q assume "q \<in> set ids"
      have "still ?n ((canvassing e ?n)\<lparr>goroutines := goroutines ?n @ [Campaign b i t]\<rparr>)" for b i t
        by (auto simp: still_def standing_def)
      then show "still (nodes s q) (nodes s' q)"
        using tick that by (auto simp: electionTick_def beginCampaign_conv)
    qed (use tick D(13) in auto)
    moreover have "elect_ok ids s'" if "role ?n \<noteq> Leader \<and> (case electionDeadline ?n of None \<Rightarrow> True | Some t \<Rightarrow> t < now e)" "\<not> preVoteEnabled (cfg ?n)"
      using tick that D(13)
      by (intro elect_ok_startReal [OF ok tick(2) tick(5), of "canvassing e ?n" s' e "lastIndex ?n" "lastTerm ?n"])
        (auto simp: electionTick_def beginCampaign_conv standing_def)
    ultimately show ?thesis by blast
  next
    case (spawn p g1 tk g2 r)
    then show ?thesis using elect_ok_spawn [OF ok spawn(2)] by blast
  next
    case (deliver_rv p c rv e n' resp)
    then show ?thesis using elect_ok_vote [OF ok(1,2)] by blast
  next
    case (deliver_rvr c p rv resp r1 r r2 n' cnt)
    then show ?thesis using elect_ok_reply [OF ok] by blast
  next
    case (rv_failed c r1 r r2 p)
    have "round_ok ids s c (r\<lparr>rLeft := removeAll p (rLeft r)\<rparr>)" if "c \<in> set ids"
      using D(13) [OF that, of r] rv_failed(2) by (fastforce simp: round_ok_def)
    then show ?thesis using rv_failed D(13) by (intro quiet) (auto split: if_splits)
  next
    case (campaign_done p r1 r r2 b e)
    let ?w = "gatherVotes_result (nodes s p) (rCount r)"
    have rs: "round_ok ids s c x" if "c \<in> set ids" "x \<in> set (rounds s' c)" for c x
      using that campaign_done D(13) by (auto split: if_splits)
    show ?thesis
    proof (cases "?w \<and> role (nodes s p) = Candidate \<and> currentTerm (nodes s p) = b")
      case True
      then show ?thesis using campaign_done rs
        by (intro elect_ok_startReal [OF ok campaign_done(2) campaign_done(5), of "nodes s p" s' e
              "LastLogIndex (rReq r)" "LastLogTerm (rReq r)"]) (auto simp: campaign_finish_def)
    next
      case False
      then have "campaign_finish e (nodes s p) b (LastLogIndex (rReq r)) (LastLogTerm (rReq r)) ?w = nodes s p"
        by (auto simp: campaign_finish_def)
      then show ?thesis using campaign_done rs by (intro quiet) auto
    qed
  next
    case (deliver_ae q p ae e n' resp)
    then have "still (nodes s q) n'"
      using calm_still [OF calm_AppendEntries [OF lok [OF deliver_ae(2)]], of ae e] mok by fastforce
    then show ?thesis using deliver_ae D(13) by (intro quiet) auto
  next
    case (deliver_is q p "is" e n' resp)
    then have "still (nodes s q) n'" using calm_still [OF calm_InstallSnapshot, of "nodes s q" e "is"] by simp
    then show ?thesis using deliver_is D(13) by (intro quiet) auto
  next
    case (read_deliver q p ae e n' resp)
    then have "still (nodes s q) n'"
      using calm_still [OF calm_AppendEntries [OF lok [OF read_deliver(2)]], of ae e] mok by fastforce
    then show ?thesis using read_deliver D(13) by (intro quiet) auto
  next
    case (apply_ready p)
    have "calm (nodes s p) ((nodes s p)\<lparr>applyCh := False\<rparr>)" by (simp add: calm_def)
    then have "still (nodes s p) (applyReady ((nodes s p)\<lparr>applyCh := False\<rparr>))"
      using calm_still calm_trans calm_applyReady by blast
    then show ?thesis using apply_ready D(13) by (intro quiet) auto
  next
    case (restart p e n')
    have "persisted (nodes s p)" using base_member [OF ok(3) restart(2)] by (simp add: member_ok_def)
    then have "still (nodes s p) n'"
      using startNode_votes(3,10) [OF restart(4)] by (simp add: still_def standing_def)
    then show ?thesis using restart D(13) by (intro quiet) auto
  next
    case (crash p)
    then show ?thesis using D(13) by (intro quiet) (auto split: if_splits)
  next
    case (wake p i ch wk n' res)
    then have "still (nodes s p) n'" by (intro calm_still calm_wake)
    then show ?thesis using wake D(13) by (intro quiet) auto
  qed (rule quiet; auto simp: calm_still calm_append_reply calm_snapshot_reply calm_Propose calm_Submit calm_confirm intro: D(13))+
qed

lemma elect_ok_initial: "initial opts ids s \<Longrightarrow> elect_ok ids s"
proof -
  assume i: "initial opts ids s"
  have "role (nodes s p) = Follower \<and> goroutines (nodes s p) = [ElectionLoop, ApplyLoop]" if p: "p \<in> set ids" for p
  proof -
    obtain e where e: "startNode opts ids e p NewMemStore = Some (nodes s p)" using i p by (auto simp: initial_def)
    then have "member_ok ids p (nodes s p)" by (rule member_ok_boot)
    obtain n0 where n0: "New (nodeConfig opts ids p) NewMemStore New_jukebox = Inr n0" "nodes s p = Start e n0"
      using e by (rule startNode_New)
    have "booted (nodeConfig opts ids p) n0" using n0(1) by (auto simp: booted_def nodeConfig_def)
    from booted_persisted [OF this] have "persisted n0" .
    moreover have "disk n0 = NewMemStore"
      using n0(1) by (rule New_Inr) (auto simp: nodeConfig_def loadFromStorage_def new_node_def mem_defs NewMemStore_def)
    ultimately show ?thesis
      using startNode_votes(3,10) [of opts ids e p n0 "nodes s p"] e by simp
  qed
  then show ?thesis
    using i by (intro elect_okI) (auto simp: initial_def granted_to_def asked_def standing_def)
qed

lemma reachable_elect_ok: "reachable reads opts ids s \<Longrightarrow> cluster_ok ids \<Longrightarrow> elect_ok ids s"
proof (induction rule: reachable.induct)
  case (step s s')
  then show ?case using elect_ok_step reachable_base by blast
qed (rule elect_ok_initial)

lemma sys_steps_reachable: "(sys_step reads opts ids)\<^sup>*\<^sup>* s s' \<Longrightarrow> reachable reads opts ids s \<Longrightarrow> reachable reads opts ids s' \<and> net s \<subseteq> net s'"
proof (induction rule: rtranclp_induct)
  case (step a b)
  then show ?case using sys_step_net(1) reachable_base reachable.step by (meson subset_trans)
qed simp

text \<open>
  C1: Election safety.  In any execution of the cluster, with messages lost, duplicated, delayed
  and reordered, servers crashing and restarting from their stores, and linearizable reads going
  on, two servers that are leader of the same term, at whatever moments, are the same server.
\<close>

theorem election_safety:
  assumes "cluster_ok ids" "reachable reads opts ids s" "(sys_step reads opts ids)\<^sup>*\<^sup>* s s'"
    and "p \<in> set ids" "role (nodes s p) = Leader" "q \<in> set ids" "role (nodes s' q) = Leader"
    and "currentTerm (nodes s p) = currentTerm (nodes s' q)"
  shows "p = q"
proof -
  have s': "reachable reads opts ids s'" "net s \<subseteq> net s'" using sys_steps_reachable assms(2,3) by blast+
  have "elected ids s p (currentTerm (nodes s p))"
    using elect_okD(14) [OF reachable_elect_ok] assms(1,2,4,5) by blast
  then have "elected ids s' p (currentTerm (nodes s' q))" using elected_mono s'(2) assms(8) by metis
  moreover have ok: "elect_ok ids s'" using reachable_elect_ok s'(1) assms(1) by blast
  moreover have "elected ids s' q (currentTerm (nodes s' q))" using elect_okD(14) [OF ok assms(6,7)] .
  ultimately show ?thesis using elected_unique assms(1,4,6) by (auto simp: cluster_ok_def)
qed

end
