(* ===== verification/LogSim.thy ===== *)
theory LogSim
  imports LogView ElectionSafety
begin

text \<open>
  The servers of the cluster simulate the abstract log protocol of theory \<open>RaftSpec\<close>.  A server is
  related to its abstract log, term and commit index (\<open>node_sim\<close>), a message in the network to
  what it claims of the leaders' logs and the acknowledgements (\<open>msg_sim\<close>).  Each handler is
  matched by a few abstract steps of its server.  Linearizable reads are left out here: their
  heartbeats break the commit rule (theory \<open>ReadAnomalies\<close>).
\<close>

section \<open>Majorities and moves\<close>

definition majority :: "nodeid list \<Rightarrow> nodeid set \<Rightarrow> bool" where
  "majority ids A \<longleftrightarrow> A \<subseteq> set ids \<and> length ids < 2 * card A"

interpretation maj: quorums "majority ids" for ids
proof
  fix A B assume a: "majority ids A" and b: "majority ids B"
  then have fin: "finite A" "finite B" by (auto simp: majority_def intro: finite_subset)
  show "A \<inter> B \<noteq> {}"
  proof
    assume "A \<inter> B = {}"
    then have "card A + card B = card (A \<union> B)" using fin by (simp add: card_Un_disjoint)
    also have "\<dots> \<le> card (set ids)" using a b by (intro card_mono) (auto simp: majority_def)
    also have "\<dots> \<le> length ids" by (rule card_length)
    finally show False using a b by (simp add: majority_def)
  qed
qed

definition spec_le :: "(nodeid set \<Rightarrow> bool) \<Rightarrow> spec \<Rightarrow> spec \<Rightarrow> bool" where
  "spec_le Q a b \<longleftrightarrow> (\<forall>T. \<exists>Y. sLead b T = sLead a T @ Y) \<and> (\<forall>T. sLead a T \<noteq> [] \<longrightarrow> sBoss b T = sBoss a T) \<and>
     sAck a \<subseteq> sAck b \<and> sClaim a \<subseteq> sClaim b \<and> sVote a \<subseteq> sVote b \<and> (\<forall>c X T. agreed Q a c X T \<longrightarrow> agreed Q b c X T)"

lemma spec_le_refl [simp]: "spec_le Q a a"
  by (simp add: spec_le_def)

lemma spec_le_trans: "spec_le Q a b \<Longrightarrow> spec_le Q b c \<Longrightarrow> spec_le Q a c"
proof -
  assume ab: "spec_le Q a b" and bc: "spec_le Q b c"
  have "\<exists>Y. sLead c T = sLead a T @ Y" for T
    using ab bc unfolding spec_le_def by (metis append.assoc)
  moreover have "sBoss c T = sBoss a T" if "sLead a T \<noteq> []" for T
    using ab bc that unfolding spec_le_def by (metis append_is_Nil_conv)
  ultimately show ?thesis using ab bc unfolding spec_le_def by blast
qed

lemma spec_step_le:
  assumes "spec_step Q a b" "spec_inv Q a"
  shows "spec_le Q a b"
proof -
  have ag: "\<forall>c X T. agreed Q a c X T \<longrightarrow> agreed Q b c X T" using agreed_step [OF assms] by blast
  from assms(1) have "(\<forall>T. \<exists>Y. sLead b T = sLead a T @ Y) \<and> (\<forall>T. sLead a T \<noteq> [] \<longrightarrow> sBoss b T = sBoss a T) \<and>
     sAck a \<subseteq> sAck b \<and> sClaim a \<subseteq> sClaim b \<and> sVote a \<subseteq> sVote b"
  proof (cases rule: spec_step.cases)
    case (extend T c e X)
    then have "sLog a c = sLead a T" using assms(2) by (auto simp: spec_inv_def inv_boss_def)
    then show ?thesis using extend by auto
  qed auto
  then show ?thesis using ag by (simp add: spec_le_def)
qed

lemma spec_le_lead:
  assumes "spec_le Q a b"
  obtains Y where "sLead b T = sLead a T @ Y"
  using assms unfolding spec_le_def by blast

definition only :: "nodeid \<Rightarrow> spec \<Rightarrow> spec \<Rightarrow> bool" where
  "only p a b \<longleftrightarrow> (\<forall>q. q \<noteq> p \<longrightarrow> sTerm b q = sTerm a q \<and> sLog b q = sLog a q \<and> sCommit b q = sCommit a q)"

text \<open>Some abstract steps of the server \<open>p\<close>, which get a leader only for terms of \<open>U\<close>.\<close>

definition moves :: "nodeid list \<Rightarrow> nodeid \<Rightarrow> nat set \<Rightarrow> spec \<Rightarrow> spec \<Rightarrow> bool" where
  "moves ids p U a b \<longleftrightarrow> spec_inv (majority ids) b \<and> spec_le (majority ids) a b \<and> only p a b \<and>
     (\<forall>T. sLead b T \<noteq> [] \<longrightarrow> sLead a T \<noteq> [] \<or> T \<in> U)"

lemma moves_refl: "spec_inv (majority ids) a \<Longrightarrow> moves ids p U a a"
  by (simp add: moves_def only_def)

lemma moves_trans: "moves ids p U a b \<Longrightarrow> moves ids p U b c \<Longrightarrow> moves ids p U a c"
  unfolding moves_def only_def using spec_le_trans by metis

lemma moves_mono: "moves ids p U a b \<Longrightarrow> U \<subseteq> V \<Longrightarrow> moves ids p V a b"
  unfolding moves_def by blast

lemma movesD: "moves ids p U a b \<Longrightarrow> spec_inv (majority ids) b" "moves ids p U a b \<Longrightarrow> spec_le (majority ids) a b"
  by (simp_all add: moves_def)

lemma moves_step:
  assumes "spec_step (majority ids) a b" "spec_inv (majority ids) a" "only p a b" "\<And>T. sLead b T \<noteq> [] \<Longrightarrow> sLead a T \<noteq> [] \<or> T \<in> U"
  shows "moves ids p U a b"
  unfolding moves_def using maj.spec_step_inv spec_step_le assms by blast

section \<open>Servers\<close>

fun task_sim :: "spec \<Rightarrow> nodeid \<Rightarrow> task \<Rightarrow> bool" where
  "task_sim a p (Campaign b li lt) \<longleftrightarrow> (p, add64 b 1, li, lt) \<in> sClaim a"
| "task_sim a p (GatherVotes t li lt pv) \<longleftrightarrow> (p, t, li, lt) \<in> sClaim a"
| "task_sim a p _ \<longleftrightarrow> True"

definition leads :: "spec \<Rightarrow> nodeid \<Rightarrow> ('s, 'm) Node \<Rightarrow> bool" where
  "leads a p n \<longleftrightarrow> sLead a (currentTerm n) \<noteq> [] \<and> sBoss a (currentTerm n) = p \<and> (p, currentTerm n, lastIndex n) \<in> sAck a \<and>
     (\<forall>q. mget (matchIndex n) q \<le> commitIndex n \<or> (\<exists>j\<ge>mget (matchIndex n) q. (q, currentTerm n, j) \<in> sAck a))"

definition node_sim :: "spec \<Rightarrow> nodeid \<Rightarrow> ('s, 'm) Node \<Rightarrow> bool" where
  "node_sim a p n \<longleftrightarrow> sTerm a p = currentTerm n \<and> view (sLog a p) n \<and> sCommit a p = commitIndex n \<and>
     snapshotIndex n \<le> commitIndex n \<and> lastApplied n \<le> commitIndex n \<and> (role n = Leader \<longrightarrow> leads a p n) \<and>
     (\<forall>tk\<in>set (goroutines n). task_sim a p tk)"

lemma node_simD:
  assumes "node_sim a p n"
  shows "sTerm a p = currentTerm n" "view (sLog a p) n" "sCommit a p = commitIndex n" "snapshotIndex n \<le> commitIndex n"
    "lastApplied n \<le> commitIndex n" "role n = Leader \<Longrightarrow> leads a p n" "tk \<in> set (goroutines n) \<Longrightarrow> task_sim a p tk"
  using assms by (simp_all add: node_sim_def)

lemma task_sim_mono: "task_sim a p tk \<Longrightarrow> spec_le Q a b \<Longrightarrow> task_sim b p tk"
  by (cases tk) (auto simp: spec_le_def)

lemma leads_mono: "leads a p n \<Longrightarrow> spec_le Q a b \<Longrightarrow> leads b p n"
  unfolding leads_def spec_le_def by (metis append_is_Nil_conv subsetD)

lemma node_sim_other: "node_sim a q n \<Longrightarrow> moves ids p U a b \<Longrightarrow> q \<noteq> p \<Longrightarrow> node_sim b q n"
  unfolding node_sim_def moves_def only_def using task_sim_mono leads_mono by metis

text \<open>Steps that leave the log alone: they may raise the term and give up leadership.\<close>

definition light :: "('s, 'm) Node \<Rightarrow> ('s, 'm) Node \<Rightarrow> bool" where
  "light n n' \<longleftrightarrow> entries n' = entries n \<and> snapshotIndex n' = snapshotIndex n \<and> snapshotTerm n' = snapshotTerm n \<and>
     currentTerm n \<le> currentTerm n' \<and> commitIndex n' = commitIndex n \<and> lastApplied n' \<le> commitIndex n' \<and>
     (role n' = Leader \<longrightarrow> role n = Leader \<and> currentTerm n' = currentTerm n \<and> matchIndex n' = matchIndex n)"

definition idle :: "task \<Rightarrow> bool" where
  "idle tk \<longleftrightarrow> (case tk of Campaign b li lt \<Rightarrow> False | GatherVotes t li lt pv \<Rightarrow> False | _ \<Rightarrow> True)"

lemma idle_sim: "idle tk \<Longrightarrow> task_sim a p tk"
  by (cases tk) (auto simp: idle_def)

definition no_tasks :: "('s, 'm) Node \<Rightarrow> ('s, 'm) Node \<Rightarrow> bool" where
  "no_tasks n n' \<longleftrightarrow> (\<forall>tk\<in>set (goroutines n'). tk \<in> set (goroutines n) \<or> idle tk)"

lemma no_tasks_sim: "node_sim a p n \<Longrightarrow> no_tasks n n' \<Longrightarrow> spec_le Q a b \<Longrightarrow> tk \<in> set (goroutines n') \<Longrightarrow> task_sim b p tk"
  using task_sim_mono idle_sim unfolding node_sim_def no_tasks_def by metis

lemma sim_light:
  assumes n: "node_sim a p n" and n': "light n n'" "\<And>tk. tk \<in> set (goroutines n') \<Longrightarrow> task_sim b p tk"
    and b: "spec_le Q a b" "sTerm b p = currentTerm n'" "sLog b p = sLog a p" "sCommit b p = sCommit a p"
  shows "node_sim b p n'"
proof -
  have "view (sLog b p) n'" using view_cong [of n' n] n n'(1) b(3) by (simp add: node_sim_def light_def)
  moreover have "leads b p n'" if "role n' = Leader"
  proof -
    have "lastIndex n' = lastIndex n" using n'(1) by (simp add: light_def lastIndex_def)
    then have "leads b p n' = leads b p n" using n'(1) that by (simp add: light_def leads_def)
    then show ?thesis using leads_mono [OF _ b(1), of p n] n n'(1) that by (simp add: node_sim_def light_def)
  qed
  ultimately show ?thesis using n n' b by (auto simp: node_sim_def light_def)
qed

lemma sim_quiet: "node_sim a p n \<Longrightarrow> light n n' \<Longrightarrow> no_tasks n n' \<Longrightarrow> currentTerm n' = currentTerm n \<Longrightarrow> node_sim a p n'"
  using no_tasks_sim [of a p n n' "\<lambda>_. True" a] by (intro sim_light [of a p n n' a "\<lambda>_. True"]) (auto simp: node_sim_def)

lemma sim_raise:
  assumes "node_sim a p n" "light n n'" "no_tasks n n'" "spec_inv (majority ids) a"
  defines "b \<equiv> a\<lparr>sTerm := (sTerm a)(p := currentTerm n')\<rparr>"
  shows "moves ids p {} a b" "node_sim b p n'"
proof -
  have "spec_step (majority ids) a b" unfolding b_def
    using assms(1,2) by (intro spec_step.advance) (simp add: node_sim_def light_def)
  then show m: "moves ids p {} a b" using assms(4) by (rule moves_step) (simp_all add: only_def b_def)
  then show "node_sim b p n'"
    using no_tasks_sim [OF assms(1,3)] by (intro sim_light [OF assms(1,2)]) (auto simp: b_def moves_def)
qed

text \<open>The log of a leader is its term's.\<close>

lemma leads_log:
  assumes "spec_inv Q a" "node_sim a p n" "role n = Leader"
  shows "sLog a p = sLead a (currentTerm n)" "leads a p n"
  using assms by (auto simp: node_sim_def leads_def spec_inv_def inv_boss_def)

lemma light_ops:
  assumes "lastApplied n \<le> commitIndex n"
  shows "light n (stepDown t n)" "light n (heard e n t l)" "light n (fst (RequestVote e n rv))" "light n (n\<lparr>sm := m\<rparr>)"
    "role n \<noteq> Leader \<Longrightarrow> light n (canvassing e n)"
  using assms by (simp_all add: light_def go_defs RequestVote_def Let_def)

lemma calm_tasks: "calm n n' \<Longrightarrow> no_tasks n n'"
  by (auto simp: calm_def no_tasks_def)

section \<open>Messages\<close>

definition ae_sim :: "(nodeid set \<Rightarrow> bool) \<Rightarrow> spec \<Rightarrow> nodeid \<Rightarrow> AppendEntriesRequest \<Rightarrow> bool" where
  "ae_sim Q a p ae \<longleftrightarrow> (let L = sLead a (aeTerm ae); i = PrevLogIndex ae; m = length (aeEntries ae) in
     L \<noteq> [] \<and> sBoss a (aeTerm ae) = p \<and> i + m \<le> length L \<and> (i = 0 \<or> has L i (PrevLogTerm ae)) \<and>
     aeEntries ae = take m (drop i L) \<and> LeaderCommit ae \<le> i + m \<and> agreed Q a (LeaderCommit ae) L (aeTerm ae))"

definition is_sim :: "(nodeid set \<Rightarrow> bool) \<Rightarrow> spec \<Rightarrow> nodeid \<Rightarrow> InstallSnapshotRequest \<Rightarrow> bool" where
  "is_sim Q a p is \<longleftrightarrow> (let L = sLead a (isTerm is); i = LastIncludedIndex is in
     L \<noteq> [] \<and> sBoss a (isTerm is) = p \<and> (0 < i \<longrightarrow> has L i (LastIncludedTerm is)) \<and> agreed Q a i L (isTerm is))"

fun msg_sim :: "(nodeid set \<Rightarrow> bool) \<Rightarrow> spec \<Rightarrow> msg \<Rightarrow> bool" where
  "msg_sim Q a (RV c q rv) \<longleftrightarrow> (c, rvTerm rv, LastLogIndex rv, LastLogTerm rv) \<in> sClaim a"
| "msg_sim Q a (RVR v c rv resp) \<longleftrightarrow> (VoteGranted resp \<and> \<not> PreVote rv \<longrightarrow>
     (v, c, rvTerm rv, LastLogIndex rv, LastLogTerm rv) \<in> sVote a)"
| "msg_sim Q a (AE p q ae) \<longleftrightarrow> p \<noteq> q \<and> ae_sim Q a p ae"
| "msg_sim Q a (AER q p ae resp) \<longleftrightarrow> (Success resp \<longrightarrow> (q, aeTerm ae, PrevLogIndex ae + length (aeEntries ae)) \<in> sAck a)"
| "msg_sim Q a (IS p q is) \<longleftrightarrow> p \<noteq> q \<and> is_sim Q a p is"
| "msg_sim Q a (ISR q p is resp) \<longleftrightarrow> is_sim Q a p is"
| "msg_sim Q a (ReadAE p q ae) \<longleftrightarrow> False"
| "msg_sim Q a (ReadAER q p ae resp) \<longleftrightarrow> False"

lemma agreed_lead_mono:
  assumes "spec_le Q a b" "agreed Q a c (sLead a T) U"
  shows "agreed Q b c (sLead b T) U"
proof -
  obtain Y where Y: "sLead b T = sLead a T @ Y" using assms(1) by (rule spec_le_lead)
  have "agreed Q b c (sLead a T) U" using assms by (auto simp: spec_le_def)
  then show ?thesis using Y by (auto simp: agreed_def)
qed

lemma ae_sim_mono: "ae_sim Q a p ae \<Longrightarrow> spec_le Q a b \<Longrightarrow> ae_sim Q b p ae"
proof -
  assume a: "ae_sim Q a p ae" and le: "spec_le Q a b"
  obtain Y where Y: "sLead b (aeTerm ae) = sLead a (aeTerm ae) @ Y" using le by (rule spec_le_lead)
  have "sBoss b (aeTerm ae) = sBoss a (aeTerm ae)" using a le by (auto simp: ae_sim_def spec_le_def Let_def)
  then show ?thesis using a Y agreed_lead_mono [OF le, of "LeaderCommit ae" "aeTerm ae" "aeTerm ae"] has_append
    by (auto simp: ae_sim_def Let_def)
qed

lemma is_sim_mono: "is_sim Q a p is \<Longrightarrow> spec_le Q a b \<Longrightarrow> is_sim Q b p is"
proof -
  assume a: "is_sim Q a p is" and le: "spec_le Q a b"
  obtain Y where Y: "sLead b (isTerm is) = sLead a (isTerm is) @ Y" using le by (rule spec_le_lead)
  have "sBoss b (isTerm is) = sBoss a (isTerm is)" using a le by (auto simp: is_sim_def spec_le_def Let_def)
  then show ?thesis using a Y agreed_lead_mono [OF le, of "LastIncludedIndex is" "isTerm is" "isTerm is"] has_append
    by (auto simp: is_sim_def Let_def)
qed

lemma msg_sim_mono: "msg_sim Q a m \<Longrightarrow> spec_le Q a b \<Longrightarrow> msg_sim Q b m"
  by (cases m) (auto simp: ae_sim_mono is_sim_mono, auto simp: spec_le_def)

text \<open>What a leader sends.\<close>

lemma node_agreed:
  assumes "spec_inv Q a" "node_sim a p n" "c \<le> commitIndex n"
  shows "agreed Q a c (sLog a p) (currentTerm n)"
proof -
  have "agreed Q a (sCommit a p) (sLog a p) (sTerm a p)" using assms(1) by (simp add: spec_inv_def inv_commit_def)
  then show ?thesis using node_simD(1,3) [OF assms(2)] agreed_less assms(3) by metis
qed

lemma sim_send_entries:
  assumes inv: "spec_inv Q a" and n: "node_sim a p n" "log_ok n" and sent: "sendAppendEntries n q = SendEntries ae"
  shows "ae_sim Q a p ae"
proof -
  note sp = sendAppendEntries_spec [OF n(2) sent]
  note l = leads_log [OF inv n(1) sp(1)]
  let ?X = "sLog a p" and ?i = "PrevLogIndex ae"
  note v = view_entries [OF n(2) node_simD(2) [OF n(1)]]
  have i: "?i \<le> length ?X" using sp(6) v(3) by simp
  have es: "aeEntries ae = drop ?i ?X" using sp(5,8) v(1) by (simp add: Suc_diff_le)
  have "agreed Q a (commitIndex n) ?X (currentTerm n)" using node_agreed [OF inv n(1)] by simp
  moreover from this have "commitIndex n \<le> length ?X" by (simp add: agreed_def)
  moreover have "?i = 0 \<or> has ?X ?i (PrevLogTerm ae)" using sp(7) view_termAt [OF n(2) node_simD(2) [OF n(1)]] by (auto split: if_splits)
  ultimately show ?thesis using i es l sp(2,4) by (simp add: ae_sim_def leads_def)
qed

lemma sim_send_snapshot:
  assumes inv: "spec_inv Q a" and n: "node_sim a p n" and sent: "sendSnapshot n t = Some is"
  shows "is_sim Q a p is"
proof -
  note sp = sendSnapshot_spec [OF sent]
  note l = leads_log [OF inv n sp(1)]
  have "has (sLog a p) (snapshotIndex n) (snapshotTerm n)" if "0 < snapshotIndex n"
    using node_simD(2) [OF n] that by (simp add: view_def has_def)
  then show ?thesis using l sp node_agreed [OF inv n node_simD(4) [OF n]] by (simp add: is_sim_def leads_def)
qed

section \<open>Followers\<close>

lemma agreed_cong: "agreed Q a c X T \<Longrightarrow> take c Y = take c X \<Longrightarrow> c \<le> length Y \<Longrightarrow> agreed Q a c Y T"
  by (auto simp: agreed_def)

lemma sim_commit:
  assumes "spec_inv (majority ids) a" "agreed (majority ids) a c (sLog a p) (sTerm a p)"
  defines "b \<equiv> a\<lparr>sCommit := (sCommit a)(p := c)\<rparr>"
  shows "moves ids p {} a b"
proof -
  have "spec_step (majority ids) a b"
  proof (cases "c = 0")
    case True
    then show ?thesis unfolding b_def by (intro spec_step.forget) simp
  next
    case False
    then obtain i t where "chosen (majority ids) a i t" "t \<le> sTerm a p" "c \<le> i" "take c (sLog a p) = take c (sLead a t)"
      using assms(2) unfolding agreed_def by blast
    moreover have "c \<le> length (sLog a p)" using assms(2) by (simp add: agreed_def)
    ultimately show ?thesis unfolding b_def by (intro spec_step.commit)
  qed
  then show ?thesis using assms(1) by (rule moves_step) (simp_all add: b_def only_def)
qed

text \<open>A follower takes over a prefix of the leader's log, and perhaps its commit index.\<close>

lemma sim_accept:
  assumes inv: "spec_inv (majority ids) a" and n: "node_sim a q n"
    and T: "sLead a T \<noteq> []" "sBoss a T \<noteq> q" "currentTerm n \<le> T"
    and X: "overwrite (sLead a T) (sLog a q) X" "i \<le> length X" "take i X = take i (sLead a T)" "i \<le> length (sLead a T)"
    and n': "currentTerm n' = T" "view X n'" "role n' \<noteq> Leader" "no_tasks n n'" "snapshotIndex n' \<le> commitIndex n'"
      "lastApplied n' \<le> commitIndex n'"
    and c: "commitIndex n' = commitIndex n \<or> commitIndex n' \<le> i \<and> agreed (majority ids) a (commitIndex n') (sLead a T) T"
  obtains b where "moves ids q {} a b" "node_sim b q n'" "(q, T, i) \<in> sAck b"
proof -
  define a1 where "a1 = a\<lparr>sTerm := (sTerm a)(q := T), sLog := (sLog a)(q := X), sAck := insert (q, T, i) (sAck a)\<rparr>"
  have "spec_step (majority ids) a a1"
    unfolding a1_def using T X node_simD(1) [OF n] by (intro spec_step.accept) simp_all
  then have m1: "moves ids q {} a a1" using inv by (rule moves_step) (simp_all add: a1_def only_def)
  define b where "b = a1\<lparr>sCommit := (sCommit a1)(q := commitIndex n')\<rparr>"
  have "agreed (majority ids) a1 (commitIndex n') X T" using c
  proof
    assume "commitIndex n' = commitIndex n"
    then have "sCommit a1 q = commitIndex n'" "sLog a1 q = X" "sTerm a1 q = T" using node_simD(3) [OF n] by (simp_all add: a1_def)
    moreover have "agreed (majority ids) a1 (sCommit a1 q) (sLog a1 q) (sTerm a1 q)"
      using movesD(1) [OF m1] unfolding spec_inv_def inv_commit_def by blast
    ultimately show ?thesis by simp
  next
    assume c: "commitIndex n' \<le> i \<and> agreed (majority ids) a (commitIndex n') (sLead a T) T"
    then have "agreed (majority ids) a1 (commitIndex n') (sLead a T) T" using movesD(2) [OF m1] by (auto simp: spec_le_def)
    moreover have "take (commitIndex n') X = take (commitIndex n') (sLead a T)" using c X(3) by (metis min.absorb1 take_take)
    ultimately show ?thesis using c X(2) by (auto intro: agreed_cong)
  qed
  then have m2: "moves ids q {} a1 b" unfolding b_def by (intro sim_commit [OF movesD(1) [OF m1]]) (simp add: a1_def)
  have m: "moves ids q {} a b" using moves_trans [OF m1 m2] .
  have "node_sim b q n'"
    using n' no_tasks_sim [OF n n'(4) movesD(2) [OF m]] by (auto simp: node_sim_def b_def a1_def)
  then show thesis using m by (intro that [of b]) (simp_all add: b_def a1_def)
qed

lemma snapshot_in_lead:
  assumes "spec_inv (majority ids) a" "node_sim a q n" "currentTerm n \<le> T" "sLead a T \<noteq> []"
  shows "take (snapshotIndex n) (sLog a q) = take (snapshotIndex n) (sLead a T)" "snapshotIndex n \<le> length (sLead a T)"
  using maj.agreed_in_lead [OF assms(1) node_agreed [OF assms(1,2) node_simD(4) [OF assms(2)]] assms(3,4)] .

lemma inv_coh: "spec_inv Q a \<Longrightarrow> coh (sLead a) (sLog a p)" "spec_inv Q a \<Longrightarrow> coh (sLead a) (sLead a T)"
  by (simp_all add: spec_inv_def log_coh lead_coh)

lemma sim_accepted_entries:
  assumes inv: "spec_inv (majority ids) a" and n: "node_sim a q n" "log_ok n"
    and ae: "ae_sim (majority ids) a p ae" "p \<noteq> q" "req_ok ae" "accepts n ae" and n': "AppendEntries e n ae = (n', resp)"
  obtains b where "moves ids q {} a b" "node_sim b q n'" "(q, aeTerm ae, PrevLogIndex ae + length (aeEntries ae)) \<in> sAck b"
proof -
  let ?T = "aeTerm ae" and ?i = "PrevLogIndex ae" and ?m = "length (aeEntries ae)"
  define h where "h = heard e n ?T (aeLeaderId ae)"
  have L: "sLead a ?T \<noteq> []" "sBoss a ?T = p" "?i + ?m \<le> length (sLead a ?T)" "?i = 0 \<or> has (sLead a ?T) ?i (PrevLogTerm ae)"
    "aeEntries ae = take ?m (drop ?i (sLead a ?T))" "LeaderCommit ae \<le> ?i + ?m" "agreed (majority ids) a (LeaderCommit ae) (sLead a ?T) ?T"
    using ae(1) by (simp_all add: ae_sim_def Let_def)
  have T: "currentTerm n \<le> ?T" using ae(4) by (simp add: accepts_def)
  obtain X where X: "view X (n\<lparr>entries := mergeLog n (aeEntries ae)\<rparr>)" "overwrite (sLead a ?T) (sLog a q) X"
      "?i + ?m \<le> length X" "take (?i + ?m) X = take (?i + ?m) (sLead a ?T)"
    using merge_view [OF n(2) node_simD(2) [OF n(1)] inv_coh [OF inv] snapshot_in_lead [OF inv n(1) T L(1)] ae(3,4) refl L(5,3,4)] .
  define h' where "h' = h\<lparr>entries := mergeLog n (aeEntries ae), disk := mergeDisk h (aeEntries ae)\<rparr>"
  have n'': "n' = commitTo h' (LeaderCommit ae)"
    using AppendEntries_accept [OF n(2) ae(3,4) h_def] n' by (simp add: h'_def)
  have "log_ok n'" using AppendEntries_log_ok [OF n(2) ae(3), of e] n' by simp
  moreover have v: "view X n'" using X(1) by (simp add: n'' view_def commitTo_conv h'_def h_def)
  ultimately have "lastIndex n' = length X" using view_entries(3) by blast
  moreover have "lastIndex n' = lastIndex h'" by (simp add: n'' commitTo_conv lastIndex_def)
  ultimately have c: "commitIndex n' = (if commitIndex n < LeaderCommit ae then LeaderCommit ae else commitIndex n)"
    using X(3) L(6) by (simp add: n'' commitTo_conv h'_def h_def)
  have f: "currentTerm n' = ?T" "role n' \<noteq> Leader" "snapshotIndex n' = snapshotIndex n" "lastApplied n' = lastApplied n"
    using T by (simp_all add: n'' commitTo_conv h'_def h_def max_def)
  have s: "snapshotIndex n' \<le> commitIndex n'" "lastApplied n' \<le> commitIndex n'" using f(3,4) c node_simD(4,5) [OF n(1)] by simp_all
  have cc: "commitIndex n' = commitIndex n \<or> commitIndex n' \<le> ?i + ?m \<and> agreed (majority ids) a (commitIndex n') (sLead a ?T) ?T"
    using c L(6,7) by simp
  have boss: "sBoss a ?T \<noteq> q" using L(2) ae(2) by simp
  have tasks: "no_tasks n n'" using calm_tasks [OF calm_AppendEntries [OF n(2) ae(3), of e]] n' by simp
  show thesis
    using sim_accept [OF inv n(1) L(1) boss T X(2,3,4) L(3) f(1) v f(2) tasks s cc] that .
qed

lemma sim_AppendEntries:
  assumes inv: "spec_inv (majority ids) a" and n: "node_sim a q n" "log_ok n"
    and ae: "ae_sim (majority ids) a p ae" "p \<noteq> q" "req_ok ae" and n': "AppendEntries e n ae = (n', resp)"
  obtains b where "moves ids q {} a b" "node_sim b q n'" "msg_sim (majority ids) b (AER q p ae resp)"
proof (cases "accepts n ae")
  case False
  have "light n n'"
    using AppendEntries_reject(1) [OF False, of e] n' light_ops(2) [OF node_simD(5) [OF n(1)], of e] node_simD(5) [OF n(1)]
    by (auto simp: light_def split: if_splits)
  moreover have "no_tasks n n'" using calm_tasks [OF calm_AppendEntries [OF n(2) ae(3), of e]] n' by simp
  ultimately show thesis
    using sim_raise [OF n(1) _ _ inv] that AppendEntries_reject(2) [OF False, of e] n' by auto
next
  case True
  then show thesis using sim_accepted_entries [OF inv n ae True n'] that by auto
qed

lemma sim_InstallSnapshot:
  assumes inv: "spec_inv (majority ids) a" and n: "node_sim a q n" "log_ok n"
    and req: "is_sim (majority ids) a p is" "p \<noteq> q" and n': "InstallSnapshot e n is = (n', resp)"
  obtains b where "moves ids q {} a b" "node_sim b q n'"
proof -
  let ?T = "isTerm is" and ?i = "LastIncludedIndex is" and ?t = "LastIncludedTerm is"
  define h where "h = heard e n ?T (isLeaderId is)"
  have tasks: "no_tasks n n'" using calm_tasks [OF calm_InstallSnapshot, of n e "is"] n' by simp
  have "light n n' \<or> currentTerm n \<le> ?T \<and> snapshotIndex n < ?i \<and> (\<exists>m. n' = adoptSnapshot (h\<lparr>sm := m\<rparr>) is)"
    using n' node_simD(5) [OF n(1)] light_ops(2) [OF node_simD(5) [OF n(1)], of e ?T "isLeaderId is"]
    by (auto simp: InstallSnapshot_conv Let_def light_def h_def split: if_splits prod.splits option.splits)
  then show thesis
  proof (elim disjE conjE exE)
    assume "light n n'"
    from sim_raise [OF n(1) this tasks inv] show thesis by (rule that)
  next
    fix m assume T: "currentTerm n \<le> ?T" and i: "snapshotIndex n < ?i" and n'': "n' = adoptSnapshot (h\<lparr>sm := m\<rparr>) is"
    define h' where "h' = h\<lparr>sm := m\<rparr>"
    have h': "log_ok h'" "view (sLog a q) h'" "snapshotIndex h' < ?i"
      using n(2) i node_simD(2) [OF n(1)] by (simp_all add: h'_def h_def view_def)
    have L: "sLead a ?T \<noteq> []" "sBoss a ?T = p" "has (sLead a ?T) ?i ?t" "agreed (majority ids) a ?i (sLead a ?T) ?T"
      using req(1) i by (simp_all add: is_sim_def Let_def)
    obtain X where X: "view X (rebase h' (adoptDisk h' is) ?i ?t (isData is) (keptBy h' ?i ?t))"
        "overwrite (sLead a ?T) (sLog a q) X" "?i \<le> length X" "take ?i X = take ?i (sLead a ?T)"
      using adopt_view [OF h'(1,2) inv_coh [OF inv] h'(3) L(3)] .
    note conv = adoptSnapshot_conv [OF h'(1,3), folded n'' [folded h'_def]]
    have v: "view X n'" by (rule iffD2 [OF view_cong X(1)]) (simp_all add: conv)
    have iL: "?i \<le> length (sLead a ?T)" using L(3) by (simp add: has_def)
    have f: "currentTerm n' = ?T" "role n' \<noteq> Leader" "snapshotIndex n' = ?i" "lastApplied n' = max (lastApplied n) ?i"
      "commitIndex n' = max (commitIndex n) ?i"
      using T by (simp_all add: conv h'_def h_def max_def)
    have s: "snapshotIndex n' \<le> commitIndex n'" "lastApplied n' \<le> commitIndex n'" using f(3-5) node_simD(5) [OF n(1)] by simp_all
    have cc: "commitIndex n' = commitIndex n \<or> commitIndex n' \<le> ?i \<and> agreed (majority ids) a (commitIndex n') (sLead a ?T) ?T"
      using f(5) L(4) by (auto simp: max_def)
    have boss: "sBoss a ?T \<noteq> q" using L(2) req(2) by simp
    show thesis
      using sim_accept [OF inv n(1) L(1) boss T X(2,3,4) iL f(1) v f(2) tasks s cc] that .
  qed
qed

lemma sim_RequestVote:
  assumes inv: "spec_inv (majority ids) a" and n: "node_sim a q n" "log_ok n"
    and rv: "(c, rvTerm rv, LastLogIndex rv, LastLogTerm rv) \<in> sClaim a" and n': "RequestVote e n rv = (n', resp)"
  obtains b where "moves ids q {} a b" "node_sim b q n'" "msg_sim (majority ids) b (RVR q c rv resp)"
proof -
  have l: "light n n'" using light_ops(3) [OF node_simD(5) [OF n(1)], of e rv] n' by simp
  have tasks: "no_tasks n n'" using calm_tasks [OF calm_RequestVote, of n e rv] n' by simp
  show thesis
  proof (cases "VoteGranted resp \<and> \<not> PreVote rv")
    case False
    then show thesis using sim_raise [OF n(1) l tasks inv] that by auto
  next
    case True
    let ?T = "rvTerm rv" and ?X = "sLog a q"
    note g = RequestVote_grants [OF n' conjunct1 [OF True] conjunct2 [OF True]]
    have "lastTerm n < LastLogTerm rv \<or> LastLogTerm rv = lastTerm n \<and> lastIndex n \<le> LastLogIndex rv"
      using n' True by (auto simp: RequestVote_def Let_def go_defs candidateUpToDate_def lastTerm_def lastIndex_def split: if_splits)
    then have "recent (length ?X) (lastT ?X) (LastLogIndex rv) (LastLogTerm rv)"
      using view_entries(3,4) [OF n(2) node_simD(2) [OF n(1)]] by (auto simp: recent_def)
    moreover define b where "b = a\<lparr>sTerm := (sTerm a)(q := ?T), sVote := insert (q, c, ?T, LastLogIndex rv, LastLogTerm rv) (sVote a)\<rparr>"
    ultimately have "spec_step (majority ids) a b"
      unfolding b_def using rv g(1) node_simD(1) [OF n(1)] by (intro spec_step.vote) simp_all
    then have m: "moves ids q {} a b" using inv by (rule moves_step) (simp_all add: b_def only_def)
    then have "node_sim b q n'"
      using no_tasks_sim [OF n(1) tasks movesD(2) [OF m]] g(2) by (intro sim_light [OF n(1) l _ movesD(2) [OF m]]) (auto simp: b_def)
    then show thesis using m that by (simp add: b_def)
  qed
qed

section \<open>Leaders\<close>

definition placed :: "nodeid list \<Rightarrow> nodeid \<Rightarrow> ('s, 'm) Node \<Rightarrow> bool" where
  "placed ids p n \<longleftrightarrow> p \<in> set ids \<and> distinct ids \<and> peers n = filter (\<lambda>q. q \<noteq> p) ids \<and> quorum n = length ids div 2 + 1"

text \<open>An index the leader may commit is chosen.\<close>

lemma committable_chosen:
  assumes inv: "spec_inv (majority ids) a" and n: "node_sim a p n" "log_ok n" "placed ids p n" "role n = Leader"
    and i: "committable n i" "commitIndex n < i"
  shows "chosen (majority ids) a i (currentTerm n)"
proof -
  let ?T = "currentTerm n"
  note l = leads_log [OF inv n(1,4)]
  define P where "P = {q \<in> set (peers n). i \<le> mget (matchIndex n) q}"
  have "has (sLog a p) i ?T" using i view_termAt [OF n(2) node_simD(2) [OF n(1)]] by (auto simp: committable_def)
  then have o: "own a i ?T" using l(1) by (simp add: own_def)
  have d: "distinct (peers n)" "p \<notin> P" "insert p P \<subseteq> set ids" using n(3) by (auto simp: placed_def P_def)
  have "card P = length (filter (\<lambda>q. i \<le> mget (matchIndex n) q) (peers n))"
    using distinct_card [OF distinct_filter [OF d(1)]] by (simp add: P_def)
  then have "quorum n \<le> Suc (card P)" using i(1) by (simp add: committable_def replicaCount_def)
  then have "length ids < 2 * card (insert p P)" using d(2) n(3) by (simp add: placed_def P_def)
  then have "majority ids (insert p P)" using d(3) by (simp add: majority_def)
  moreover have "\<exists>j\<ge>i. (q, ?T, j) \<in> sAck a" if "q \<in> insert p P" for q
  proof (cases "q = p")
    case True
    have "i \<le> lastIndex n" using i(1) n(2) by (auto simp: committable_def termAt_eq split: if_splits)
    then show ?thesis using True l(2) by (auto simp: leads_def)
  next
    case False
    then have "i \<le> mget (matchIndex n) q" using that by (simp add: P_def)
    moreover from this have "\<exists>j\<ge>mget (matchIndex n) q. (q, ?T, j) \<in> sAck a" using l(2) i(2) by (auto simp: leads_def dest: spec [of _ q])
    ultimately show ?thesis using le_trans by blast
  qed
  ultimately show ?thesis using o unfolding chosen_def by blast
qed

lemma sim_advance:
  assumes inv: "spec_inv (majority ids) a" and n: "node_sim a p n" "log_ok n" "placed ids p n" "role n = Leader"
  obtains b where "moves ids p {} a b" "node_sim b p (advanceCommitLocked n)"
proof (cases "commitScan n (lastIndex n)")
  case None
  then have "advanceCommitLocked n = n" by (simp add: advanceCommitLocked_def)
  then show thesis using that moves_refl [OF inv] n(1) by metis
next
  case (Some i)
  then have i: "commitIndex n < i" "i \<le> lastIndex n" "committable n i" using commitScan_Some by blast+
  note l = leads_log [OF inv n(1,4)]
  have "chosen (majority ids) a i (currentTerm n)" using committable_chosen [OF inv n i(3,1)] .
  moreover have "i \<le> length (sLog a p)" using i(2) view_entries(3) [OF n(2) node_simD(2) [OF n(1)]] by simp
  ultimately have "agreed (majority ids) a i (sLog a p) (sTerm a p)"
    using l(1) node_simD(1) [OF n(1)] unfolding agreed_def by auto
  note m = sim_commit [OF inv this]
  define b where "b = a\<lparr>sCommit := (sCommit a)(p := i)\<rparr>"
  have n': "advanceCommitLocked n = n\<lparr>commitIndex := i, applyCh := True\<rparr>" using Some by (simp add: advanceCommit_conv)
  have "leads b p (n\<lparr>commitIndex := i, applyCh := True\<rparr>)"
    using l(2) i(1) unfolding leads_def by (simp add: b_def lastIndex_def) (meson less_imp_le order_trans)
  moreover have "task_sim b p tk" if "tk \<in> set (goroutines n)" for tk
    using node_simD(7) [OF n(1) that] by (cases tk) (simp_all add: b_def)
  ultimately have "node_sim b p (advanceCommitLocked n)"
    using n(1) i(1) unfolding n' by (simp add: node_sim_def b_def view_def)
  then show thesis using that m by (simp add: b_def)
qed

end
