(* ===== verification/LogLeader.thy ===== *)
theory LogLeader
  imports LogSim
begin

text \<open>
  The abstract steps of a leader and of a candidate: proposals, answers to what it has sent, the
  end of a vote round, and timeouts; and what the apply loop does to the log.
\<close>

section \<open>Answers\<close>

lemma sim_match:
  assumes "node_sim a p n" "m \<le> commitIndex n \<or> (\<exists>j\<ge>m. (q, currentTerm n, j) \<in> sAck a)"
  shows "node_sim a p (n\<lparr>matchIndex := (matchIndex n)(q \<mapsto> m), nextIndex := x\<rparr>)"
proof -
  have "leads a p (n\<lparr>matchIndex := (matchIndex n)(q \<mapsto> m), nextIndex := x\<rparr>)" if "leads a p n"
    using that assms(2) by (auto simp: leads_def lastIndex_def mget_def)
  then show ?thesis using assms(1) by (simp add: node_sim_def view_def)
qed

lemma log_ok_match [simp]: "log_ok (n\<lparr>matchIndex := m, nextIndex := x\<rparr>) = log_ok n"
  by (rule log_ok_cong) simp_all

lemma append_reply_light:
  assumes "lastApplied n \<le> commitIndex n" "\<not> (role n = Leader \<and> Success resp \<and> currentTerm n = aeTerm ae \<and> aerTerm resp \<le> currentTerm n)"
  shows "light n (sendAppendEntries_reply n q ae resp)"
proof -
  consider "currentTerm n < aerTerm resp" | "\<not> currentTerm n < aerTerm resp" "role n \<noteq> Leader \<or> currentTerm n \<noteq> aeTerm ae"
    | "\<not> currentTerm n < aerTerm resp" "role n = Leader" "currentTerm n = aeTerm ae" "\<not> Success resp"
    using assms(2) by fastforce
  then show ?thesis
  proof cases
    case 1
    then show ?thesis using light_ops(1) [OF assms(1)] by (simp add: sendAppendEntries_reply_def)
  next
    case 2
    then show ?thesis using assms(1) by (simp add: sendAppendEntries_reply_def light_def)
  next
    case 3
    then show ?thesis using assms(1) by (simp add: sendAppendEntries_reply_def light_def Let_def triggerPeer_conv)
  qed
qed

lemma append_reply_success:
  assumes "role n = Leader" "Success resp" "currentTerm n = aeTerm ae" "aerTerm resp \<le> currentTerm n"
    and "PrevLogIndex ae + length (aeEntries ae) < two64"
  defines "k \<equiv> PrevLogIndex ae + length (aeEntries ae)"
  shows "sendAppendEntries_reply n q ae resp = (if mget (matchIndex n) q < k then
     advanceCommitLocked (n\<lparr>matchIndex := (matchIndex n)(q \<mapsto> k), nextIndex := (nextIndex n)(q \<mapsto> add64 k 1)\<rparr>) else n)"
  using assms by (simp add: sendAppendEntries_reply_def Let_def)

lemma sim_append_reply:
  assumes inv: "spec_inv (majority ids) a" and n: "node_sim a p n" "log_ok n" "placed ids p n"
    and m: "msg_sim (majority ids) a (AER q p ae resp)"
  obtains b where "moves ids p {} a b" "node_sim b p (sendAppendEntries_reply n q ae resp)"
proof (cases "role n = Leader \<and> Success resp \<and> currentTerm n = aeTerm ae \<and> aerTerm resp \<le> currentTerm n")
  case False
  from sim_raise [OF n(1) append_reply_light [OF node_simD(5) [OF n(1)] False] calm_tasks [OF calm_append_reply] inv]
  show thesis by (rule that)
next
  case True
  let ?k = "PrevLogIndex ae + length (aeEntries ae)"
  have ack: "(q, currentTerm n, ?k) \<in> sAck a" using True m by simp
  then have "?k \<le> length (sLead a (currentTerm n))" using inv by (auto simp: spec_inv_def inv_ack_def)
  moreover have "lastIndex n = length (sLead a (currentTerm n))"
    using view_entries(3) [OF n(2) node_simD(2) [OF n(1)]] leads_log(1) [OF inv n(1)] True by simp
  ultimately have k: "?k < two64" using lastIndex_less [OF n(2)] by simp
  define n1 where "n1 = n\<lparr>matchIndex := (matchIndex n)(q \<mapsto> ?k), nextIndex := (nextIndex n)(q \<mapsto> add64 ?k 1)\<rparr>"
  have n': "sendAppendEntries_reply n q ae resp = (if mget (matchIndex n) q < ?k then advanceCommitLocked n1 else n)"
    using append_reply_success [of n resp ae q] True k by (simp add: n1_def)
  have n1: "node_sim a p n1" "log_ok n1" "placed ids p n1" "role n1 = Leader"
    using n(2,3) True ack by (auto simp: n1_def placed_def intro!: sim_match [OF n(1)])
  obtain b where "moves ids p {} a b" "node_sim b p (advanceCommitLocked n1)" using sim_advance [OF inv n1] .
  then show thesis using that n' n(1) moves_refl [OF inv] by (cases "mget (matchIndex n) q < ?k") auto
qed

lemma sim_snapshot_reply:
  assumes inv: "spec_inv (majority ids) a" and n: "node_sim a p n"
    and m: "role n = Leader \<Longrightarrow> currentTerm n = isTerm is \<Longrightarrow> LastIncludedIndex is \<le> commitIndex n"
  obtains b where "moves ids p {} a b" "node_sim b p (sendSnapshot_reply n q is resp)"
proof (cases "currentTerm n < isrTerm resp \<or> role n \<noteq> Leader \<or> currentTerm n \<noteq> isTerm is \<or> LastIncludedIndex is \<le> mget (matchIndex n) q")
  case True
  then have "light n (sendSnapshot_reply n q is resp)"
    using node_simD(5) [OF n] light_ops(1) [OF node_simD(5) [OF n], of "isrTerm resp"]
    by (auto simp: sendSnapshot_reply_def) (auto simp: light_def)
  then show thesis using sim_raise [OF n _ calm_tasks [OF calm_snapshot_reply] inv] that by blast
next
  case False
  then have "node_sim a p (sendSnapshot_reply n q is resp)"
    using m sim_match [OF n] by (simp add: sendSnapshot_reply_def)
  then show thesis using that moves_refl [OF inv] by blast
qed

section \<open>Own entries\<close>

definition appended :: "('s, 'm) Node \<Rightarrow> LogEntry \<Rightarrow> ('s, 'm) Node \<Rightarrow> bool" where
  "appended n e n1 \<longleftrightarrow> entries n1 = entries n @ [e] \<and> Term e = currentTerm n \<and> log_ok n1 \<and> role n1 = Leader \<and>
     snapshotIndex n1 = snapshotIndex n \<and> snapshotTerm n1 = snapshotTerm n \<and> currentTerm n1 = currentTerm n \<and>
     commitIndex n1 = commitIndex n \<and> lastApplied n1 = lastApplied n \<and> goroutines n1 = goroutines n \<and>
     peers n1 = peers n \<and> quorum n1 = quorum n"

lemma sim_appended:
  assumes n: "node_sim a p n" "log_ok n" "appended n e n1"
    and b: "spec_le Q a b" "sTerm b p = sTerm a p" "sLog b p = sLog a p @ [e]" "sCommit b p = sCommit a p"
      "sLead b (currentTerm n) \<noteq> []" "sBoss b (currentTerm n) = p" "(p, currentTerm n, length (sLog b p)) \<in> sAck b"
    and match: "\<And>q. mget (matchIndex n1) q \<le> commitIndex n \<or> (\<exists>j\<ge>mget (matchIndex n1) q. (q, currentTerm n, j) \<in> sAck b)"
  shows "node_sim b p n1"
proof -
  note ap = n(3) [unfolded appended_def]
  have v: "view (sLog b p) n1"
    using view_snoc [OF node_simD(2) [OF n(1)], of n1 e] n(2) ap b(3) by (auto simp: log_ok_def)
  then have "lastIndex n1 = length (sLog b p)" using view_entries(3) [of n1 "sLog b p"] ap by simp
  then have "leads b p n1" using b(5,6,7) match ap by (simp add: leads_def)
  moreover have "task_sim b p tk" if "tk \<in> set (goroutines n1)" for tk
    using task_sim_mono [OF node_simD(7) [OF n(1)] b(1)] ap that by simp
  ultimately show ?thesis using v n(1) ap b(2,4) by (simp add: node_sim_def)
qed

lemma sim_extend:
  assumes inv: "spec_inv (majority ids) a" and n: "node_sim a p n" "log_ok n" "placed ids p n" "role n = Leader"
    and n1: "appended n e n1" "matchIndex n1 = matchIndex n"
  obtains b where "moves ids p {} a b" "node_sim b p (advanceCommitLocked n1)"
proof -
  let ?T = "currentTerm n" and ?X = "sLog a p @ [e]"
  note l = leads_log [OF inv n(1,4)]
  define b where "b = a\<lparr>sLog := (sLog a)(p := ?X), sLead := (sLead a)(?T := ?X), sAck := insert (p, ?T, length ?X) (sAck a)\<rparr>"
  have "spec_step (majority ids) a b" unfolding b_def
    using l(2) n1(1) node_simD(1) [OF n(1)] by (intro spec_step.extend) (auto simp: leads_def appended_def)
  moreover have "sLead a T \<noteq> []" if "sLead b T \<noteq> []" for T using that l(2) by (auto simp: b_def leads_def split: if_splits)
  ultimately have m: "moves ids p {} a b" using inv by (intro moves_step) (simp_all add: b_def only_def)
  have "mget (matchIndex n1) q \<le> commitIndex n \<or> (\<exists>j\<ge>mget (matchIndex n1) q. (q, ?T, j) \<in> sAck b)" for q
    using leads_mono [OF l(2) movesD(2) [OF m]] n1(2) by (simp add: leads_def)
  then have "node_sim b p n1"
    using l(2) by (intro sim_appended [OF n(1,2) n1(1) movesD(2) [OF m]]) (simp_all add: b_def leads_def)
  moreover have "log_ok n1" "placed ids p n1" "role n1 = Leader" using n1(1) n(3) by (simp_all add: appended_def placed_def)
  ultimately obtain c where "moves ids p {} b c" "node_sim c p (advanceCommitLocked n1)" using sim_advance [OF movesD(1) [OF m]] by blast
  then show thesis using that moves_trans [OF m] by blast
qed

lemma appended_own:
  assumes "log_ok n" "room n" "role n = Leader"
  shows "appended n (ownEntry n c) (n\<lparr>entries := entries n @ [ownEntry n c], disk := d\<rparr>)"
  using log_ok_append [OF assms(1), where c = c and d = d] assms(2,3) by (simp add: appended_def room_def) (simp add: ownEntry_def)

lemma sim_trigger:
  assumes "node_sim a p n"
  shows "node_sim a p (triggerReplication n)"
  using assms by (rule sim_quiet) (use node_simD(5) [OF assms] in \<open>simp_all add: light_def no_tasks_def triggerReplication_conv\<close>)

lemma sim_Propose:
  assumes inv: "spec_inv (majority ids) a" and n: "node_sim a p n" "log_ok n" "placed ids p n" "room n"
  obtains b where "moves ids p {} a b" "node_sim b p (fst (Propose n c))"
proof (cases "role n = Leader")
  case False
  then have "fst (Propose n c) = n" by (simp add: Propose_def)
  then show thesis using that [OF moves_refl [OF inv]] n(1) by simp
next
  case True
  define n1 where "n1 = n\<lparr>entries := entries n @ [ownEntry n c], disk := fst (Append (store_if n) (disk n) [ownEntry n c])\<rparr>"
  have "appended n (ownEntry n c) n1" "matchIndex n1 = matchIndex n" using appended_own [OF n(2,4) True] by (simp_all add: n1_def)
  from sim_extend [OF inv n(1-3) True this]
  obtain b where b: "moves ids p {} a b" "node_sim b p (advanceCommitLocked n1)" .
  have "fst (Propose n c) = triggerReplication (advanceCommitLocked n1)" using True by (simp add: Propose_def appended_own appendOwn_conv n1_def)
  then show thesis using that [OF b(1)] sim_trigger [OF b(2)] by simp
qed

lemma sim_Submit:
  assumes inv: "spec_inv (majority ids) a" and n: "node_sim a p n" "log_ok n" "placed ids p n" "room n"
  obtains b where "moves ids p {} a b" "node_sim b p (fst (Submit n c))"
proof (cases "role n = Leader")
  case False
  then have "fst (Submit n c) = n" by (simp add: Submit_def)
  then show thesis using that [OF moves_refl [OF inv]] n(1) by simp
next
  case True
  define n1 where "n1 = n\<lparr>entries := entries n @ [ownEntry n c], disk := fst (Append (store_if n) (disk n) [ownEntry n c])\<rparr>"
  define n2 where "n2 = n1\<lparr>nextChan := Suc (nextChan n), chans := (chans n)(nextChan n := None),
     pending := fmupd (Index (ownEntry n c)) \<lparr>w_term = Term (ownEntry n c), w_ch = nextChan n\<rparr> (pending n)\<rparr>"
  have "log_ok n2 = log_ok n1" by (rule log_ok_cong) (simp_all add: n2_def)
  then have "appended n (ownEntry n c) n2" "matchIndex n2 = matchIndex n"
    using appended_own [OF n(2,4) True, where c = c] by (simp_all add: n2_def n1_def appended_def)
  from sim_extend [OF inv n(1-3) True this]
  obtain b where b: "moves ids p {} a b" "node_sim b p (advanceCommitLocked n2)" .
  have "fst (Submit n c) = triggerReplication (advanceCommitLocked n2)"
    using True by (simp add: Submit_def appendOwn_conv n1_def n2_def Let_def)
  then show thesis using that [OF b(1)] sim_trigger [OF b(2)] by simp
qed

section \<open>Elections\<close>

definition crowns :: "('s, 'm) Node \<Rightarrow> nat set" where
  "crowns n = (if role n = Leader then {currentTerm n} else {})"

lemma sim_goroutines:
  "node_sim a p n \<Longrightarrow> (\<And>tk. tk \<in> set g \<Longrightarrow> task_sim a p tk) \<Longrightarrow> node_sim a p (n\<lparr>goroutines := g\<rparr>)"
  by (simp add: node_sim_def view_def leads_def lastIndex_def)

lemma becomeLeader_appended:
  assumes "role n \<noteq> Leader" "log_ok n" "room n"
  obtains n1 ctx where "appended n (ownEntry n noopCommand) n1" "\<And>q. mget (matchIndex n1) q = 0"
    "becomeLeaderLocked n = triggerReplication ((advanceCommitLocked n1)\<lparr>goroutines := goroutines n @ map (ReplicationLoop ctx) (peers n)\<rparr>)"
proof -
  define n0 where "n0 = n\<lparr>role := Leader, leaderID := nid n,
                  nextIndex := (\<lambda>p. if p \<in> set (peers n) then Some (add64 (lastIndex n) 1) else None),
                  matchIndex := (\<lambda>p. if p \<in> set (peers n) then Some 0 else None),
                  triggerCh := (\<lambda>p. if p \<in> set (peers n) then Some False else None),
                  leaderCtx := Some (nextCtx n), nextCtx := Suc (nextCtx n)\<rparr>"
  define n1 where "n1 = n0\<lparr>entries := entries n0 @ [ownEntry n0 noopCommand], disk := fst (Append (store_if n0) (disk n0) [ownEntry n0 noopCommand])\<rparr>"
  have own: "ownEntry n0 noopCommand = ownEntry n noopCommand" by (simp add: ownEntry_def n0_def lastIndex_def)
  have "log_ok n0 = log_ok n" by (rule log_ok_cong) (simp_all add: n0_def)
  then have "appended n0 (ownEntry n0 noopCommand) n1"
    unfolding n1_def using assms(2,3) by (intro appended_own) (simp_all add: n0_def room_def lastIndex_def)
  then have ap: "appended n (ownEntry n noopCommand) n1" unfolding own by (simp add: appended_def n0_def)
  have "becomeLeaderLocked n = triggerReplication ((advanceCommitLocked n1)\<lparr>goroutines := goroutines n @ map (ReplicationLoop (nextCtx n)) (peers n)\<rparr>)"
    unfolding becomeLeaderLocked_def Let_def n0_def [symmetric] appendOwn_conv case_prod_conv n1_def [symmetric]
    using assms(1) by (simp add: advanceCommit_conv n1_def n0_def)
  then show thesis by (rule that [OF ap, rotated]) (simp add: n1_def n0_def mget_def)
qed

lemma sim_becomeLeader:
  assumes inv: "spec_inv (majority ids) a" and n: "node_sim a p n" "log_ok n" "placed ids p n" "room n" "role n \<noteq> Leader"
    and won: "sLead a (currentTerm n) = []" "(p, currentTerm n, li, lt) \<in> sClaim a" "majority ids A"
      "\<And>q. q \<in> A \<Longrightarrow> q = p \<or> (q, p, currentTerm n, li, lt) \<in> sVote a"
  obtains b where "moves ids p (crowns (becomeLeaderLocked n)) a b" "node_sim b p (becomeLeaderLocked n)"
proof -
  let ?T = "currentTerm n" and ?e = "ownEntry n noopCommand"
  let ?X = "sLog a p @ [?e]" and ?U = "crowns (becomeLeaderLocked n)"
  obtain n1 ctx where n1: "appended n ?e n1" "\<And>q. mget (matchIndex n1) q = 0"
    "becomeLeaderLocked n = triggerReplication ((advanceCommitLocked n1)\<lparr>goroutines := goroutines n @ map (ReplicationLoop ctx) (peers n)\<rparr>)"
    using becomeLeader_appended [OF n(5,2,4)] by blast
  have U: "?U = {?T}" using becomeLeader_fields(3,5) [OF n(5)] by (simp add: crowns_def)
  define b where "b = a\<lparr>sLog := (sLog a)(p := ?X), sLead := (sLead a)(?T := ?X), sBoss := (sBoss a)(?T := p),
     sAck := insert (p, ?T, length ?X) (sAck a)\<rparr>"
  have "spec_step (majority ids) a b" unfolding b_def
    using won node_simD(1) [OF n(1)] by (intro spec_step.crown [where A = A]) (auto simp: ownEntry_def)
  then have m: "moves ids p ?U a b" using inv by (rule moves_step) (auto simp: b_def only_def U split: if_splits)
  have "node_sim b p n1" using n1(2) by (intro sim_appended [OF n(1,2) n1(1) movesD(2) [OF m]]) (simp_all add: b_def)
  moreover have "log_ok n1" "placed ids p n1" "role n1 = Leader" using n1(1) n(3) by (simp_all add: appended_def placed_def)
  ultimately obtain c where c: "moves ids p {} b c" "node_sim c p (advanceCommitLocked n1)" using sim_advance [OF movesD(1) [OF m]] by blast
  have m': "moves ids p ?U a c" using moves_trans [OF m moves_mono [OF c(1)]] by simp
  define n2 where "n2 = (advanceCommitLocked n1)\<lparr>goroutines := goroutines n @ map (ReplicationLoop ctx) (peers n)\<rparr>"
  have "node_sim c p n2"
    unfolding n2_def using task_sim_mono [OF node_simD(7) [OF n(1)] movesD(2) [OF m']] by (intro sim_goroutines [OF c(2)]) auto
  then have "node_sim c p (triggerReplication n2)" by (rule sim_trigger)
  moreover have "becomeLeaderLocked n = triggerReplication n2" unfolding n2_def by (rule n1(3))
  ultimately show thesis using that [OF m'] by simp
qed

lemma placed_kept: "placed ids p n \<Longrightarrow> fixed n n' \<Longrightarrow> placed ids p n'"
  by (simp add: placed_def fixed_def)

lemma sim_startReal:
  assumes inv: "spec_inv (majority ids) a" and n: "node_sim a p n" "log_ok n" "placed ids p n" "room n" "term_room n"
    and li: "(p, currentTerm n + 1, li, lt) \<in> sClaim a" and boss: "\<And>T. sLead a T \<noteq> [] \<Longrightarrow> sBoss a T \<in> set ids"
  obtains b where "moves ids p (crowns (startRealElectionLocked e n li lt)) a b" "node_sim b p (startRealElectionLocked e n li lt)"
proof -
  let ?n' = "electing e n" and ?T = "currentTerm n + 1"
  have T: "currentTerm ?n' = ?T" using n(5) by (simp add: term_room_def)
  have l: "light n ?n'" "no_tasks n ?n'" using node_simD(5) [OF n(1)] T by (simp_all add: light_def no_tasks_def)
  define b where "b = a\<lparr>sTerm := (sTerm a)(p := currentTerm ?n')\<rparr>"
  have m: "moves ids p {} a b" "node_sim b p ?n'" using sim_raise [OF n(1) l inv] by (simp_all add: b_def)
  show thesis
  proof (cases "quorum n \<le> 1")
    case True
    then have s: "startRealElectionLocked e n li lt = becomeLeaderLocked ?n'" by (simp add: startRealElection_conv)
    have "length ids \<le> 1" "p \<in> set ids" using True n(3) by (simp_all add: placed_def)
    then have ids: "ids = [p]" by (cases ids) auto
    have "sLead b ?T = []"
    proof (rule ccontr)
      assume "sLead b ?T \<noteq> []"
      then have "sLead a ?T \<noteq> []" "sBoss a ?T = p" using boss [of ?T] ids by (auto simp: b_def)
      then have "?T \<le> sTerm a p" using inv by (auto simp: spec_inv_def inv_boss_def)
      then show False using node_simD(1) [OF n(1)] by simp
    qed
    moreover have "majority ids {p}" by (simp add: majority_def ids)
    ultimately obtain c where "moves ids p (crowns (becomeLeaderLocked ?n')) b c" "node_sim c p (becomeLeaderLocked ?n')"
      using n(2-4) li T placed_kept [OF n(3) fixed_electing(1)]
      by (elim sim_becomeLeader [OF movesD(1) [OF m(1)] m(2), of li lt "{p}", rotated -1]) (auto simp: b_def)
    then show thesis unfolding s using that [unfolded s] moves_trans [OF moves_mono [OF m(1)]] by blast
  next
    case False
    define g where "g = goroutines n @ [GatherVotes (add64 (currentTerm n) 1) li lt False]"
    have "startRealElectionLocked e n li lt = ?n'\<lparr>goroutines := g\<rparr>" using False by (simp add: startRealElection_conv g_def)
    moreover have "node_sim b p (?n'\<lparr>goroutines := g\<rparr>)"
      using node_simD(7) [OF m(2)] li T by (intro sim_goroutines [OF m(2)]) (auto simp: g_def b_def)
    ultimately show thesis using that [OF moves_mono [OF m(1) empty_subsetI]] by simp
  qed
qed

text \<open>A candidate claims its last entry for the next term.\<close>

lemma sim_claim:
  assumes inv: "spec_inv (majority ids) a" and n: "node_sim a p n" "log_ok n"
  obtains b where "moves ids p {} a b" "node_sim b p n" "(p, currentTerm n + 1, lastIndex n, lastTerm n) \<in> sClaim b"
    "\<And>T. sLead b T = sLead a T" "\<And>T. sBoss b T = sBoss a T"
proof -
  define b where "b = a\<lparr>sClaim := insert (p, currentTerm n + 1, length (sLog a p), lastT (sLog a p)) (sClaim a)\<rparr>"
  have "spec_step (majority ids) a b" unfolding b_def
    using node_simD(1) [OF n(1)] by (intro spec_step.claim) simp
  then have m: "moves ids p {} a b" using inv by (rule moves_step) (simp_all add: b_def only_def)
  have "node_sim b p n"
    using task_sim_mono [OF node_simD(7) [OF n(1)] movesD(2) [OF m]] node_simD(1,5) [OF n(1)]
    by (intro sim_light [OF n(1) _ _ movesD(2) [OF m]]) (auto simp: b_def light_def)
  then show thesis using m view_entries(3,4) [OF n(2) node_simD(2) [OF n(1)]] by (intro that [of b]) (simp_all add: b_def)
qed

lemma sim_tick:
  assumes inv: "spec_inv (majority ids) a" and n: "node_sim a p n" "log_ok n" "placed ids p n" "room n" "term_room n"
    and boss: "\<And>T. sLead a T \<noteq> [] \<Longrightarrow> sBoss a T \<in> set ids"
  obtains b where "moves ids p (crowns (electionTick e n)) a b" "node_sim b p (electionTick e n)"
proof (cases "role n \<noteq> Leader \<and> (case electionDeadline n of None \<Rightarrow> True | Some t \<Rightarrow> t < now e)")
  case False
  then have "electionTick e n = n" by (auto simp: electionTick_def)
  then show thesis using that [OF moves_refl [OF inv]] n(1) by simp
next
  case True
  then have tk: "electionTick e n = beginCampaignLocked e n" by (simp add: electionTick_def)
  obtain b where b: "moves ids p {} a b" "node_sim b p n" "(p, currentTerm n + 1, lastIndex n, lastTerm n) \<in> sClaim b"
    "\<And>T. sLead b T = sLead a T" "\<And>T. sBoss b T = sBoss a T" using sim_claim [OF inv n(1,2)] by blast
  have "light n (canvassing e n)" "no_tasks n (canvassing e n)"
    using light_ops(5) [OF node_simD(5) [OF n(1)]] True by (simp_all add: no_tasks_def)
  then have c: "node_sim b p (canvassing e n)" by (rule sim_quiet [OF b(2)]) simp
  show thesis
  proof (cases "preVoteEnabled (cfg n)")
    case True
    define g where "g = goroutines n @ [Campaign (currentTerm n) (lastIndex n) (lastTerm n)]"
    have "electionTick e n = (canvassing e n)\<lparr>goroutines := g\<rparr>" using True by (simp add: tk beginCampaign_conv g_def)
    moreover have "node_sim b p ((canvassing e n)\<lparr>goroutines := g\<rparr>)"
      using node_simD(7) [OF c] b(3) n(5) by (intro sim_goroutines [OF c]) (auto simp: g_def term_room_def)
    ultimately show thesis using that [OF moves_mono [OF b(1) empty_subsetI]] by simp
  next
    case False
    then have s: "electionTick e n = startRealElectionLocked e (canvassing e n) (lastIndex n) (lastTerm n)"
      by (simp add: tk beginCampaign_conv)
    obtain d where "moves ids p (crowns (electionTick e n)) b d" "node_sim d p (electionTick e n)" unfolding s
      using n(2-5) b(3-5) boss placed_kept [OF n(3) fixed_electing(2)]
      by (elim sim_startReal [OF movesD(1) [OF b(1)] c, rotated -1]) (auto simp: term_room_def)
    then show thesis using that moves_trans [OF moves_mono [OF b(1)]] by blast
  qed
qed

lemma sim_vote_reply:
  assumes inv: "spec_inv (majority ids) a" and n: "node_sim a p n" "log_ok n" "placed ids p n" "room n"
    and step: "gatherVotes_reply n r T pv resp = (n', cnt)"
    and won: "role n' = Leader \<Longrightarrow> role n \<noteq> Leader \<Longrightarrow> sLead a (currentTerm n) = [] \<and> (\<exists>li lt A. (p, currentTerm n, li, lt) \<in> sClaim a \<and>
       majority ids A \<and> (\<forall>q\<in>A. q = p \<or> (q, p, currentTerm n, li, lt) \<in> sVote a))"
  obtains b where "moves ids p (crowns n') a b" "node_sim b p n'"
proof -
  consider "n' = stepDown (rvrTerm resp) n" | "n' = n" | "role n \<noteq> Leader" "n' = becomeLeaderLocked n"
  proof -
    have "n' = stepDown (rvrTerm resp) n \<or> n' = n \<or> n' = becomeLeaderLocked n"
      using step by (auto simp: gatherVotes_reply_def Let_def split: if_splits)
    moreover have "becomeLeaderLocked n = n" if "role n = Leader" using that by (simp add: becomeLeaderLocked_def)
    ultimately show thesis using that by blast
  qed
  then show thesis
  proof cases
    case 1
    from sim_raise [OF n(1) light_ops(1) [OF node_simD(5) [OF n(1)]] calm_tasks [OF calm_stepDown] inv, of "rvrTerm resp"]
    show thesis unfolding 1 [symmetric] using moves_mono that by blast
  next
    case 2
    then show thesis using that [OF moves_refl [OF inv]] n(1) by simp
  next
    case 3
    have "role n' = Leader" using becomeLeader_fields(5) [OF 3(1)] 3(2) by simp
    then obtain li lt A where w: "sLead a (currentTerm n) = []" "(p, currentTerm n, li, lt) \<in> sClaim a" "majority ids A"
        "\<forall>q\<in>A. q = p \<or> (q, p, currentTerm n, li, lt) \<in> sVote a" using won 3(1) by blast
    show thesis using sim_becomeLeader [OF inv n 3(1) w(1-3)] w(4) that unfolding 3(2) by blast
  qed
qed

lemma sim_campaign:
  assumes inv: "spec_inv (majority ids) a" and n: "node_sim a p n" "log_ok n" "placed ids p n" "room n" "term_room n"
    and li: "(p, add64 b 1, li, lt) \<in> sClaim a" and boss: "\<And>T. sLead a T \<noteq> [] \<Longrightarrow> sBoss a T \<in> set ids"
  obtains c where "moves ids p (crowns (campaign_finish e n b li lt w)) a c" "node_sim c p (campaign_finish e n b li lt w)"
proof (cases "w \<and> role n = Candidate \<and> currentTerm n = b")
  case True
  then have s: "campaign_finish e n b li lt w = startRealElectionLocked e n li lt" by (simp add: campaign_finish_def)
  have "(p, currentTerm n + 1, li, lt) \<in> sClaim a" using li True n(5) by (auto simp: term_room_def)
  then show thesis using sim_startReal [OF inv n _ boss] that unfolding s by blast
next
  case False
  then have "campaign_finish e n b li lt w = n" by (auto simp: campaign_finish_def)
  then show thesis using that [OF moves_refl [OF inv]] n(1) by simp
qed

section \<open>Applying, and restarting\<close>

lemma applyAll_lastApplied: "lastApplied n \<le> commitIndex n \<Longrightarrow> lastApplied (applyAll n) \<le> commitIndex n"
proof (induction n rule: applyAll.induct)
  case (1 n)
  then show ?case by (subst applyAll.simps) auto
qed

lemma sim_applyReady:
  assumes inv: "spec_inv (majority ids) a" and n: "node_sim a p n" "log_ok n"
  shows "node_sim a p (applyReady n)"
proof -
  let ?n = "applyAll n"
  have ok: "log_ok ?n" using n(2) log_ok_cong [of ?n n] by simp
  have s: "node_sim a p ?n"
    by (rule sim_quiet [OF n(1)]) (use applyAll_lastApplied node_simD(5) [OF n(1)] calm_tasks [OF calm_applyAll, of n] in \<open>auto simp: light_def\<close>)
  have "node_sim a p (maybeSnapshotLocked ?n)"
  proof (rule maybeSnapshot_cases [OF ok])
    fix d assume "maybeSnapshotLocked ?n = ?n\<lparr>disk := d\<rparr>"
    moreover have "node_sim a p (?n\<lparr>disk := d\<rparr>)" by (rule sim_quiet [OF s]) (use node_simD(5) [OF s] in \<open>simp_all add: light_def no_tasks_def\<close>)
    ultimately show ?thesis by simp
  next
    assume c: "maybeSnapshotLocked ?n = compacted ?n" "snapshotIndex ?n < lastApplied ?n" "lastApplied ?n \<le> lastIndex ?n"
    have v: "view (sLog a p) (compacted ?n)" using view_compacted [OF ok node_simD(2) [OF s] c(2,3)] .
    have f: "snapshotIndex (compacted ?n) = lastApplied ?n" "commitIndex (compacted ?n) = commitIndex ?n" "lastApplied (compacted ?n) = lastApplied ?n"
      "currentTerm (compacted ?n) = currentTerm ?n" "role (compacted ?n) = role ?n" "matchIndex (compacted ?n) = matchIndex ?n"
      "goroutines (compacted ?n) = goroutines ?n" by (simp_all add: compacted_def Let_def)
    have "lastIndex (compacted ?n) = lastIndex ?n"
      using view_entries(3) [OF log_ok_compacted [OF ok c(2,3)] v] view_entries(3) [OF ok node_simD(2) [OF s]] by simp
    then have "leads a p (compacted ?n) = leads a p ?n" unfolding leads_def f by simp
    then show ?thesis using s v unfolding c(1) node_sim_def f by simp
  qed (use s in simp)
  then show ?thesis using s by (simp add: applyReady_def Let_def)
qed

lemma sim_restart:
  assumes inv: "spec_inv (majority ids) a" and n: "node_sim a p n" "persisted n" and r: "startNode opts ids e p (disk n) = Some n'"
  obtains b where "moves ids p {} a b" "node_sim b p n'"
proof -
  note f = startNode_votes [OF r n(2)]
  define b where "b = a\<lparr>sCommit := (sCommit a)(p := snapshotIndex n)\<rparr>"
  have "agreed (majority ids) a (snapshotIndex n) (sLog a p) (sTerm a p)"
    using node_agreed [OF inv n(1) node_simD(4) [OF n(1)]] node_simD(1) [OF n(1)] by simp
  then have "moves ids p {} a b" unfolding b_def by (rule sim_commit [OF inv])
  moreover have "node_sim b p n'"
    using f node_simD(1,2) [OF n(1)] view_cong [of n' n] by (simp add: node_sim_def b_def)
  ultimately show thesis by (rule that)
qed

end
