(* ===== verification/ClusterSim.thy ===== *)
theory ClusterSim
  imports LogLeader
begin

text \<open>
  Every step of the cluster is a run of the abstract log protocol (\<open>sim_step\<close>), so every reachable
  state is related to an abstract state that satisfies the protocol's invariant (\<open>reachable_sim\<close>).
\<close>

section \<open>The simulation relation\<close>

definition candidacy :: "sys \<Rightarrow> nodeid \<Rightarrow> uint64 \<Rightarrow> bool" where
  "candidacy s p T \<longleftrightarrow> standing (nodes s p) T \<or> (\<exists>r\<in>set (rounds s p). \<not> PreVote (rReq r) \<and> rvTerm (rReq r) = T)"

text \<open>A snapshot that a leader has sent in its term is within what it has committed.\<close>

definition secured :: "(MemStore, State) Node \<Rightarrow> InstallSnapshotRequest \<Rightarrow> bool" where
  "secured n is \<longleftrightarrow> (role n = Leader \<and> currentTerm n = isTerm is \<longrightarrow> LastIncludedIndex is \<le> commitIndex n)"

fun snap_ok :: "sys \<Rightarrow> msg \<Rightarrow> bool" where
  "snap_ok s (IS p q is) \<longleftrightarrow> secured (nodes s p) is"
| "snap_ok s (ISR q p is resp) \<longleftrightarrow> secured (nodes s p) is"
| "snap_ok s _ \<longleftrightarrow> True"

definition round_sim :: "spec \<Rightarrow> nodeid \<Rightarrow> round \<Rightarrow> bool" where
  "round_sim a p r \<longleftrightarrow> (p, rvTerm (rReq r), LastLogIndex (rReq r), LastLogTerm (rReq r)) \<in> sClaim a"

definition sim :: "nodeid list \<Rightarrow> sys \<Rightarrow> spec \<Rightarrow> bool" where
  "sim ids s a \<longleftrightarrow> spec_inv (majority ids) a \<and> (\<forall>p\<in>set ids. node_sim a p (nodes s p)) \<and>
     (\<forall>m\<in>net s. msg_sim (majority ids) a m \<and> snap_ok s m) \<and> (\<forall>p\<in>set ids. \<forall>r\<in>set (rounds s p). round_sim a p r) \<and>
     (\<forall>p\<in>set ids. role (nodes s p) \<noteq> Leader \<and> candidacy s p (currentTerm (nodes s p)) \<longrightarrow>
        sLead a (currentTerm (nodes s p)) = [] \<or> sBoss a (currentTerm (nodes s p)) \<noteq> p) \<and>
     (\<forall>T. sLead a T \<noteq> [] \<longrightarrow> sBoss a T \<in> set ids \<and> elected ids s (sBoss a T) T) \<and>
     (\<forall>p\<in>set ids. \<not> up s p \<longrightarrow> rounds s p = [])"

lemma simD:
  assumes "sim ids s a"
  shows "spec_inv (majority ids) a" "p \<in> set ids \<Longrightarrow> node_sim a p (nodes s p)" "m \<in> net s \<Longrightarrow> msg_sim (majority ids) a m"
    "m \<in> net s \<Longrightarrow> snap_ok s m" "p \<in> set ids \<Longrightarrow> r \<in> set (rounds s p) \<Longrightarrow> round_sim a p r"
    "p \<in> set ids \<Longrightarrow> role (nodes s p) \<noteq> Leader \<Longrightarrow> candidacy s p (currentTerm (nodes s p)) \<Longrightarrow>
       sLead a (currentTerm (nodes s p)) = [] \<or> sBoss a (currentTerm (nodes s p)) \<noteq> p"
    "sLead a T \<noteq> [] \<Longrightarrow> sBoss a T \<in> set ids" "sLead a T \<noteq> [] \<Longrightarrow> elected ids s (sBoss a T) T"
    "p \<in> set ids \<Longrightarrow> \<not> up s p \<Longrightarrow> rounds s p = []"
  using assms unfolding sim_def by blast+

lemma simI:
  assumes "spec_inv (majority ids) a" "\<And>p. p \<in> set ids \<Longrightarrow> node_sim a p (nodes s p)" "\<And>m. m \<in> net s \<Longrightarrow> msg_sim (majority ids) a m"
    "\<And>m. m \<in> net s \<Longrightarrow> snap_ok s m" "\<And>p r. p \<in> set ids \<Longrightarrow> r \<in> set (rounds s p) \<Longrightarrow> round_sim a p r"
    "\<And>p. p \<in> set ids \<Longrightarrow> role (nodes s p) \<noteq> Leader \<Longrightarrow> candidacy s p (currentTerm (nodes s p)) \<Longrightarrow>
       sLead a (currentTerm (nodes s p)) = [] \<or> sBoss a (currentTerm (nodes s p)) \<noteq> p"
    "\<And>T. sLead a T \<noteq> [] \<Longrightarrow> sBoss a T \<in> set ids" "\<And>T. sLead a T \<noteq> [] \<Longrightarrow> elected ids s (sBoss a T) T"
    "\<And>p. p \<in> set ids \<Longrightarrow> \<not> up s p \<Longrightarrow> rounds s p = []"
  shows "sim ids s a"
  using assms unfolding sim_def by blast

lemma round_sim_mono: "round_sim a p r \<Longrightarrow> spec_le Q a b \<Longrightarrow> round_sim b p r"
  by (auto simp: round_sim_def spec_le_def)

text \<open>One server moves; the others, and what the messages say, stay as they are.\<close>

lemma sim_node:
  assumes sim: "sim ids s a" and el: "elect_ok ids s'" and p: "p \<in> set ids"
    and s': "net s \<subseteq> net s'" "nodes s' = (nodes s)(p := n')" "\<And>q. q \<in> set ids \<Longrightarrow> q \<noteq> p \<Longrightarrow> rounds s' q = rounds s q"
    and b: "moves ids p (crowns n') a b" "node_sim b p n'"
    and new: "\<And>m. m \<in> net s' \<Longrightarrow> m \<notin> net s \<Longrightarrow> msg_sim (majority ids) b m \<and> snap_ok s' m"
    and rounds: "\<And>r. r \<in> set (rounds s' p) \<Longrightarrow> round_sim b p r" "\<And>q. q \<in> set ids \<Longrightarrow> \<not> up s' q \<Longrightarrow> rounds s' q = []"
    and mono: "currentTerm (nodes s p) \<le> currentTerm n'"
    and cand: "role n' \<noteq> Leader \<Longrightarrow> currentTerm n' = currentTerm (nodes s p) \<Longrightarrow> candidacy s' p (currentTerm n') \<Longrightarrow>
       role (nodes s p) \<noteq> Leader \<and> candidacy s p (currentTerm n') \<or> sLead a (currentTerm n') = [] \<or> sBoss a (currentTerm n') \<noteq> p"
    and lead: "role n' = Leader \<Longrightarrow> currentTerm n' = currentTerm (nodes s p) \<Longrightarrow>
       role (nodes s p) = Leader \<and> commitIndex (nodes s p) \<le> commitIndex n' \<or> sLead a (currentTerm n') = []"
  shows "sim ids s' b"
proof -
  note D = simD [OF sim]
  have le: "spec_le (majority ids) a b" using b(1) by (rule movesD)
  have boss: "sBoss b T = sBoss a T" if "sLead a T \<noteq> []" for T using le that by (simp add: spec_le_def)
  have fresh: "sLead a T \<noteq> [] \<or> T = currentTerm n' \<and> role n' = Leader \<and> sBoss b T = p" if "sLead b T \<noteq> []" for T
    using b that by (auto simp: moves_def crowns_def node_sim_def leads_def split: if_splits)
  have old: "currentTerm n' = currentTerm (nodes s p)" if "sLead a (currentTerm n') \<noteq> []" "sBoss a (currentTerm n') = p"
  proof -
    have "currentTerm n' \<le> sTerm a p" using D(1) that by (auto simp: spec_inv_def inv_boss_def)
    then show ?thesis using mono node_simD(1) [OF D(2) [OF p]] by simp
  qed
  have cov: "secured n' is" if "secured (nodes s p) is" "is_sim (majority ids) a p is" for "is"
  proof -
    have "LastIncludedIndex is \<le> commitIndex n'" if l: "role n' = Leader" "currentTerm n' = isTerm is"
    proof -
      have "sLead a (currentTerm n') \<noteq> []" "sBoss a (currentTerm n') = p"
        using \<open>is_sim (majority ids) a p is\<close> l(2) by (simp_all add: is_sim_def Let_def)
      then show ?thesis using old lead [OF l(1)] l(2) \<open>secured (nodes s p) is\<close> by (auto simp: secured_def)
    qed
    then show ?thesis by (simp add: secured_def)
  qed
  show ?thesis
  proof (rule simI)
    show "spec_inv (majority ids) b" using b(1) by (rule movesD)
    show "node_sim b q (nodes s' q)" if "q \<in> set ids" for q
      using that node_sim_other [OF D(2) [OF that] b(1)] b(2) s'(2) by auto
    show "msg_sim (majority ids) b m" if "m \<in> net s'" for m
      using that new D(3) msg_sim_mono [OF _ le] by blast
    show "snap_ok s' m" if m: "m \<in> net s'" for m
    proof (cases "m \<in> net s")
      case True
      then show ?thesis using D(3,4) [OF True] cov s'(2) by (cases m) auto
    qed (use new m in blast)
    show "round_sim b q r" if "q \<in> set ids" "r \<in> set (rounds s' q)" for q r
    proof (cases "q = p")
      case False
      then have "round_sim a q r" using that s'(3) D(5) by auto
      then show ?thesis using le by (rule round_sim_mono)
    qed (use that rounds in simp)
    show "sLead b (currentTerm (nodes s' q)) = [] \<or> sBoss b (currentTerm (nodes s' q)) \<noteq> q"
      if q: "q \<in> set ids" "role (nodes s' q) \<noteq> Leader" "candidacy s' q (currentTerm (nodes s' q))" for q
    proof (rule ccontr)
      define T where "T = currentTerm (nodes s' q)"
      assume "\<not> ?thesis"
      then have l: "sLead b T \<noteq> []" "sBoss b T = q" by (simp_all add: T_def)
      have a: "sLead a T \<noteq> []" "sBoss a T = q"
      proof -
        have "\<not> (T = currentTerm n' \<and> role n' = Leader \<and> q = p)" using q(2) s'(2) by auto
        then show "sLead a T \<noteq> []" using fresh [OF l(1)] l(2) by auto
        then show "sBoss a T = q" using boss l(2) by simp
      qed
      show False
      proof (cases "q = p")
        case True
        then have n: "T = currentTerm n'" "role n' \<noteq> Leader" "candidacy s' p T" using s'(2) q(2,3) by (simp_all add: T_def)
        have t: "currentTerm n' = currentTerm (nodes s p)" using a unfolding True n(1) by (rule old)
        have "role (nodes s p) \<noteq> Leader \<and> candidacy s p T"
          using cand [OF n(2) t] n(3) a True unfolding n(1) by blast
        then show False using D(6) [OF p] a True n(1) t by metis
      next
        case False
        then have "nodes s' q = nodes s q" "candidacy s' q T = candidacy s q T"
          using s'(2,3) q(1) by (simp_all add: candidacy_def)
        then show False using D(6) [OF q(1)] q(2,3) a unfolding T_def by metis
      qed
    qed
    fix T assume l: "sLead b T \<noteq> []"
    have "elected ids s' p (currentTerm n')" if "role n' = Leader" using elect_okD(14) [OF el p] s'(2) that by simp
    moreover have "elected ids s' (sBoss a T) T" "sBoss a T \<in> set ids" if "sLead a T \<noteq> []"
      using D(7,8) [OF that] elected_mono s'(1) by blast+
    ultimately show "sBoss b T \<in> set ids" "elected ids s' (sBoss b T) T" using fresh [OF l] boss [of T] p by metis+
  qed (rule rounds(2))
qed

text \<open>The steps that elect nobody and leave the vote rounds alone.\<close>

lemma sim_calm:
  assumes sim: "sim ids s a" and el: "elect_ok ids s'" and p: "p \<in> set ids"
    and s': "net s \<subseteq> net s'" "nodes s' = (nodes s)(p := n')" "rounds s' = rounds s" "up s' = up s"
    and b: "moves ids p {} a b" "node_sim b p n'" and calm: "calm (nodes s p) n'" "currentTerm (nodes s p) \<le> currentTerm n'"
    and new: "\<And>m. m \<in> net s' \<Longrightarrow> m \<notin> net s \<Longrightarrow> msg_sim (majority ids) b m \<and> snap_ok s' m"
    and down: "role (nodes s p) = Leader \<Longrightarrow> role n' \<noteq> Leader \<Longrightarrow> currentTerm n' = currentTerm (nodes s p) \<Longrightarrow> sBoss a (currentTerm n') \<noteq> p"
    and commit: "role n' = Leader \<Longrightarrow> commitIndex (nodes s p) \<le> commitIndex n'"
  shows "sim ids s' b"
proof (rule sim_node [OF sim el p s'(1,2) _ moves_mono [OF b(1) empty_subsetI] b(2) new])
  note D = simD [OF sim]
  show "round_sim b p r" if "r \<in> set (rounds s' p)" for r
    using round_sim_mono [OF D(5) [OF p] movesD(2) [OF b(1)]] that s'(3) by simp
  show "role (nodes s p) \<noteq> Leader \<and> candidacy s p (currentTerm n') \<or> sLead a (currentTerm n') = [] \<or> sBoss a (currentTerm n') \<noteq> p"
    if "role n' \<noteq> Leader" "currentTerm n' = currentTerm (nodes s p)" "candidacy s' p (currentTerm n')"
    using that calm(1) down s'(2,3) by (auto simp: candidacy_def standing_def calm_def)
  show "role (nodes s p) = Leader \<and> commitIndex (nodes s p) \<le> commitIndex n' \<or> sLead a (currentTerm n') = []" if "role n' = Leader"
    using that calm(1) commit by (auto simp: calm_def)
qed (use s' calm(2) simD(9) [OF sim] in auto)

lemma advance_mono: "commitIndex n \<le> commitIndex (advanceCommitLocked n)"
  using commitScan_Some [of n "lastIndex n"] by (auto simp: advanceCommit_conv split: option.split)

lemma commit_mono:
  "commitIndex n \<le> commitIndex (fst (Propose n c))" "commitIndex n \<le> commitIndex (fst (Submit n c))"
  "commitIndex n \<le> commitIndex (sendAppendEntries_reply n q ae aer)" "commitIndex (sendSnapshot_reply n q is isr) = commitIndex n"
  "commitIndex (applyReady n) = commitIndex n"
proof -
  have a: "commitIndex m = commitIndex n \<Longrightarrow> commitIndex n \<le> commitIndex (advanceCommitLocked m)" for m
    using advance_mono [of m] by simp
  show "commitIndex n \<le> commitIndex (fst (Propose n c))" "commitIndex n \<le> commitIndex (fst (Submit n c))"
    by (simp_all add: Propose_def Submit_def appendOwn_conv Let_def triggerReplication_conv a)
  show "commitIndex n \<le> commitIndex (sendAppendEntries_reply n q ae aer)"
    by (simp add: sendAppendEntries_reply_def Let_def triggerPeer_conv a stepDown_conv)
  show "commitIndex (sendSnapshot_reply n q is isr) = commitIndex n"
    by (simp add: sendSnapshot_reply_def stepDown_conv)
  show "commitIndex (applyReady n) = commitIndex n"
    by (simp add: applyReady_def Let_def maybeSnapshotLocked_def go_defs split: option.split prod.split)
qed

text \<open>Answers make a leader resign only for a later term.\<close>

lemma replies_resign:
  assumes "role n = Leader"
  shows "role (sendAppendEntries_reply n q ae aer) \<noteq> Leader \<Longrightarrow> currentTerm n < currentTerm (sendAppendEntries_reply n q ae aer)"
    "role (sendSnapshot_reply n q is isr) \<noteq> Leader \<Longrightarrow> currentTerm n < currentTerm (sendSnapshot_reply n q is isr)"
    "role (fst (RequestVote e n rv)) \<noteq> Leader \<Longrightarrow> currentTerm n < currentTerm (fst (RequestVote e n rv))"
  using assms by (simp_all add: sendAppendEntries_reply_def sendSnapshot_reply_def RequestVote_def Let_def go_defs split: if_splits)

lemma role_kept:
  "role (fst (Propose n c)) = role n" "role (fst (Submit n c)) = role n" "role (applyReady n) = role n"
  by (simp_all add: Propose_def Submit_def appendOwn_conv Let_def go_defs applyReady_def maybeSnapshotLocked_def split: option.split prod.split)

text \<open>Hearing from a leader makes a server its follower, unless the message is old.\<close>

lemma AppendEntries_follows:
  assumes "log_ok n" "req_ok ae"
  shows "fst (AppendEntries e n ae) = n \<or> role (fst (AppendEntries e n ae)) \<noteq> Leader \<and> currentTerm (fst (AppendEntries e n ae)) = aeTerm ae"
proof (cases "accepts n ae")
  case True
  then have "currentTerm n \<le> aeTerm ae" by (simp add: accepts_def)
  then show ?thesis by (simp add: AppendEntries_accept [OF assms True refl] commitTo_conv max_def)
qed (simp add: AppendEntries_reject)

lemma InstallSnapshot_follows:
  "fst (InstallSnapshot e n is) = n \<or> role (fst (InstallSnapshot e n is)) \<noteq> Leader \<and> currentTerm (fst (InstallSnapshot e n is)) = isTerm is"
proof -
  have "role (adoptSnapshot m is) = role m" for m :: "('a, 'b) Node"
    by (simp add: adoptSnapshot_def Let_def go_defs case_prod_beta)
  then show ?thesis
    by (auto simp: InstallSnapshot_conv Let_def adoptSnapshot_votes max_def split: prod.split option.split)
qed

lemma sim_deliver_ae:
  assumes sim: "sim ids s a" and ok: "base_ok ids s" and q: "q \<in> set ids" "AE p q ae \<in> net s"
    and step: "AppendEntries e (nodes s q) ae = (n', resp)" and s': "s' = send (setNode s q n') {AER q p ae resp}" "elect_ok ids s'"
  obtains b where "sim ids s' b" "spec_le (majority ids) a b"
proof -
  note D = simD [OF sim]
  have lok: "log_ok (nodes s q)" "req_ok ae" using base_log_ok [OF ok q(1)] ok q(2) by (auto simp: base_ok_def)
  have ae: "p \<noteq> q" "ae_sim (majority ids) a p ae" using D(3) [OF q(2)] by simp_all
  obtain b where b: "moves ids q {} a b" "node_sim b q n'" "msg_sim (majority ids) b (AER q p ae resp)"
    using sim_AppendEntries [OF D(1) D(2) [OF q(1)] lok(1) ae(2,1) lok(2) step] .
  have n': "n' = nodes s q \<or> role n' \<noteq> Leader \<and> currentTerm n' = aeTerm ae" using AppendEntries_follows [OF lok, of e] step by simp
  have c: "calm (nodes s q) n'" "currentTerm (nodes s q) \<le> currentTerm n'"
    using calm_AppendEntries [OF lok, of e] votes_kept_AppendEntries [OF lok(2,1), of e] step by (simp_all add: votes_kept_def)
  have "sBoss a (aeTerm ae) \<noteq> q" using ae by (simp add: ae_sim_def Let_def)
  then have "sim ids s' b"
    using n' b(3) s'(1) by (intro sim_calm [OF sim s'(2) q(1) _ _ _ _ b(1,2) c]) auto
  then show thesis using that movesD(2) [OF b(1)] by blast
qed

lemma sim_deliver_is:
  assumes sim: "sim ids s a" and ok: "base_ok ids s" and q: "q \<in> set ids" "IS p q is \<in> net s"
    and step: "InstallSnapshot e (nodes s q) is = (n', resp)" and s': "s' = send (setNode s q n') {ISR q p is resp}" "elect_ok ids s'"
  obtains b where "sim ids s' b" "spec_le (majority ids) a b"
proof -
  note D = simD [OF sim]
  have lok: "log_ok (nodes s q)" using base_log_ok [OF ok q(1)] .
  have req: "p \<noteq> q" "is_sim (majority ids) a p is" "secured (nodes s p) is" using D(3,4) [OF q(2)] by simp_all
  obtain b where b: "moves ids q {} a b" "node_sim b q n'"
    using sim_InstallSnapshot [OF D(1) D(2) [OF q(1)] lok req(2,1) step] .
  have n': "n' = nodes s q \<or> role n' \<noteq> Leader \<and> currentTerm n' = isTerm is" using InstallSnapshot_follows [of e "nodes s q" "is"] step by simp
  have c: "calm (nodes s q) n'" "currentTerm (nodes s q) \<le> currentTerm n'"
    using calm_InstallSnapshot [of "nodes s q" e "is"] votes_kept_InstallSnapshot [of "nodes s q" e "is"] step by (simp_all add: votes_kept_def)
  have "sBoss a (isTerm is) \<noteq> q" using req by (simp add: is_sim_def Let_def)
  moreover have "is_sim (majority ids) b p is" using is_sim_mono [OF req(2) movesD(2) [OF b(1)]] .
  ultimately have "sim ids s' b"
    using n' req(1,3) s'(1) by (intro sim_calm [OF sim s'(2) q(1) _ _ _ _ b c]) auto
  then show thesis using that movesD(2) [OF b(1)] by blast
qed

section \<open>Elections\<close>

lemma tick_same:
  assumes "term_room n"
  shows "currentTerm n \<le> currentTerm (electionTick e n)"
    "currentTerm (electionTick e n) = currentTerm n \<Longrightarrow> electionTick e n = n \<or>
       role n \<noteq> Leader \<and> role (electionTick e n) \<noteq> Leader \<and> (\<forall>t. standing (electionTick e n) t \<longrightarrow> standing n t)"
proof -
  have "currentTerm (startRealElectionLocked e (canvassing e n) li lt) = currentTerm n + 1" for li lt
    using startReal_facts(1) [of "canvassing e n" e li lt] assms by (simp add: term_room_def)
  moreover have "standing ((canvassing e n)\<lparr>goroutines := goroutines n @ [Campaign x i t]\<rparr>) u \<longleftrightarrow> standing n u" for x i t u
    by (simp add: standing_def)
  ultimately show "currentTerm n \<le> currentTerm (electionTick e n)"
    "currentTerm (electionTick e n) = currentTerm n \<Longrightarrow> electionTick e n = n \<or>
       role n \<noteq> Leader \<and> role (electionTick e n) \<noteq> Leader \<and> (\<forall>t. standing (electionTick e n) t \<longrightarrow> standing n t)"
    by (auto simp: electionTick_def beginCampaign_conv split: if_splits)
qed

lemma campaign_same:
  assumes "term_room n"
  shows "currentTerm n \<le> currentTerm (campaign_finish e n b li lt w)"
    "currentTerm (campaign_finish e n b li lt w) = currentTerm n \<Longrightarrow> campaign_finish e n b li lt w = n"
  using startReal_facts(1) [OF assms, of e li lt] by (auto simp: campaign_finish_def)

lemma sim_elect:
  assumes sim: "sim ids s a" and el: "elect_ok ids s'" and p: "p \<in> set ids" "up s p"
    and s': "nodes s' = (nodes s)(p := n')" "net s' = net s" "up s' = up s" "\<And>q. q \<noteq> p \<Longrightarrow> rounds s' q = rounds s q"
      "set (rounds s' p) \<subseteq> set (rounds s p)"
    and b: "moves ids p (crowns n') a b" "node_sim b p n'" and mono: "currentTerm (nodes s p) \<le> currentTerm n'"
    and same: "currentTerm n' = currentTerm (nodes s p) \<Longrightarrow> n' = nodes s p \<or>
       role (nodes s p) \<noteq> Leader \<and> role n' \<noteq> Leader \<and> (\<forall>t. standing n' t \<longrightarrow> standing (nodes s p) t)"
  shows "sim ids s' b"
proof (rule sim_node [OF sim el p(1) _ s'(1) _ b])
  note D = simD [OF sim]
  show "round_sim b p r" if "r \<in> set (rounds s' p)" for r
    using round_sim_mono [OF D(5) [OF p(1)] movesD(2) [OF b(1)]] that s'(5) by blast
  show "rounds s' q = []" if "q \<in> set ids" "\<not> up s' q" for q
    using that p(2) s'(3,4) D(9) by metis
  show "role (nodes s p) \<noteq> Leader \<and> candidacy s p (currentTerm n') \<or> sLead a (currentTerm n') = [] \<or> sBoss a (currentTerm n') \<noteq> p"
    if "role n' \<noteq> Leader" "currentTerm n' = currentTerm (nodes s p)" "candidacy s' p (currentTerm n')"
  proof -
    have "role (nodes s p) \<noteq> Leader" "\<forall>t. standing n' t \<longrightarrow> standing (nodes s p) t" using same [OF that(2)] that(1) by auto
    then show ?thesis using that(3) s'(1,5) by (auto simp: candidacy_def)
  qed
  show "role (nodes s p) = Leader \<and> commitIndex (nodes s p) \<le> commitIndex n' \<or> sLead a (currentTerm n') = []"
    if "role n' = Leader" "currentTerm n' = currentTerm (nodes s p)"
    using same [OF that(2)] that(1) by auto
qed (use s' mono in auto)

lemma member_placed: "cluster_ok ids \<Longrightarrow> member_ok ids p n \<Longrightarrow> p \<in> set ids \<Longrightarrow> placed ids p n"
  by (simp add: cluster_ok_def member_ok_def placed_def)

text \<open>The vote that decides an election.\<close>

lemma round_won:
  assumes sim: "sim ids s a" and ok: "elect_ok ids s" "cluster_ok ids" and c: "c \<in> set ids" "role (nodes s c) \<noteq> Leader"
    and r: "r \<in> set (rounds s c)" "\<not> PreVote (rReq r)" "rvTerm (rReq r) = currentTerm (nodes s c)"
    and cnt: "round_ok ids s c r'" "rReq r' = rReq r" "length ids div 2 + 1 \<le> granted (rCount r')"
    and won: "elected ids s c (currentTerm (nodes s c))"
  shows "sLead a (currentTerm (nodes s c)) = [] \<and> (\<exists>li lt A. (c, currentTerm (nodes s c), li, lt) \<in> sClaim a \<and>
       majority ids A \<and> (\<forall>q\<in>A. q = c \<or> (q, c, currentTerm (nodes s c), li, lt) \<in> sVote a))"
proof -
  note D = simD [OF sim]
  let ?T = "currentTerm (nodes s c)" and ?li = "LastLogIndex (rReq r)" and ?lt = "LastLogTerm (rReq r)"
  have "sLead a ?T = []"
  proof (rule ccontr)
    assume l: "sLead a ?T \<noteq> []"
    then have "sBoss a ?T = c" using elected_unique [OF ok(1) _ D(7,8) [OF l] c(1) won] ok(2) by (simp add: cluster_ok_def)
    moreover have "candidacy s c ?T" using r by (auto simp: candidacy_def)
    ultimately show False using D(6) [OF c] l by simp
  qed
  moreover have "(c, ?T, ?li, ?lt) \<in> sClaim a" using D(5) [OF c(1) r(1)] r(3) by (simp add: round_sim_def)
  moreover obtain G where G: "G \<subseteq> set ids - {c}" "granted (rCount r') = 1 + card G"
      "\<forall>v\<in>G. \<exists>resp. RVR v c (rReq r) resp \<in> net s \<and> VoteGranted resp"
    using cnt(1,2) by (auto simp: round_ok_def)
  moreover have "majority ids (insert c G)"
  proof -
    have "finite G" "c \<notin> G" using G(1) finite_subset by auto
    then show ?thesis using G(1,2) c(1) cnt(3) by (auto simp: majority_def)
  qed
  moreover have "(q, c, ?T, ?li, ?lt) \<in> sVote a" if "q \<in> G" for q
  proof -
    obtain resp where "RVR q c (rReq r) resp \<in> net s" "VoteGranted resp" using G(3) \<open>q \<in> G\<close> by blast
    then show ?thesis using D(3) [of "RVR q c (rReq r) resp"] r(2,3) by simp
  qed
  ultimately show ?thesis by (intro conjI exI [of _ ?li] exI [of _ ?lt] exI [of _ "insert c G"]) auto
qed

lemma gatherVotes_won:
  assumes "gatherVotes_reply n r T pv resp = (n', cnt)" "role n' = Leader" "role n \<noteq> Leader"
  shows "currentTerm n = T" "currentTerm n' = T" "\<not> pv" "quorum n \<le> granted cnt"
proof -
  have "currentTerm (becomeLeaderLocked n) = currentTerm n" using becomeLeader_fields(3) [OF assms(3)] .
  then show "currentTerm n = T" "currentTerm n' = T" "\<not> pv" "quorum n \<le> granted cnt"
    using assms by (auto simp: gatherVotes_reply_def Let_def stepDown_conv split: if_splits)
qed

lemma gatherVotes_leading:
  assumes "gatherVotes_reply n r T pv resp = (n', cnt)" "role n = Leader"
  shows "n' = n \<or> role n' \<noteq> Leader \<and> currentTerm n < currentTerm n'"
  using assms by (auto simp: gatherVotes_reply_def Let_def becomeLeaderLocked_def stepDown_conv split: if_splits)

lemma sim_deliver_rvr:
  assumes sim: "sim ids s a" and ok: "base_ok ids s" "elect_ok ids s" "cluster_ok ids"
    and c: "c \<in> set ids" "up s c" "room (nodes s c)" "rounds s c = r1 @ r # r2" "rReq r = rv"
    and step: "gatherVotes_reply (nodes s c) (rCount r) (rvTerm rv) (PreVote rv) resp = (n', cnt)"
    and s': "s' = setRounds (setNode s c n') c (r1 @ r\<lparr>rCount := cnt, rLeft := removeAll p (rLeft r)\<rparr> # r2)" "elect_ok ids s'"
    and mono: "currentTerm (nodes s c) \<le> currentTerm n'"
  obtains b where "sim ids s' b" "spec_le (majority ids) a b"
proof -
  note D = simD [OF sim]
  define r' where "r' = r\<lparr>rCount := cnt, rLeft := removeAll p (rLeft r)\<rparr>"
  have s: "net s' = net s" "nodes s' = (nodes s)(c := n')" "rounds s' = (rounds s)(c := r1 @ r' # r2)" "up s' = up s" "rReq r' = rReq r"
    by (simp_all add: s'(1) r'_def)
  have pl: "placed ids c (nodes s c)" "log_ok (nodes s c)"
    using member_placed [OF ok(3) base_member [OF ok(1) c(1)] c(1)] base_log_ok [OF ok(1) c(1)] by simp_all
  have won: "sLead a (currentTerm (nodes s c)) = [] \<and> (\<exists>li lt A. (c, currentTerm (nodes s c), li, lt) \<in> sClaim a \<and>
       majority ids A \<and> (\<forall>q\<in>A. q = c \<or> (q, c, currentTerm (nodes s c), li, lt) \<in> sVote a))"
    if l: "role n' = Leader" "role (nodes s c) \<noteq> Leader"
  proof (rule round_won [OF sim ok(2,3) c(1) l(2), of r r'])
    note w = gatherVotes_won [OF step l]
    show "r \<in> set (rounds s c)" "\<not> PreVote (rReq r)" "rvTerm (rReq r) = currentTerm (nodes s c)" "rReq r' = rReq r"
      using c(4,5) w by (auto simp: r'_def)
    show "round_ok ids s c r'" using round_ok_mono [OF elect_okD(13) [OF s'(2) c(1)], of r' s] s by simp
    show "length ids div 2 + 1 \<le> granted (rCount r')" using w(4) pl(1) by (simp add: placed_def r'_def)
    have "elected ids s' c (currentTerm n')" using elect_okD(14) [OF s'(2) c(1)] l(1) s(2) by simp
    then show "elected ids s c (currentTerm (nodes s c))" using w elected_mono s(1) by (metis order_refl)
  qed
  obtain b where b: "moves ids c (crowns n') a b" "node_sim b c n'"
    using sim_vote_reply [OF D(1) D(2) [OF c(1)] pl(2,1) c(3) step won] .
  have rs: "round_sim b c x" if "x \<in> set (rounds s' c)" for x
  proof -
    have "round_sim a c r'" using D(5) [OF c(1), of r] c(4) s(5) by (simp add: round_sim_def)
    then have "round_sim a c x" using that D(5) [OF c(1), of x] c(4) s(3) by auto
    then show ?thesis using movesD(2) [OF b(1)] by (rule round_sim_mono)
  qed
  have "sim ids s' b"
  proof (rule sim_node [OF sim s'(2) c(1) _ s(2) _ b _ rs _ mono])
    show "role (nodes s c) \<noteq> Leader \<and> candidacy s c (currentTerm n') \<or> sLead a (currentTerm n') = [] \<or> sBoss a (currentTerm n') \<noteq> c"
      if t: "role n' \<noteq> Leader" "currentTerm n' = currentTerm (nodes s c)" "candidacy s' c (currentTerm n')"
    proof -
      have "role (nodes s c) \<noteq> Leader" using gatherVotes_leading [OF step] t(1,2) by auto
      moreover have "candidacy s c (currentTerm n')"
        using t(3) s c(4) gatherVotes_leader(2) [OF step] by (auto simp: candidacy_def)
      ultimately show ?thesis by simp
    qed
    show "role (nodes s c) = Leader \<and> commitIndex (nodes s c) \<le> commitIndex n' \<or> sLead a (currentTerm n') = []"
      if t: "role n' = Leader" "currentTerm n' = currentTerm (nodes s c)"
      using gatherVotes_leading [OF step] won t by auto
  qed (use s c D(9) in auto)
  then show thesis using that movesD(2) [OF b(1)] by blast
qed

lemma sim_spawn:
  assumes sim: "sim ids s a" and p: "p \<in> set ids" "up s p" and g: "goroutines (nodes s p) = g1 @ tk # g2" "taskRound (nodes s p) tk = Some r"
    and s': "s' = send (setRounds (setNode s p ((nodes s p)\<lparr>goroutines := g1 @ g2\<rparr>)) p (rounds s p @ [r]))
         {RV p q (rReq r) | q. q \<in> set (peers (nodes s p))}" "elect_ok ids s'"
  shows "sim ids s' a"
proof -
  note D = simD [OF sim]
  let ?n' = "(nodes s p)\<lparr>goroutines := g1 @ g2\<rparr>"
  have "task_sim a p tk" using node_simD(7) [OF D(2) [OF p(1)]] g(1) by simp
  then have r: "round_sim a p r" using g(2) by (auto simp: round_sim_def taskRound_def gatherVotes_request_def split: task.splits)
  have n': "node_sim a p ?n'" using node_simD(7) [OF D(2) [OF p(1)]] g(1) by (intro sim_goroutines [OF D(2) [OF p(1)]]) auto
  have real: "standing (nodes s p) (rvTerm (rReq r))" if "\<not> PreVote (rReq r)"
    using g that by (force simp: taskRound_def gatherVotes_request_def standing_def split: task.splits)
  have "standing ?n' t \<Longrightarrow> standing (nodes s p) t" for t using g(1) by (auto simp: standing_def)
  then have c: "candidacy s' p t \<Longrightarrow> candidacy s p t" for t using real by (auto simp: s'(1) candidacy_def)
  show ?thesis
  proof (rule sim_node [OF sim s'(2) p(1) _ _ _ moves_refl [OF D(1)] n'])
    show "msg_sim (majority ids) a m \<and> snap_ok s' m" if "m \<in> net s'" "m \<notin> net s" for m
      using that r by (auto simp: s'(1) round_sim_def)
    show "round_sim a p x" if "x \<in> set (rounds s' p)" for x using that r D(5) [OF p(1)] by (auto simp: s'(1))
    show "role (nodes s p) \<noteq> Leader \<and> candidacy s p (currentTerm ?n') \<or> sLead a (currentTerm ?n') = [] \<or> sBoss a (currentTerm ?n') \<noteq> p"
      if "role ?n' \<noteq> Leader" "candidacy s' p (currentTerm ?n')" using that c by simp
  qed (use p D(9) in \<open>auto simp: s'(1)\<close>)
qed

lemma sim_restarted:
  assumes sim: "sim ids s a" and ok: "base_ok ids s" and p: "p \<in> set ids" "\<not> up s p"
    and step: "startNode opts ids e p (disk (nodes s p)) = Some n'" and s': "s' = setNode (s\<lparr>up := (up s)(p := True)\<rparr>) p n'" "elect_ok ids s'"
  obtains b where "sim ids s' b" "spec_le (majority ids) a b"
proof -
  note D = simD [OF sim]
  have pers: "persisted (nodes s p)" using base_member [OF ok p(1)] by (simp add: member_ok_def)
  obtain b where b: "moves ids p {} a b" "node_sim b p n'" using sim_restart [OF D(1) D(2) [OF p(1)] pers step] .
  note f = startNode_votes [OF step pers]
  have r: "rounds s p = []" using D(9) [OF p] .
  have "sim ids s' b"
  proof (rule sim_node [OF sim s'(2) p(1) _ _ _ moves_mono [OF b(1) empty_subsetI] b(2)])
    show "role (nodes s p) \<noteq> Leader \<and> candidacy s p (currentTerm n') \<or> sLead a (currentTerm n') = [] \<or> sBoss a (currentTerm n') \<noteq> p"
      if "candidacy s' p (currentTerm n')" using that f(10) r by (simp add: s'(1) candidacy_def standing_def)
  qed (use f(1,3) r D(9) in \<open>auto simp: s'(1) split: if_splits\<close>)
  then show thesis using that movesD(2) [OF b(1)] by blast
qed

section \<open>Every step is simulated\<close>

lemma sim_rounds_other: "c \<notin> set ids \<Longrightarrow> sim ids (setRounds s c rs) a = sim ids s a"
proof -
  assume c: "c \<notin> set ids"
  have "candidacy (setRounds s c rs) p T = candidacy s p T" if "p \<in> set ids" for p T using that c by (auto simp: candidacy_def)
  moreover have "snap_ok (setRounds s c rs) m = snap_ok s m" for m by (cases m) auto
  moreover have "elected ids (setRounds s c rs) q T = elected ids s q T" for q T by (simp add: elected_def granted_to_def)
  moreover have "p \<in> set ids \<Longrightarrow> rounds (setRounds s c rs) p = rounds s p" for p using c by auto
  ultimately show ?thesis unfolding sim_def by simp
qed

text \<open>What is known of a step, and what is to be shown of it.\<close>

definition stepping :: "nodeid list \<Rightarrow> sys \<Rightarrow> spec \<Rightarrow> sys \<Rightarrow> bool" where
  "stepping ids s a s' \<longleftrightarrow> sim ids s a \<and> base_ok ids s \<and> elect_ok ids s \<and> cluster_ok ids \<and> elect_ok ids s' \<and>
     (\<forall>p\<in>set ids. currentTerm (nodes s p) \<le> currentTerm (nodes s' p))"

definition simulated :: "nodeid list \<Rightarrow> spec \<Rightarrow> sys \<Rightarrow> bool" where
  "simulated ids a s' \<longleftrightarrow> (\<exists>b. sim ids s' b \<and> spec_le (majority ids) a b)"

lemma steppingD:
  assumes "stepping ids s a s'"
  shows "sim ids s a" "base_ok ids s" "elect_ok ids s" "cluster_ok ids" "elect_ok ids s'" "spec_inv (majority ids) a"
    "p \<in> set ids \<Longrightarrow> currentTerm (nodes s p) \<le> currentTerm (nodes s' p)" "p \<in> set ids \<Longrightarrow> log_ok (nodes s p)"
    "p \<in> set ids \<Longrightarrow> placed ids p (nodes s p)" "p \<in> set ids \<Longrightarrow> node_sim a p (nodes s p)"
  using assms base_log_ok [of ids s] member_placed [of ids _ "nodes s _"] base_member [of ids s] simD(1,2) [of ids s a]
  by (auto simp: stepping_def)

lemma simulated_moves: "sim ids s' b \<Longrightarrow> moves ids p U a b \<Longrightarrow> simulated ids a s'"
  using movesD(2) unfolding simulated_def by blast

lemma simulated_same: "sim ids s' a \<Longrightarrow> simulated ids a s'"
  unfolding simulated_def by auto

lemma step_tick:
  assumes S: "stepping ids s a s'" and p: "p \<in> set ids" "up s p" "room (nodes s p)" "term_room (nodes s p)"
    and s': "s' = setNode s p (electionTick e (nodes s p))"
  shows "simulated ids a s'"
proof -
  note D = steppingD [OF S]
  obtain b where b: "moves ids p (crowns (electionTick e (nodes s p))) a b" "node_sim b p (electionTick e (nodes s p))"
    using sim_tick [OF D(6,10,8,9) p(3,4) simD(7) [OF D(1)]] p(1) by blast
  have "sim ids s' b"
    using s' tick_same [OF p(4), of e] by (intro sim_elect [OF D(1,5) p(1,2) _ _ _ _ _ b]) auto
  then show ?thesis using b(1) by (rule simulated_moves)
qed

lemma step_campaign:
  assumes S: "stepping ids s a s'" and p: "p \<in> set ids" "up s p" "room (nodes s p)" "term_room (nodes s p)"
    and r: "rounds s p = r1 @ r # r2" "rvTerm (rReq r) = add64 b 1"
    and s': "s' = setRounds (setNode s p (campaign_finish e (nodes s p) b (LastLogIndex (rReq r)) (LastLogTerm (rReq r)) w)) p (r1 @ r2)"
  shows "simulated ids a s'"
proof -
  note D = steppingD [OF S]
  let ?n' = "campaign_finish e (nodes s p) b (LastLogIndex (rReq r)) (LastLogTerm (rReq r)) w"
  have li: "(p, add64 b 1, LastLogIndex (rReq r), LastLogTerm (rReq r)) \<in> sClaim a"
    using simD(5) [OF D(1) p(1), of r] r by (simp add: round_sim_def)
  obtain c where c: "moves ids p (crowns ?n') a c" "node_sim c p ?n'"
    using sim_campaign [OF D(6,10,8,9) p(3,4) li simD(7) [OF D(1)]] p(1) by blast
  have "sim ids s' c"
    using s' r(1) campaign_same [OF p(4)] by (intro sim_elect [OF D(1,5) p(1,2) _ _ _ _ _ c]) auto
  then show ?thesis using c(1) by (rule simulated_moves)
qed

lemma step_rv:
  assumes S: "stepping ids s a s'" and p: "p \<in> set ids" "RV c p rv \<in> net s" and step: "RequestVote e (nodes s p) rv = (n', resp)"
    and s': "s' = send (setNode s p n') {RVR p c rv resp}"
  shows "simulated ids a s'"
proof -
  note D = steppingD [OF S]
  have "(c, rvTerm rv, LastLogIndex rv, LastLogTerm rv) \<in> sClaim a" using simD(3) [OF D(1) p(2)] by simp
  then obtain b where b: "moves ids p {} a b" "node_sim b p n'" "msg_sim (majority ids) b (RVR p c rv resp)"
    using sim_RequestVote [OF D(6,10,8) _ step] p(1) by blast
  have "sim ids s' b"
    using s' step p(1) b(3) calm_RequestVote [of "nodes s p" e rv] replies_resign(3) [of "nodes s p" e rv] D(7) [of p]
      light_ops(3) [OF node_simD(5) [OF D(10) [OF p(1)]], of e rv]
    by (intro sim_calm [OF D(1,5) p(1) _ _ _ _ b(1,2)]) (auto simp: light_def)
  then show ?thesis using b(1) by (rule simulated_moves)
qed

lemma step_rv_failed:
  assumes S: "stepping ids s a s'" and r: "rounds s c = r1 @ r # r2" and s': "s' = setRounds s c (r1 @ r\<lparr>rLeft := x\<rparr> # r2)"
  shows "simulated ids a s'"
proof (cases "c \<in> set ids")
  case False
  then show ?thesis using steppingD(1) [OF S] sim_rounds_other s' simulated_same by simp
next
  case True
  note D = simD [OF steppingD(1) [OF S]]
  have "round_sim a c (r\<lparr>rLeft := x\<rparr>)" using D(5) [OF True, of r] r by (simp add: round_sim_def)
  moreover have "candidacy s' c T \<Longrightarrow> candidacy s c T" for T using r s' by (auto simp: candidacy_def)
  ultimately have "sim ids s' a" using r s' D(5) [OF True] D(9)
    by (intro sim_node [OF steppingD(1,5) [OF S] True _ _ _ moves_refl [OF D(1)] D(2) [OF True]]) (auto split: if_splits)
  then show ?thesis by (rule simulated_same)
qed

lemma step_send:
  assumes S: "stepping ids s a s'" and p: "p \<in> set ids" "q \<in> set (peers (nodes s p))" and s': "s' = send s {m}"
    and m: "sendAppendEntries (nodes s p) q = SendEntries ae \<and> m = AE p q ae \<or> sendSnapshot (nodes s p) t = Some is \<and> m = IS p q is"
  shows "simulated ids a s'"
proof -
  note D = steppingD [OF S]
  note n = D(10) [OF p(1)]
  have "p \<noteq> q" using p(2) D(9) [OF p(1)] by (auto simp: placed_def)
  moreover have "secured (nodes s p) is" if "sendSnapshot (nodes s p) t = Some is"
    using sendSnapshot_spec(5) [OF that] node_simD(4) [OF n] by (simp add: secured_def)
  ultimately have "msg_sim (majority ids) a m \<and> snap_ok s' m"
    using m s' sim_send_entries [OF D(6) n D(8) [OF p(1)]] sim_send_snapshot [OF D(6) n] by auto
  then have "sim ids s' a"
    using s' by (intro sim_calm [OF D(1,5) p(1) _ _ _ _ moves_refl [OF D(6)] n]) auto
  then show ?thesis by (rule simulated_same)
qed

lemma step_aer:
  assumes S: "stepping ids s a s'" and p: "p \<in> set ids" "AER q p ae resp \<in> net s"
    and s': "s' = setNode s p (sendAppendEntries_reply (nodes s p) q ae resp)"
  shows "simulated ids a s'"
proof -
  note D = steppingD [OF S]
  obtain b where b: "moves ids p {} a b" "node_sim b p (sendAppendEntries_reply (nodes s p) q ae resp)"
    using sim_append_reply [OF D(6,10,8,9) simD(3) [OF D(1) p(2)]] p(1) by blast
  have "sim ids s' b"
    using s' p(1) calm_append_reply [of "nodes s p"] replies_resign(1) [of "nodes s p" q ae resp] commit_mono(3) D(7) [of p]
    by (intro sim_calm [OF D(1,5) p(1) _ _ _ _ b]) auto
  then show ?thesis using b(1) by (rule simulated_moves)
qed

lemma step_isr:
  assumes S: "stepping ids s a s'" and p: "p \<in> set ids" "ISR q p is resp \<in> net s"
    and s': "s' = setNode s p (sendSnapshot_reply (nodes s p) q is resp)"
  shows "simulated ids a s'"
proof -
  note D = steppingD [OF S]
  have "secured (nodes s p) is" using simD(4) [OF D(1) p(2)] by simp
  then obtain b where b: "moves ids p {} a b" "node_sim b p (sendSnapshot_reply (nodes s p) q is resp)"
    using sim_snapshot_reply [OF D(6,10)] p(1) unfolding secured_def by blast
  have "sim ids s' b"
    using s' p(1) calm_snapshot_reply [of "nodes s p"] replies_resign(2) [of "nodes s p" q "is" resp]
      commit_mono(4) [of "nodes s p" q "is" resp] D(7) [of p]
    by (intro sim_calm [OF D(1,5) p(1) _ _ _ _ b]) auto
  then show ?thesis using b(1) by (rule simulated_moves)
qed

lemma step_propose:
  assumes S: "stepping ids s a s'" and p: "p \<in> set ids" "room (nodes s p)"
    and s': "s' = setNode s p n'" "n' = fst (Propose (nodes s p) c) \<or> n' = fst (Submit (nodes s p) c)"
  shows "simulated ids a s'"
proof -
  note D = steppingD [OF S]
  obtain b where b: "moves ids p {} a b" "node_sim b p n'"
    using s'(2) sim_Propose [OF D(6,10,8,9) p(2)] sim_Submit [OF D(6,10,8,9) p(2)] p(1) by blast
  have "calm (nodes s p) n'" "role n' = role (nodes s p)" "commitIndex (nodes s p) \<le> commitIndex n'"
    using s'(2) calm_Propose [of "nodes s p" c] calm_Submit [of "nodes s p" c] role_kept(1,2) [of "nodes s p" c] commit_mono(1,2) by auto
  then have "sim ids s' b"
    using s'(1) p(1) D(7) [of p] by (intro sim_calm [OF D(1,5) p(1) _ _ _ _ b]) auto
  then show ?thesis using b(1) by (rule simulated_moves)
qed

lemma step_quiet:
  assumes S: "stepping ids s a s'" and p: "p \<in> set ids" "node_sim a p n'" "calm (nodes s p) n'"
    and n': "role n' = role (nodes s p)" "commitIndex n' = commitIndex (nodes s p)" and s': "s' = setNode s p n'"
  shows "simulated ids a s'"
proof -
  note D = steppingD [OF S]
  have "sim ids s' a"
    using s' n' D(7) [OF p(1)] p(3) by (intro sim_calm [OF D(1,5) p(1) _ _ _ _ moves_refl [OF D(6)] p(2)]) auto
  then show ?thesis by (rule simulated_same)
qed

lemma step_wake:
  assumes S: "stepping ids s a s'" and p: "p \<in> set ids" "Submit_wake (nodes s p) i ch wk = Some (n', res)" and s': "s' = setNode s p n'"
  shows "simulated ids a s'"
proof -
  note n = steppingD(10) [OF S p(1)]
  have l: "light (nodes s p) n'" "role n' = role (nodes s p)" "currentTerm n' = currentTerm (nodes s p)" "commitIndex n' = commitIndex (nodes s p)"
    using p(2) node_simD(5) [OF n] by (auto simp: Submit_wake_def light_def split: submitWake.splits option.splits if_splits)
  note c = calm_wake [OF p(2)]
  show ?thesis using step_quiet [OF S p(1) sim_quiet [OF n l(1) calm_tasks [OF c] l(3)] c l(2,4) s'] .
qed

lemma step_apply:
  assumes S: "stepping ids s a s'" and p: "p \<in> set ids" and s': "s' = setNode s p (applyReady ((nodes s p)\<lparr>applyCh := False\<rparr>))"
  shows "simulated ids a s'"
proof -
  note D = steppingD [OF S]
  let ?n = "(nodes s p)\<lparr>applyCh := False\<rparr>"
  have n: "node_sim a p ?n" "log_ok ?n"
    using sim_quiet [OF D(10) [OF p], of ?n] node_simD(5) [OF D(10) [OF p]] D(8) [OF p] log_ok_cong [of ?n "nodes s p"]
    by (simp_all add: light_def no_tasks_def)
  have "calm (nodes s p) ?n" by (simp add: calm_def)
  then have c: "calm (nodes s p) (applyReady ?n)" using calm_trans calm_applyReady by blast
  show ?thesis
    by (rule step_quiet [OF S p sim_applyReady [OF D(6) n] c _ _ s']) (simp_all add: role_kept(3) commit_mono(5))
qed

lemma step_crash:
  assumes S: "stepping ids s a s'" and p: "p \<in> set ids" and s': "s' = setRounds (s\<lparr>up := (up s)(p := False)\<rparr>) p []"
  shows "simulated ids a s'"
proof -
  note D = simD [OF steppingD(1) [OF S]]
  have "candidacy s' q T \<Longrightarrow> candidacy s q T" for q T using s' by (auto simp: candidacy_def split: if_splits)
  then have "sim ids s' a" using s' D(5,9)
    by (intro sim_node [OF steppingD(1,5) [OF S] p _ _ _ moves_refl [OF D(1)] D(2) [OF p]]) (auto split: if_splits)
  then show ?thesis by (rule simulated_same)
qed

lemma sim_step:
  assumes st: "sys_step False opts ids s s'" and sim: "sim ids s a" and ok: "base_ok ids s" "elect_ok ids s" "cluster_ok ids"
  shows "simulated ids a s'"
proof -
  have el: "elect_ok ids s'" using elect_ok_step [OF st ok(2,3,1)] .
  have mono: "p \<in> set ids \<Longrightarrow> currentTerm (nodes s p) \<le> currentTerm (nodes s' p)" for p
    using sys_step_votes [OF st ok(1)] by (simp add: votes_kept_def)
  have S: "stepping ids s a s'" using sim ok el mono by (simp add: stepping_def)
  show ?thesis using st
  proof (cases rule: sys_step.cases)
    case (spawn p g1 tk g2 r)
    then show ?thesis using sim_spawn [OF sim spawn(2,3,4,5,1) el] by (rule_tac simulated_same)
  next
    case (deliver_rvr c p rv resp r1 r r2 n' cnt)
    have "currentTerm (nodes s c) \<le> currentTerm n'" using mono [OF deliver_rvr(2)] deliver_rvr(1) by simp
    from sim_deliver_rvr [OF sim ok deliver_rvr(2-4,6,7,9,1) el this] show ?thesis unfolding simulated_def by blast
  next
    case (deliver_ae q p ae e n' resp)
    then show ?thesis using sim_deliver_ae [OF sim ok(1) deliver_ae(2,4,5,1) el] unfolding simulated_def by blast
  next
    case (deliver_is q p "is" e n' resp)
    then show ?thesis using sim_deliver_is [OF sim ok(1) deliver_is(2,4,5,1) el] unfolding simulated_def by blast
  next
    case (restart p e n')
    then show ?thesis using sim_restarted [OF sim ok(1) restart(2-4,1) el] unfolding simulated_def by blast
  next
    case (read_deliver q p ae e n' resp)
    then show ?thesis using simD(3) [OF sim read_deliver(4)] by simp
  next
    case (read_reply p q ae resp)
    then show ?thesis using simD(3) [OF sim read_reply(4)] by simp
  next
    case (tick p e)
    then show ?thesis using step_tick [OF S] by blast
  next
    case (campaign_done p r1 r r2 b e)
    then show ?thesis using step_campaign [OF S] by blast
  next
    case (deliver_rv p c rv e n' resp)
    then show ?thesis using step_rv [OF S] by blast
  next
    case (rv_failed c r1 r r2 p)
    then show ?thesis using step_rv_failed [OF S] by blast
  next
    case (send_entries p q ae)
    then show ?thesis using step_send [OF S] by blast
  next
    case (send_snapshot p q t "is")
    then show ?thesis using step_send [OF S] by blast
  next
    case (deliver_aer p q ae resp)
    then show ?thesis using step_aer [OF S] by blast
  next
    case (deliver_isr p q "is" resp)
    then show ?thesis using step_isr [OF S] by blast
  next
    case (propose p c)
    then show ?thesis using step_propose [OF S] by blast
  next
    case (submit p c)
    then show ?thesis using step_propose [OF S] by blast
  next
    case (wake p i ch wk n' res)
    then show ?thesis using step_wake [OF S] by blast
  next
    case (apply_ready p)
    then show ?thesis using step_apply [OF S] by blast
  next
    case (crash p)
    then show ?thesis using step_crash [OF S] by blast
  qed simp
qed

section \<open>Executions\<close>

lemma startNode_empty:
  assumes "startNode opts ids e p NewMemStore = Some n"
  shows "currentTerm n = 0" "entries n = [\<lparr>Term = 0, Index = 0, Cmd = NoBytes\<rparr>]" "snapshotIndex n = 0" "snapshotTerm n = 0"
    "commitIndex n = 0" "lastApplied n = 0" "role n = Follower" "goroutines n = [ElectionLoop, ApplyLoop]"
proof -
  obtain n0 where n0: "New (nodeConfig opts ids p) NewMemStore New_jukebox = Inr n0" "n = Start e n0"
    using assms by (rule startNode_New)
  obtain M where "loadFromStorage (new_node (withDefaults (nodeConfig opts ids p)) MemStorage M NewMemStore New_jukebox) = (n0, None)"
    using n0(1) by (rule New_Inr) (simp_all add: nodeConfig_def)
  then have f: "n0 = (new_node (withDefaults (nodeConfig opts ids p)) MemStorage M NewMemStore New_jukebox)\<lparr>entries := [\<lparr>Term = 0, Index = 0, Cmd = NoBytes\<rparr>]\<rparr>"
    by (auto simp: loadFromStorage_def new_node_def mem_defs NewMemStore_def)
  have "persisted n0" using n0(1) by (intro booted_persisted [of "nodeConfig opts ids p"]) (auto simp: booted_def nodeConfig_def)
  moreover have "disk n0 = NewMemStore" by (simp add: f new_node_def)
  ultimately show "currentTerm n = 0" "entries n = [\<lparr>Term = 0, Index = 0, Cmd = NoBytes\<rparr>]" "snapshotIndex n = 0" "snapshotTerm n = 0"
    "commitIndex n = 0" "lastApplied n = 0" "role n = Follower" "goroutines n = [ElectionLoop, ApplyLoop]"
    using startNode_votes [of opts ids e p n0 n] assms by (simp_all add: f new_node_def)
qed

lemma sim_initial:
  assumes "initial opts ids s"
  obtains a where "sim ids s a"
proof -
  define a where "a = \<lparr>sTerm = \<lambda>_. 0, sLog = \<lambda>_. [], sLead = \<lambda>_. [], sBoss = \<lambda>_. '''', sAck = {}, sClaim = {}, sVote = {}, sCommit = \<lambda>_. 0\<rparr>"
  have "spec_inv (majority ids) a" by (rule maj.spec_init_inv) (simp add: a_def spec_init_def)
  moreover have "node_sim a p (nodes s p)" if p: "p \<in> set ids" for p
  proof -
    obtain e where "startNode opts ids e p NewMemStore = Some (nodes s p)" using assms p by (auto simp: initial_def)
    note f = startNode_empty [OF this]
    show ?thesis using f by (simp add: node_sim_def a_def view_def)
  qed
  ultimately have "sim ids s a" using assms by (intro simI) (auto simp: initial_def a_def)
  then show thesis by (rule that)
qed

lemma reachable_sim:
  assumes "reachable False opts ids s" "cluster_ok ids"
  obtains a where "sim ids s a"
proof -
  from assms have "\<exists>a. sim ids s a"
  proof (induction rule: reachable.induct)
    case (init s)
    then show ?case using sim_initial by blast
  next
    case (step s s')
    then obtain a where "sim ids s a" by blast
    then have "simulated ids a s'" using sim_step [OF step(2)] reachable_base [OF step(1)] reachable_elect_ok [OF step(1)] step.prems by blast
    then show ?case unfolding simulated_def by blast
  qed
  then show thesis using that by blast
qed

lemma steps_sim:
  assumes "(sys_step False opts ids)\<^sup>*\<^sup>* s s'" "reachable False opts ids s" "cluster_ok ids" "sim ids s a"
  obtains b where "sim ids s' b" "spec_le (majority ids) a b"
proof -
  from assms(1) have "simulated ids a s'"
  proof (induction rule: rtranclp_induct)
    case base
    show ?case using assms(4) by (rule simulated_same)
  next
    case (step t t')
    then obtain b where b: "sim ids t b" "spec_le (majority ids) a b" unfolding simulated_def by blast
    have "reachable False opts ids t" using sys_steps_reachable [OF step(1) assms(2)] by simp
    then have "simulated ids b t'" using sim_step [OF step(2) b(1)] reachable_base reachable_elect_ok assms(3) by blast
    then show ?case using spec_le_trans [OF b(2)] unfolding simulated_def by blast
  qed
  then show thesis using that unfolding simulated_def by blast
qed

end
