(* ===== verification/Runs.thy ===== *)
theory Runs
  imports ElectionSafety
begin

text \<open>
  Executions of the cluster built step by step.  \<open>elect_run\<close> is a whole election in a cluster
  of three servers: the timeout, the pre-vote round, the real vote round and the transition to
  leader, with one server silent.
\<close>

section \<open>A server wins an election, another one votes for it\<close>

definition crowned :: "(MemStore, State) Node \<Rightarrow> (MemStore, State) Node \<Rightarrow> bool" where
  "crowned n n' \<longleftrightarrow> role n' = Leader \<and> currentTerm n' = Suc (currentTerm n) \<and>
     entries n' = entries n @ [\<lparr>Term = Suc (currentTerm n), Index = Suc (lastIndex n), Cmd = noopCommand\<rparr>] \<and>
     snapshotIndex n' = snapshotIndex n \<and> commitIndex n' = commitIndex n \<and> lastApplied n' = lastApplied n \<and> sm n' = sm n \<and>
     fixed n n' \<and> fault n' = fault n \<and> snapshotData n' = snapshotData n \<and>
     (\<forall>q\<in>set (peers n). nextIndex n' q = Some (Suc (lastIndex n)) \<and> matchIndex n' q = Some 0)"

definition sided :: "uint64 \<Rightarrow> (MemStore, State) Node \<Rightarrow> (MemStore, State) Node \<Rightarrow> bool" where
  "sided t n n' \<longleftrightarrow> currentTerm n' = t \<and> role n' \<noteq> Leader \<and> entries n' = entries n \<and> snapshotIndex n' = snapshotIndex n \<and>
     commitIndex n' = commitIndex n \<and> lastApplied n' = lastApplied n \<and> sm n' = sm n \<and> fixed n n' \<and> fault n' = fault n"

text \<open>The logs up to date in the sense of the election restriction.\<close>

definition not_ahead :: "(MemStore, State) Node \<Rightarrow> (MemStore, State) Node \<Rightarrow> bool" where
  "not_ahead v p \<longleftrightarrow> lastTerm v < lastTerm p \<or> lastTerm v = lastTerm p \<and> lastIndex v \<le> lastIndex p"

definition late :: "(MemStore, State) Node \<Rightarrow> env" where
  "late n = \<lparr>now = (case electionDeadline n of None \<Rightarrow> 0 | Some t \<Rightarrow> t + 1), rnd = 0\<rparr>"

definition idle_env :: "(MemStore, State) Node \<Rightarrow> env" where
  "idle_env n = \<lparr>now = ElectionTimeoutMin (cfg n) + (case lastLeaderContact n of None \<Rightarrow> 0 | Some t \<Rightarrow> t), rnd = 0\<rparr>"

lemma tick_campaigns:
  assumes "role n \<noteq> Leader" "preVoteEnabled (cfg n)"
  shows "electionTick (late n) n =
    (canvassing (late n) n)\<lparr>goroutines := goroutines n @ [Campaign (currentTerm n) (lastIndex n) (lastTerm n)]\<rparr>"
  using assms by (simp add: electionTick_def late_def beginCampaign_conv split: option.split)

lemma prevote_granted:
  assumes "not_ahead v p" "currentTerm v \<le> rvTerm rv" "PreVote rv" "LastLogIndex rv = lastIndex p" "LastLogTerm rv = lastTerm p"
  shows "RequestVote (idle_env v) v rv = (v, \<lparr>rvrTerm = currentTerm v, VoteGranted = True\<rparr>)"
  using assms by (auto simp: RequestVote_def Let_def candidateUpToDate_def not_ahead_def sinceContact_def idle_env_def split: option.split)

lemma vote_sided:
  assumes "not_ahead v p" "currentTerm v < rvTerm rv" "\<not> PreVote rv" "LastLogIndex rv = lastIndex p" "LastLogTerm rv = lastTerm p"
    and "timer_ok (cfg v)"
  obtains v' where "RequestVote e v rv = (v', \<lparr>rvrTerm = rvTerm rv, VoteGranted = True\<rparr>)" "sided (rvTerm rv) v v'"
proof
  show "RequestVote e v rv = (fst (RequestVote e v rv), \<lparr>rvrTerm = rvTerm rv, VoteGranted = True\<rparr>)"
    using assms by (auto simp: RequestVote_def Let_def candidateUpToDate_def not_ahead_def go_defs lastTerm_def lastIndex_def)
  show "sided (rvTerm rv) v (fst (RequestVote e v rv))"
    using assms fixed_RequestVote [of v e rv]
    by (auto simp: RequestVote_def Let_def candidateUpToDate_def not_ahead_def go_defs lastTerm_def lastIndex_def sided_def)
qed

lemma becomeLeader_crowned:
  assumes "role n \<noteq> Leader" "log_ok n" "room n" "quorum n = 2" "currentTerm n = Suc t"
  shows "role (becomeLeaderLocked n) = Leader" "currentTerm (becomeLeaderLocked n) = Suc t"
    "entries (becomeLeaderLocked n) = entries n @ [\<lparr>Term = Suc t, Index = Suc (lastIndex n), Cmd = noopCommand\<rparr>]"
    "commitIndex (becomeLeaderLocked n) = commitIndex n" "lastApplied (becomeLeaderLocked n) = lastApplied n"
    "sm (becomeLeaderLocked n) = sm n" "fault (becomeLeaderLocked n) = fault n"
    "q \<in> set (peers n) \<Longrightarrow> nextIndex (becomeLeaderLocked n) q = Some (Suc (lastIndex n)) \<and> matchIndex (becomeLeaderLocked n) q = Some 0"
proof -
  define m where "m = (fst (appendOwn (n\<lparr>role := Leader, leaderID := nid n,
                  nextIndex := (\<lambda>p. if p \<in> set (peers n) then Some (add64 (lastIndex n) 1) else None),
                  matchIndex := (\<lambda>p. if p \<in> set (peers n) then Some 0 else None),
                  triggerCh := (\<lambda>p. if p \<in> set (peers n) then Some False else None),
                  leaderCtx := Some (nextCtx n), nextCtx := Suc (nextCtx n)\<rparr>) noopCommand))"
  have b: "becomeLeaderLocked n = triggerReplication ((advanceCommitLocked m)\<lparr>goroutines := goroutines (advanceCommitLocked m) @ map (ReplicationLoop (nextCtx n)) (peers (advanceCommitLocked m))\<rparr>)"
    using assms(1) by (simp add: becomeLeaderLocked_def Let_def m_def case_prod_beta del: One_nat_def)
  have none: "commitScan m i = None" for i
  proof (rule ccontr)
    assume "commitScan m i \<noteq> None"
    then obtain j where "commitScan m i = Some j" by blast
    then have "commitIndex m < j" "quorum m \<le> replicaCount m j" using commitScan_Some [of m i j] by (auto simp: committable_def)
    moreover have "replicaCount m j = 1" if "0 < j"
      using that by (auto simp: replicaCount_def m_def appendOwn_conv mget_def filter_empty_conv)
    ultimately show False using assms(4) by (auto simp: m_def appendOwn_conv)
  qed
  have "advanceCommitLocked m = m" by (simp add: advanceCommitLocked_def none)
  moreover have "lastIndex n + 1 < two64" using assms(3) by (simp add: room_def)
  ultimately show "role (becomeLeaderLocked n) = Leader" "currentTerm (becomeLeaderLocked n) = Suc t"
    "entries (becomeLeaderLocked n) = entries n @ [\<lparr>Term = Suc t, Index = Suc (lastIndex n), Cmd = noopCommand\<rparr>]"
    "commitIndex (becomeLeaderLocked n) = commitIndex n" "lastApplied (becomeLeaderLocked n) = lastApplied n"
    "sm (becomeLeaderLocked n) = sm n" "fault (becomeLeaderLocked n) = fault n"
    "q \<in> set (peers n) \<Longrightarrow> nextIndex (becomeLeaderLocked n) q = Some (Suc (lastIndex n)) \<and> matchIndex (becomeLeaderLocked n) q = Some 0"
    using assms(5) by (simp_all add: b triggerReplication_def m_def appendOwn_conv ownEntry_def lastIndex_def)
qed

section \<open>The run\<close>

lemma member_ok3:
  assumes "member_ok ids p n" "set ids = {p, v, w}" "distinct ids" "length ids = 3"
  shows "nid n = p" "set (peers n) = {v, w} - {p}" "quorum n = 2" "log_ok n"
  using assms by (auto simp: member_ok_def)

text \<open>A vote round in which only \<open>v\<close> answers.\<close>

lemma round_run:
  assumes mem: "p \<in> set ids" "v \<in> set ids" "p \<noteq> v" and up: "up s p" "up s v"
    and task: "goroutines (nodes s p) = g @ [tk]" "taskRound (nodes s p) tk = Some r" "v \<in> set (peers (nodes s p))" "room (nodes s p)"
    and ans: "RequestVote e (nodes s v) (rReq r) = (v', resp)"
      "gatherVotes_reply ((nodes s p)\<lparr>goroutines := g\<rparr>) (rCount r) (rvTerm (rReq r)) (PreVote (rReq r)) resp = (n', cnt)"
  obtains s' where "(sys_step reads opts ids)\<^sup>*\<^sup>* s s'" "nodes s' = (nodes s)(p := n', v := v')" "up s' = up s" "net s \<subseteq> net s'"
    "rounds s' p = rounds s p @ [r\<lparr>rCount := cnt, rLeft := removeAll v (rLeft r)\<rparr>]"
proof -
  let ?n1 = "(nodes s p)\<lparr>goroutines := g\<rparr>"
  define s1 where "s1 = send (setRounds (setNode s p ?n1) p (rounds s p @ [r])) {RV p q (rReq r) | q. q \<in> set (peers (nodes s p))}"
  have "sys_step reads opts ids s s1"
    using sys_step.spawn [OF mem(1) up(1), where ?g1.0 = g and tk = tk and ?g2.0 = "[]" and r = r] task(1,2) by (simp add: s1_def)
  moreover
  define s2 where "s2 = send (setNode s1 v v') {RVR v p (rReq r) resp}"
  have "sys_step reads opts ids s1 s2"
    unfolding s2_def using mem up(2) task(3) ans(1) by (intro sys_step.deliver_rv [where e = e]) (auto simp: s1_def)
  moreover
  define s3 where "s3 = setRounds (setNode s2 p n') p (rounds s p @ r\<lparr>rCount := cnt, rLeft := removeAll v (rLeft r)\<rparr> # [])"
  have left: "rLeft r = peers (nodes s p)" using task(2) by (auto simp: taskRound_def split: task.splits)
  have "room ?n1" using task(4) by (simp add: room_def lastIndex_def)
  then have "sys_step reads opts ids s2 s3"
    unfolding s3_def using mem up(1) task(3) ans(2) left
    by (intro sys_step.deliver_rvr [where rv = "rReq r" and resp = resp]) (auto simp: s1_def s2_def)
  ultimately have "(sys_step reads opts ids)\<^sup>*\<^sup>* s s3" by (meson converse_rtranclp_into_rtranclp r_into_rtranclp)
  then show ?thesis
    using mem(3) by (intro that [of s3]) (auto simp: s1_def s2_def s3_def)
qed

text \<open>A timeout and a pre-vote that \<open>v\<close> grants: the candidate moves to the next term and is about to ask for votes.\<close>

definition candidate_of :: "(MemStore, State) Node \<Rightarrow> (MemStore, State) Node \<Rightarrow> bool" where
  "candidate_of n n' \<longleftrightarrow> role n' = Candidate \<and> currentTerm n' = Suc (currentTerm n) \<and> votedFor n' = nid n \<and> entries n' = entries n \<and>
     snapshotIndex n' = snapshotIndex n \<and> commitIndex n' = commitIndex n \<and> lastApplied n' = lastApplied n \<and> sm n' = sm n \<and>
     fault n' = fault n \<and> fixed n n' \<and> snapshotData n' = snapshotData n \<and>
     goroutines n' = goroutines n @ [GatherVotes (Suc (currentTerm n)) (lastIndex n) (lastTerm n) False]"

lemma prevote_run:
  assumes reach: "reachable reads opts ids s" and ids: "set ids = {p, v, w}" "distinct ids" "length ids = 3"
    and up: "up s p" "up s v" and cfgs: "preVoteEnabled (cfg (nodes s p))" "timer_ok (cfg (nodes s p))"
    and p: "role (nodes s p) \<noteq> Leader" "room (nodes s p)" "term_room (nodes s p)"
    and v: "not_ahead (nodes s v) (nodes s p)" "currentTerm (nodes s v) \<le> Suc (currentTerm (nodes s p))"
  obtains s' where "(sys_step reads opts ids)\<^sup>*\<^sup>* s s'" "up s' = up s" "net s \<subseteq> net s'" "rounds s' p = rounds s p"
    "candidate_of (nodes s p) (nodes s' p)" "\<And>q. q \<noteq> p \<Longrightarrow> nodes s' q = nodes s q"
proof -
  define n where "n = nodes s p"
  define m where "m = nodes s v"
  define t where "t = currentTerm n"
  have "card {p, v, w} = 3" using ids distinct_card [OF ids(2)] by simp
  then have ne: "p \<noteq> v" "p \<noteq> w" "v \<noteq> w" by (auto simp: card_insert_if split: if_splits)
  have mem: "p \<in> set ids" "v \<in> set ids" using ids by auto
  have mok: "member_ok ids p n" using base_member [OF reachable_base [OF reach] mem(1)] by (simp add: n_def)
  note n3 = member_ok3 [OF mok ids]
  have pe: "set (peers n) = {v, w}" using n3(2) ne by auto
  have t64: "add64 t (Suc 0) = Suc t" using p(3) by (simp add: t_def n_def term_room_def)
  define n1 where "n1 = canvassing (late n) n"
  have n1: "role n1 = Candidate" "currentTerm n1 = t" "peers n1 = peers n" "nid n1 = p" "quorum n1 = 2"
      "room n1" "term_room n1" "log_ok n1" "goroutines n1 = goroutines n"
    using n3 p by (simp_all add: n1_def t_def n_def term_room_def)
  define tk where "tk = Campaign t (lastIndex n) (lastTerm n)"
  define s1 where "s1 = setNode s p (n1\<lparr>goroutines := goroutines n @ [tk]\<rparr>)"
  have "electionTick (late n) n = n1\<lparr>goroutines := goroutines n @ [tk]\<rparr>"
    using tick_campaigns [of n] p(1) cfgs(1) by (simp add: n_def n1_def tk_def t_def)
  then have st1: "sys_step reads opts ids s s1"
    using sys_step.tick [OF mem(1) up(1), where e = "late n"] p by (simp add: n_def s1_def)
  define pre where "pre = \<lparr>rvTerm = Suc t, CandidateId = p, LastLogIndex = lastIndex n, LastLogTerm = lastTerm n, PreVote = True\<rparr>"
  define r where "r = \<lparr>rReq = pre, rCount = newRound, rLeft = peers n\<rparr>"
  have tr: "taskRound (nodes s1 p) tk = Some r"
    by (simp add: s1_def tk_def taskRound_def gatherVotes_request_def r_def pre_def t64 n1)
  have rv: "RequestVote (idle_env m) (nodes s1 v) (rReq r) = (m, \<lparr>rvrTerm = currentTerm m, VoteGranted = True\<rparr>)"
    using prevote_granted [of m n pre] v ne by (simp add: pre_def r_def n_def m_def t_def s1_def)
  obtain s2 where s2: "(sys_step reads opts ids)\<^sup>*\<^sup>* s1 s2" "nodes s2 = (nodes s1)(p := n1, v := m)" "up s2 = up s" "net s \<subseteq> net s2"
    "rounds s2 p = rounds s1 p @ [r\<lparr>rCount := \<lparr>granted = 2, won = True\<rparr>, rLeft := removeAll v (rLeft r)\<rparr>]"
  proof (rule round_run [OF mem ne(1) _ _ _ tr _ _ rv, of "goroutines n" n1 "\<lparr>granted = 2, won = True\<rparr>" reads opts])
    show "gatherVotes_reply ((nodes s1 p)\<lparr>goroutines := goroutines n\<rparr>) (rCount r) (rvTerm (rReq r)) (PreVote (rReq r))
        \<lparr>rvrTerm = currentTerm m, VoteGranted = True\<rparr> = (n1, \<lparr>granted = 2, won = True\<rparr>)"
      using n1 by (simp add: s1_def gatherVotes_reply_def r_def pre_def newRound_def Let_def)
  qed (use up pe n1(3,6) in \<open>simp_all add: s1_def room_def lastIndex_def\<close>)
  define r2 where "r2 = \<lparr>rReq = pre, rCount = \<lparr>granted = 2, won = True\<rparr>, rLeft = removeAll w (removeAll v (peers n))\<rparr>"
  have "rLeft r2 = []" using pe by (auto simp: r2_def filter_empty_conv removeAll_filter_not_eq)
  define s3 where "s3 = setRounds s2 p (rounds s p @ r2 # [])"
  have st3: "sys_step reads opts ids s2 s3"
    using sys_step.rv_failed [OF s2(5), where p = w] by (simp add: s3_def r2_def r_def s1_def)
  define n4 where "n4 = (electing (late n) n1)\<lparr>goroutines := goroutines n @ [GatherVotes (Suc t) (lastIndex n) (lastTerm n) False]\<rparr>"
  define s4 where "s4 = setRounds (setNode s3 p n4) p (rounds s p @ [])"
  have "campaign_finish (late n) n1 t (lastIndex n) (lastTerm n) True = n4"
    using n1 t64 by (simp add: campaign_finish_def startRealElection_conv n4_def)
  then have st4: "sys_step reads opts ids s3 s4"
    using sys_step.campaign_done [OF mem(1), where s = s3 and ?r1.0 = "rounds s p" and r = r2 and ?r2.0 = "[]" and b = t and e = "late n"]
      up(1) n1 s2(2,3) ne t64 \<open>rLeft r2 = []\<close>
    by (simp add: s4_def s3_def r2_def pre_def gatherVotes_result_def)
  have "candidate_of n n4"
    using n1 t64 n3 cfgs(2) by (simp add: candidate_of_def n4_def n1_def fixed_def t_def)
      (simp add: electing_def canvassing_def go_defs n_def)
  moreover have "(sys_step reads opts ids)\<^sup>*\<^sup>* s s4" using st1 s2(1) st3 st4
    by (meson converse_rtranclp_into_rtranclp rtranclp_trans r_into_rtranclp)
  ultimately show ?thesis
    using s2 ne by (intro that [of s4]) (simp_all add: s4_def s3_def s1_def n_def m_def)
qed

lemma elect_run:
  assumes reach: "reachable reads opts ids s" and ids: "set ids = {p, v, w}" "distinct ids" "length ids = 3"
    and up: "up s p" "up s v" and cfgs: "preVoteEnabled (cfg (nodes s p))" "timer_ok (cfg (nodes s p))" "timer_ok (cfg (nodes s v))"
    and p: "role (nodes s p) \<noteq> Leader" "room (nodes s p)" "term_room (nodes s p)"
    and v: "not_ahead (nodes s v) (nodes s p)" "currentTerm (nodes s v) \<le> currentTerm (nodes s p)"
  obtains s' where "(sys_step reads opts ids)\<^sup>*\<^sup>* s s'" "up s' = up s" "net s \<subseteq> net s'"
    "crowned (nodes s p) (nodes s' p)" "sided (Suc (currentTerm (nodes s p))) (nodes s v) (nodes s' v)"
    "\<And>q. q \<noteq> p \<Longrightarrow> q \<noteq> v \<Longrightarrow> nodes s' q = nodes s q"
proof -
  define n where "n = nodes s p"
  define m where "m = nodes s v"
  define t where "t = currentTerm n"
  have "card {p, v, w} = 3" using ids distinct_card [OF ids(2)] by simp
  then have ne: "p \<noteq> v" "p \<noteq> w" "v \<noteq> w" by (auto simp: card_insert_if split: if_splits)
  have mem: "p \<in> set ids" "v \<in> set ids" using ids by auto
  have mok: "member_ok ids p n" using base_member [OF reachable_base [OF reach] mem(1)] by (simp add: n_def)
  note n3 = member_ok3 [OF mok ids]
  have pe: "set (peers n) = {v, w}" using n3(2) ne by auto
  have v': "currentTerm (nodes s v) \<le> Suc (currentTerm (nodes s p))" using v(2) by simp
  obtain s4 where s4: "(sys_step reads opts ids)\<^sup>*\<^sup>* s s4" "up s4 = up s" "net s \<subseteq> net s4" "rounds s4 p = rounds s p"
    "candidate_of n (nodes s4 p)" "\<And>q. q \<noteq> p \<Longrightarrow> nodes s4 q = nodes s q"
    using prevote_run [OF reach ids up cfgs(1,2) p(1-3) v(1) v'] unfolding n_def by metis
  define tk4 where "tk4 = GatherVotes (Suc t) (lastIndex n) (lastTerm n) False"
  define n4 where "n4 = (nodes s4 p)\<lparr>goroutines := goroutines n\<rparr>"
  have li: "lastIndex n4 = lastIndex n" "lastTerm n4 = lastTerm n"
    using s4(5) by (simp_all add: n4_def candidate_of_def lastIndex_def lastTerm_def)
  have "log_ok (nodes s4 p)" using base_log_ok [OF reachable_base mem(1)] sys_steps_reachable [OF s4(1) reach] by blast
  then have n4: "role n4 = Candidate" "currentTerm n4 = Suc t" "peers n4 = peers n" "nid n4 = p" "quorum n4 = 2" "room n4" "log_ok n4"
    "entries n4 = entries n" "snapshotIndex n4 = snapshotIndex n" "commitIndex n4 = commitIndex n" "lastApplied n4 = lastApplied n"
    "sm n4 = sm n" "fault n4 = fault n" "fixed n n4" "goroutines n4 = goroutines n" "snapshotData n4 = snapshotData n"
    using s4(5) n3 p(2) li(1) by (simp_all add: n4_def candidate_of_def fixed_def t_def room_def n_def)
  define rvq where "rvq = \<lparr>rvTerm = Suc t, CandidateId = p, LastLogIndex = lastIndex n, LastLogTerm = lastTerm n, PreVote = False\<rparr>"
  obtain m' where m': "RequestVote (late n) m rvq = (m', \<lparr>rvrTerm = Suc t, VoteGranted = True\<rparr>)" "sided (Suc t) m m'"
    using vote_sided [of m n rvq "late n"] v cfgs(3) by (auto simp: rvq_def n_def m_def t_def)
  define r5 where "r5 = \<lparr>rReq = rvq, rCount = newRound, rLeft = peers n\<rparr>"
  have tr5: "taskRound (nodes s4 p) tk4 = Some r5"
    using s4(5) n3 by (simp add: tk4_def taskRound_def gatherVotes_request_def r5_def rvq_def candidate_of_def fixed_def)
  have rv5: "RequestVote (late n) (nodes s4 v) (rReq r5) = (m', \<lparr>rvrTerm = Suc t, VoteGranted = True\<rparr>)"
    using m'(1) ne s4(6) by (simp add: r5_def m_def)
  obtain s6 where s6: "(sys_step reads opts ids)\<^sup>*\<^sup>* s4 s6" "nodes s6 = (nodes s4)(p := becomeLeaderLocked n4, v := m')" "up s6 = up s4"
    "net s4 \<subseteq> net s6" "rounds s6 p = rounds s4 p @ [r5\<lparr>rCount := \<lparr>granted = 2, won = True\<rparr>, rLeft := removeAll v (rLeft r5)\<rparr>]"
  proof (rule round_run [OF mem ne(1) _ _ _ tr5 _ _ rv5, of "goroutines n" "becomeLeaderLocked n4" "\<lparr>granted = 2, won = True\<rparr>" reads opts])
    show "gatherVotes_reply ((nodes s4 p)\<lparr>goroutines := goroutines n\<rparr>) (rCount r5) (rvTerm (rReq r5)) (PreVote (rReq r5))
        \<lparr>rvrTerm = Suc t, VoteGranted = True\<rparr> = (becomeLeaderLocked n4, \<lparr>granted = 2, won = True\<rparr>)"
      unfolding n4_def [symmetric] using n4(1-7) by (simp add: gatherVotes_reply_def r5_def rvq_def newRound_def Let_def)
  qed (use up pe n4 s4(2,5) in \<open>simp_all add: room_def lastIndex_def candidate_of_def tk4_def t_def fixed_def n_def\<close>)
  have lead: "crowned n (nodes s6 p)"
    using becomeLeader_crowned [of n4 t] n4 li fixed_trans [OF n4(14) fixed_becomeLeader] s6(2) ne becomeLeader_fields(7,9) [of n4]
    by (simp add: crowned_def t_def n_def)
  have "(sys_step reads opts ids)\<^sup>*\<^sup>* s s6" using s4(1) s6(1) by (rule rtranclp_trans)
  then show ?thesis
  proof (rule that)
    show "up s6 = up s" using s6(3) s4(2) by simp
    show "net s \<subseteq> net s6" using s6(4) s4(3) by blast
    show "crowned (nodes s p) (nodes s6 p)" using lead by (simp add: n_def)
    show "sided (Suc (currentTerm (nodes s p))) (nodes s v) (nodes s6 v)" using m'(2) s6(2) by (simp add: n_def m_def t_def)
    show "nodes s6 q = nodes s q" if "q \<noteq> p" "q \<noteq> v" for q using that s6(2) s4(6) by simp
  qed
qed

section \<open>A cluster of three\<close>

definition abc :: "nodeid list" where
  "abc = [''a'', ''b'', ''c'']"

definition boot :: "nodeid \<Rightarrow> (MemStore, State) Node" where
  "boot p = the (startNode DefaultOptions abc env0 p NewMemStore)"

definition boot_sys :: sys where
  "boot_sys = \<lparr>nodes = boot, up = (\<lambda>_. True), net = {}, rounds = (\<lambda>_. [])\<rparr>"

lemma startNode_boot: "startNode DefaultOptions abc env0 p NewMemStore = Some (boot p)"
  by (simp add: boot_def startNode_def New_def loadFromStorage_def nodeConfig_def withDefaults_def Let_def mem_defs NewMemStore_def)

lemma boot_fields:
  "preVoteEnabled (cfg (boot p))" "timer_ok (cfg (boot p))" "SnapshotThreshold (cfg (boot p)) = 1000" "role (boot p) = Follower"
  "currentTerm (boot p) = 0" "entries (boot p) = [\<lparr>Term = 0, Index = 0, Cmd = NoBytes\<rparr>]" "snapshotIndex (boot p) = 0"
  "commitIndex (boot p) = 0" "lastApplied (boot p) = 0" "sm (boot p) = New_jukebox" "fault (boot p) = None" "snapshotData (boot p) = NoBytes"
  by (simp_all add: boot_def startNode_def New_def loadFromStorage_def nodeConfig_def withDefaults_def Let_def mem_defs NewMemStore_def
      Start_def go_defs DefaultOptions_def Millisecond_def timer_ok_def preVoteEnabled_def)

lemma boot_reachable: "reachable reads DefaultOptions abc boot_sys"
  by (rule reachable.init) (auto simp: initial_def boot_sys_def intro: startNode_boot)

lemma abc_ok: "cluster_ok abc" "distinct abc" "length abc = 3" "set abc = {''a'', ''b'', ''c''}"
  by (auto simp: abc_def cluster_ok_def)

text \<open>The servers of a run keep their configuration and have no fault.\<close>

definition sound :: "(MemStore, State) Node \<Rightarrow> bool" where
  "sound n \<longleftrightarrow> preVoteEnabled (cfg n) \<and> timer_ok (cfg n) \<and> SnapshotThreshold (cfg n) = 1000 \<and> fault n = None \<and> snapshotIndex n = 0"

lemma sound_boot [simp]: "sound (boot p)"
  by (simp add: sound_def boot_fields)

lemma sound_crowned: "crowned n n' \<Longrightarrow> sound n \<Longrightarrow> sound n'"
  by (simp add: crowned_def sound_def fixed_def)

lemma sound_sided: "sided t n n' \<Longrightarrow> sound n \<Longrightarrow> sound n'"
  by (simp add: sided_def sound_def fixed_def)

lemma boot_election:
  assumes "set abc = {p, v, w}"
  obtains s where "reachable reads DefaultOptions abc s" "\<And>q. up s q" "crowned (boot p) (nodes s p)"
    "sided 1 (boot v) (nodes s v)" "nodes s w = boot w"
proof (rule elect_run [OF boot_reachable, of p v w])
  have "card {p, v, w} = 3" using assms distinct_card [OF abc_ok(2)] abc_ok(3) by simp
  then have ne: "w \<noteq> p" "w \<noteq> v" by (auto simp: card_insert_if split: if_splits)
  fix s'
  assume s': "(sys_step reads DefaultOptions abc)\<^sup>*\<^sup>* boot_sys s'" "up s' = up boot_sys" "crowned (nodes boot_sys p) (nodes s' p)"
    "sided (Suc (currentTerm (nodes boot_sys p))) (nodes boot_sys v) (nodes s' v)"
    "\<And>q. q \<noteq> p \<Longrightarrow> q \<noteq> v \<Longrightarrow> nodes s' q = nodes boot_sys q"
  show thesis
  proof (rule that)
    show "reachable reads DefaultOptions abc s'" using sys_steps_reachable [OF s'(1) boot_reachable] by simp
  qed (use s' ne in \<open>auto simp: boot_sys_def boot_fields\<close>)
qed (use assms in \<open>auto simp: abc_ok boot_sys_def boot_fields not_ahead_def room_def term_room_def lastIndex_def lastTerm_def two64_def\<close>)

lemma first_election:
  obtains s where "reachable reads DefaultOptions abc s" "\<And>p. up s p" "crowned (boot ''a'') (nodes s ''a'')"
    "sided 1 (boot ''b'') (nodes s ''b'')" "nodes s ''c'' = boot ''c''"
  using boot_election [OF abc_ok(4)] by blast

theorem election_safety_witness:
  "\<exists>s. cluster_ok abc \<and> reachable True DefaultOptions abc s \<and> role (nodes s ''a'') = Leader \<and> currentTerm (nodes s ''a'') = 1 \<and>
     \<not> (role (nodes s ''b'') = Leader \<and> currentTerm (nodes s ''b'') = 1)"
proof -
  obtain s where s: "reachable True DefaultOptions abc s" "crowned (boot ''a'') (nodes s ''a'')"
    by (rule first_election)
  then have a: "role (nodes s ''a'') = Leader" "currentTerm (nodes s ''a'') = 1" by (simp_all add: crowned_def boot_fields)
  have "\<not> (role (nodes s ''b'') = Leader \<and> currentTerm (nodes s ''b'') = 1)"
    using election_safety [OF abc_ok(1) s(1), of s "''a''" "''b''"] a by (auto simp: abc_def)
  with s a abc_ok(1) show ?thesis by blast
qed

end
