(* ===== verification/ApplyFacts.thy ===== *)
theory ApplyFacts
  imports Waiters
begin

text \<open>
  The apply loop applies exactly the committed entries, in order, and answers each waiter with
  the result of its own entry.
\<close>

section \<open>The apply loop\<close>

definition unapplied :: "('s, 'm) Node \<Rightarrow> LogEntry list" where
  "unapplied n = take (commitIndex n - lastApplied n) (drop (Suc (lastApplied n) - snapshotIndex n) (entries n))"

text \<open>What the waiter for index \<open>i\<close> is to be told.\<close>

definition answer :: "('s, 'm) Node \<Rightarrow> uint64 \<Rightarrow> waiter \<Rightarrow> proposeResult" where
  "answer n i w =
     (let e = entries n ! (i - snapshotIndex n);
          before = replay (sm_if n) (sm n) (map Cmd (take (i - Suc (lastApplied n)) (unapplied n)))
      in if w_term w = Term e then \<lparr>pr_result = snd (sm_Apply (sm_if n) before (Cmd e)), pr_err = None\<rparr>
         else \<lparr>pr_result = NoBytes, pr_err = Some ErrLostLeadership\<rparr>)"

definition apply_ok :: "('s, 'm) Node \<Rightarrow> bool" where
  "apply_ok n \<longleftrightarrow> log_ok n \<and> wait_ok n \<and> fault n = None \<and> snapshotIndex n \<le> lastApplied n \<and>
     lastApplied n \<le> commitIndex n \<and> commitIndex n \<le> lastIndex n"

lemma apply_step:
  assumes ok: "apply_ok n" and lt: "lastApplied n < commitIndex n"
  defines "i \<equiv> Suc (lastApplied n)"
  defines "e \<equiv> entries n ! (i - snapshotIndex n)"
  shows "apply_ok (applyOne n)"
    and "unapplied n = e # unapplied (applyOne n)"
    and "sm (applyOne n) = fst (sm_Apply (sm_if n) (sm n) (Cmd e))"
    and "pending (applyOne n) = fmdrop i (pending n)"
    and "chans (applyOne n) = (case fmlookup (pending n) i of None \<Rightarrow> chans n | Some w \<Rightarrow> (chans n)(w_ch w \<mapsto> answer n i w))"
proof -
  define n1 where "n1 = n\<lparr>lastApplied := i, sm := fst (sm_Apply (sm_if n) (sm n) (Cmd e)), appliedCount := add64 (appliedCount n) 1\<rparr>"
  have len: "i < snapshotIndex n + length (entries n)" "snapshotIndex n < i"
    using ok lt lastIndex_Suc [of n] by (auto simp: apply_ok_def i_def)
  have "entryAt n i = Some e" using len by (simp add: entryAt_def e_def Let_def less_diff_conv2)
  moreover have "entryAt (n\<lparr>lastApplied := j\<rparr>) i = entryAt n i" for j by (simp add: entryAt_def Let_def)
  ultimately have one: "applyOne n = deliver n1 i e (snd (sm_Apply (sm_if n) (sm n) (Cmd e)))"
    using len(2) by (simp add: applyOne_def n1_def i_def Let_def case_prod_beta)
  have w1: "wait_ok n1" using ok by (simp add: apply_ok_def wait_ok_def pend_ok_def n1_def)
  have un: "unapplied n = e # drop 1 (unapplied n)"
    using len lt by (simp add: unapplied_def i_def e_def Cons_nth_drop_Suc [symmetric] take_Cons' Suc_diff_le)
  have "deliver n1 i e r = n1\<lparr>pending := fmdrop i (pending n),
      chans := (case fmlookup (pending n) i of None \<Rightarrow> chans n
        | Some w \<Rightarrow> (chans n)(w_ch w \<mapsto> if w_term w = Term e then \<lparr>pr_result = r, pr_err = None\<rparr>
            else \<lparr>pr_result = NoBytes, pr_err = Some ErrLostLeadership\<rparr>))\<rparr>" for r
  proof (cases "fmlookup (pending n) i")
    case None
    then have "fmdrop i (pending n) = pending n" by (intro fmap_ext) simp
    then show ?thesis using None by (simp add: deliver_def n1_def)
  next
    case (Some w)
    then show ?thesis using wait_ok_send(2) [OF w1, of i w] by (simp add: deliver_def n1_def Let_def)
  qed
  note d = this [of "snd (sm_Apply (sm_if n) (sm n) (Cmd e))", folded one]
  show "sm (applyOne n) = fst (sm_Apply (sm_if n) (sm n) (Cmd e))" "pending (applyOne n) = fmdrop i (pending n)"
    by (simp_all add: d n1_def)
  have "i - Suc (lastApplied n) = 0" by (simp add: i_def)
  then show
 "chans (applyOne n) = (case fmlookup (pending n) i of None \<Rightarrow> chans n | Some w \<Rightarrow> (chans n)(w_ch w \<mapsto> answer n i w))"
    by (simp add: d answer_def e_def [symmetric] split: option.split)
  have "unapplied (applyOne n) = drop 1 (unapplied n)"
    using len lt by (simp add: unapplied_def i_def drop_take Suc_diff_le add.commute)
  then show "unapplied n = e # unapplied (applyOne n)" using un by simp
  have "fault (applyOne n) = None" using ok by (simp add: d n1_def apply_ok_def)
  then show "apply_ok (applyOne n)"
    using ok lt wait_ok_applyOne [of n] log_ok_cong [of "applyOne n" n] by (simp add: apply_ok_def lastIndex_def)
qed

lemma applyAll_chan:
  "apply_ok n \<Longrightarrow> (\<And>i w. fmlookup (pending n) i = Some w \<Longrightarrow> w_ch w \<noteq> c) \<Longrightarrow> chans (applyAll n) c = chans n c"
proof (induction n rule: applyAll.induct)
  case (1 n)
  show ?case
  proof (cases "fault n = None \<and> lastApplied n < commitIndex n")
    case True
    note s = apply_step [OF "1.prems"(1) conjunct2 [OF True]]
    have "w_ch w \<noteq> c" if "fmlookup (pending (applyOne n)) i = Some w" for i w
      using that "1.prems"(2) by (simp add: s(4) split: if_splits)
    then have "chans (applyAll (applyOne n)) c = chans (applyOne n) c"
      using True s(1) by (intro "1.IH") auto
    also have "\<dots> = chans n c" using s(5) "1.prems"(2) by (auto split: option.split)
    finally show ?thesis using True by (subst applyAll.simps) simp
  next
    case False
    then show ?thesis by (subst applyAll.simps) auto
  qed
qed

lemma applyAll_spec:
  "apply_ok n \<Longrightarrow> apply_ok (applyAll n) \<and> lastApplied (applyAll n) = commitIndex n \<and>
     sm (applyAll n) = replay (sm_if n) (sm n) (map Cmd (unapplied n)) \<and>
     (\<forall>i w. lastApplied n < i \<and> i \<le> commitIndex n \<and> fmlookup (pending n) i = Some w \<longrightarrow>
        chans (applyAll n) (w_ch w) = Some (answer n i w))"
proof (induction n rule: applyAll.induct)
  case (1 n)
  show ?case
  proof (cases "lastApplied n < commitIndex n")
    case False
    then have "lastApplied n = commitIndex n" "unapplied n = []" using "1.prems" by (auto simp: apply_ok_def unapplied_def)
    moreover have "applyAll n = n" using False by (subst applyAll.simps) simp
    ultimately show ?thesis using "1.prems" by auto
  next
    case True
    then have c: "fault n = None \<and> lastApplied n < commitIndex n" using "1.prems" by (simp add: apply_ok_def)
    note s = apply_step [OF "1.prems" True]
    note IH = "1.IH" [OF c s(1)]
    have all: "applyAll n = applyAll (applyOne n)" using c by (subst applyAll.simps) simp
    have ans: "answer (applyOne n) i w = answer n i w" if "Suc (lastApplied n) < i" for i w
    proof -
      have "i - Suc (lastApplied n) = Suc (i - Suc (Suc (lastApplied n)))" using that by simp
      then have "take (i - Suc (lastApplied n)) (unapplied n) =
          entries n ! (Suc (lastApplied n) - snapshotIndex n) # take (i - Suc (Suc (lastApplied n))) (unapplied (applyOne n))"
        by (simp only: s(2) take_Suc_Cons)
      then have "replay (sm_if n) (sm n) (map Cmd (take (i - Suc (lastApplied n)) (unapplied n))) =
          replay (sm_if n) (sm (applyOne n)) (map Cmd (take (i - Suc (Suc (lastApplied n))) (unapplied (applyOne n))))"
        by (simp only: s(3) list.map replay.simps)
      then show ?thesis by (simp add: answer_def Let_def)
    qed
    have "chans (applyAll n) (w_ch w) = Some (answer n i w)"
      if i: "lastApplied n < i" "i \<le> commitIndex n" "fmlookup (pending n) i = Some w" for i w
    proof (cases "i = Suc (lastApplied n)")
      case True
      have "w_ch v \<noteq> w_ch w" if "fmlookup (pending (applyOne n)) j = Some v" for j v
        using that "1.prems" i(3) True s(4)
        by (auto simp: apply_ok_def wait_ok_def pend_ok_def split: if_splits)
      then have "chans (applyAll (applyOne n)) (w_ch w) = chans (applyOne n) (w_ch w)"
        by (intro applyAll_chan [OF s(1)]) auto
      then show ?thesis using s(5) i(3) True all by simp
    next
      case False
      then have "Suc (lastApplied n) < i" using i(1) by simp
      moreover have "fmlookup (pending (applyOne n)) i = Some w" using s(4) i(3) False by simp
      ultimately show ?thesis using IH i(2) ans all by simp
    qed
    then show ?thesis using IH s(2,3) by (simp add: all)
  qed
qed

text \<open>
  C13: The apply loop applies exactly the committed entries that were not yet applied, once each
  and in log order, without a fault; and every caller waiting for one of them is answered with
  the state machine's result for its own entry, or with \<open>ErrLostLeadership\<close> when another
  leader's entry took the index.
\<close>

theorem applyAll_in_order:
  assumes "log_ok n" "wait_ok n" "fault n = None" "snapshotIndex n \<le> lastApplied n" "lastApplied n \<le> commitIndex n"
    "commitIndex n \<le> lastIndex n"
  shows "fault (applyAll n) = None \<and> lastApplied (applyAll n) = commitIndex n \<and>
     sm (applyAll n) = replay (sm_if n) (sm n) (map Cmd (unapplied n)) \<and>
     (\<forall>i w. lastApplied n < i \<and> i \<le> commitIndex n \<and> fmlookup (pending n) i = Some w \<longrightarrow>
        chans (applyAll n) (w_ch w) = Some (answer n i w))"
  using applyAll_spec [of n] assms by (simp add: apply_ok_def)

definition two_pending :: "(MemStore, State) Node" where
  "two_pending = (fresh ''a'')\<lparr>entries := [\<lparr>Term = 0, Index = 0, Cmd = NoBytes\<rparr>, put 1 1 ''x'', put 2 2 ''y''],
     commitIndex := 2, pending := fmupd 1 \<lparr>w_term = 1, w_ch = 0\<rparr> (fmupd 2 \<lparr>w_term = 1, w_ch = 1\<rparr> fmempty), nextChan := 2\<rparr>"

theorem applyAll_in_order_witness:
  "fault (applyAll two_pending) = None \<and> lastApplied (applyAll two_pending) = 2 \<and>
   sm (applyAll two_pending) = replay Jukebox_SM New_jukebox [Cmd (put 1 1 ''x''), Cmd (put 2 2 ''y'')] \<and>
   chans (applyAll two_pending) 0 = Some \<lparr>pr_result = snd (sm_Apply Jukebox_SM New_jukebox (Cmd (put 1 1 ''x''))), pr_err = None\<rparr> \<and>
   chans (applyAll two_pending) 1 = Some \<lparr>pr_result = NoBytes, pr_err = Some ErrLostLeadership\<rparr>"
proof -
  have ok: "log_ok two_pending" "wait_ok two_pending" "fault two_pending = None" "snapshotIndex two_pending \<le> lastApplied two_pending"
      "lastApplied two_pending \<le> commitIndex two_pending" "commitIndex two_pending \<le> lastIndex two_pending"
    by (auto simp: two_pending_def fresh_eq blank_def log_ok_def sentinel_def wait_ok_def pend_ok_def lastIndex_def two64_def
        split: if_splits)
  have u: "unapplied two_pending = [put 1 1 ''x'', put 2 2 ''y'']"
    by (simp add: unapplied_def two_pending_def fresh_eq blank_def)
  have a: "answer two_pending 1 \<lparr>w_term = 1, w_ch = 0\<rparr> = \<lparr>pr_result = snd (sm_Apply Jukebox_SM New_jukebox (Cmd (put 1 1 ''x''))), pr_err = None\<rparr>"
      "answer two_pending 2 \<lparr>w_term = 1, w_ch = 1\<rparr> = \<lparr>pr_result = NoBytes, pr_err = Some ErrLostLeadership\<rparr>"
    by (simp_all add: answer_def u Let_def) (simp_all add: two_pending_def fresh_eq blank_def)
  have c: "commitIndex two_pending = 2" "lastApplied two_pending = 0" "sm_if two_pending = Jukebox_SM" "sm two_pending = New_jukebox"
      "fmlookup (pending two_pending) 1 = Some \<lparr>w_term = 1, w_ch = 0\<rparr>" "fmlookup (pending two_pending) 2 = Some \<lparr>w_term = 1, w_ch = 1\<rparr>"
    by (simp_all add: two_pending_def fresh_eq blank_def)
  have all: "\<forall>i w. 0 < i \<and> i \<le> 2 \<and> fmlookup (pending two_pending) i = Some w \<longrightarrow>
      chans (applyAll two_pending) (w_ch w) = Some (answer two_pending i w)"
    using applyAll_in_order [OF ok] by (simp add: c)
  have "chans (applyAll two_pending) 0 = Some (answer two_pending 1 \<lparr>w_term = 1, w_ch = 0\<rparr>)"
    using all [rule_format, of 1 "\<lparr>w_term = 1, w_ch = 0\<rparr>"] c by simp
  moreover have "chans (applyAll two_pending) 1 = Some (answer two_pending 2 \<lparr>w_term = 1, w_ch = 1\<rparr>)"
    using all [rule_format, of 2 "\<lparr>w_term = 1, w_ch = 1\<rparr>"] c by simp
  ultimately show ?thesis using applyAll_in_order [OF ok] a by (simp add: c u)
qed

end
