(* ===== verification/ReadAnomalies.thy ===== *)
theory ReadAnomalies
  imports Runs ApplyFacts
begin

text \<open>
  Two executions of a healthy cluster of three in which linearizable reads go wrong.  In the
  first the heartbeats of a read make a follower commit and apply entries of its own that the
  leader never had, and two state machines diverge.  In the second a new leader answers a read
  from a state older than a write that was already applied, because it does not wait for an
  entry of its own term to commit.
\<close>

section \<open>Proposing, shipping, applying\<close>

definition own :: "(MemStore, State) Node \<Rightarrow> bytes \<Rightarrow> LogEntry" where
  "own n c = \<lparr>Term = currentTerm n, Index = Suc (lastIndex n), Cmd = c\<rparr>"

text \<open>A leader of three that nobody has acknowledged yet takes a proposal.\<close>

lemma propose_fields:
  fixes c :: bytes
  assumes "role n = Leader" "room n" "quorum n = 2" "\<forall>q\<in>set (peers n). matchIndex n q = Some 0"
  defines "n' \<equiv> fst (Propose n c)"
  shows "entries n' = entries n @ [own n c]" "role n' = Leader" "currentTerm n' = currentTerm n" "commitIndex n' = commitIndex n"
    "lastApplied n' = lastApplied n" "sm n' = sm n" "nextIndex n' = nextIndex n" "matchIndex n' = matchIndex n" "sound n' = sound n"
    "fixed n n'"
proof -
  define m where "m = fst (appendOwn n c)"
  have none: "commitScan m i = None" for i
  proof (rule ccontr)
    assume "commitScan m i \<noteq> None"
    then obtain j where "commitScan m i = Some j" by blast
    then have "commitIndex m < j" "quorum m \<le> replicaCount m j" using commitScan_Some [of m i j] by (auto simp: committable_def)
    moreover have "replicaCount m j = 1" if "0 < j"
      using that assms(4) by (auto simp: replicaCount_def m_def appendOwn_conv mget_def filter_empty_conv)
    ultimately show False using assms(3) by (auto simp: m_def appendOwn_conv)
  qed
  have "n' = triggerReplication m"
    using assms(1) none by (simp add: n'_def Propose_def case_prod_beta m_def advanceCommitLocked_def)
  moreover have "lastIndex n + 1 < two64" using assms(2) by (simp add: room_def)
  ultimately show "entries n' = entries n @ [own n c]" "role n' = Leader" "currentTerm n' = currentTerm n" "commitIndex n' = commitIndex n"
    "lastApplied n' = lastApplied n" "sm n' = sm n" "nextIndex n' = nextIndex n" "matchIndex n' = matchIndex n" "sound n' = sound n"
    "fixed n n'"
    using assms(1) by (simp_all add: triggerReplication_def m_def appendOwn_conv ownEntry_def own_def sound_def fixed_def)
qed

text \<open>A follower whose log is a prefix of the leader's receives the rest.\<close>

lemma mergeLog_extends:
  assumes "log_ok f" "contiguous (Suc (lastIndex f)) es"
  shows "mergeLog f es = entries f @ es"
proof (cases es)
  case (Cons x xs)
  then have ix: "Index x = Suc (lastIndex f)" using assms(2) by simp
  have "termAt f (Index x) = None"
    using assms(1) lastIndex_Suc [OF assms(1)] by (simp add: termAt_def ix)
  moreover have "snapshotIndex f < Index x" using snapshotIndex_le_last [OF assms(1)] ix by simp
  ultimately have "\<not> present f x" by (simp add: present_def)
  then have m: "missing f (x # xs) = x # xs" by (simp add: missing_def)
  show ?thesis using lastIndex_Suc [OF assms(1)] ix by (simp add: mergeLog_def m Cons)
qed (simp add: mergeLog_def missing_def)

lemma append_extends:
  assumes "log_ok f" "sound f" "currentTerm f \<le> aeTerm ae" "PrevLogIndex ae = lastIndex f" "PrevLogTerm ae = lastTerm f" "req_ok ae"
  obtains f' where "AppendEntries env0 f ae = (f', \<lparr>aerTerm = aeTerm ae, Success = True, ConflictIndex = 0, ConflictTerm = 0\<rparr>)"
    "entries f' = entries f @ aeEntries ae" "sound f'" "currentTerm f' = aeTerm ae"
    "commitIndex f' = (if commitIndex f < LeaderCommit ae then min (LeaderCommit ae) (lastIndex f') else commitIndex f)"
    "applyCh f' = (commitIndex f < LeaderCommit ae \<or> applyCh f)" "lastApplied f' = lastApplied f" "sm f' = sm f"
proof -
  have acc: "accepts f ae" using assms termAt_last [OF assms(1)] by (simp add: accepts_def)
  have m: "mergeLog f (aeEntries ae) = entries f @ aeEntries ae"
    using assms by (intro mergeLog_extends) (simp_all add: req_ok_def)
  have ft: "fault (heard env0 f (aeTerm ae) (aeLeaderId ae)) = None" using assms(2) by (simp add: heard_def go_defs sound_def)
  show ?thesis
    using that AppendEntries_accept [OF assms(1,6) acc refl, of env0] assms(2,3) ft
    by (auto simp: m commitTo_conv sound_def lastIndex_def)
qed

text \<open>The leader commits when one of its two peers has its whole log.\<close>

lemma reply_commits:
  fixes ae :: AppendEntriesRequest and q :: nodeid
  assumes "role n = Leader" "log_ok n" "quorum n = 2" "q \<in> set (peers n)" "matchIndex n q = Some 0" "0 < lastIndex n"
    and "commitIndex n < lastIndex n" "lastTerm n = currentTerm n"
    and "aeTerm ae = currentTerm n" "PrevLogIndex ae + length (aeEntries ae) = lastIndex n"
  defines "n' \<equiv> sendAppendEntries_reply n q ae \<lparr>aerTerm = currentTerm n, Success = True, ConflictIndex = 0, ConflictTerm = 0\<rparr>"
  shows "commitIndex n' = lastIndex n" "entries n' = entries n" "role n' = Leader" "currentTerm n' = currentTerm n" "applyCh n'"
    "lastApplied n' = lastApplied n" "sm n' = sm n" "sound n' = sound n" "x \<noteq> q \<Longrightarrow> nextIndex n' x = nextIndex n x" "fixed n n'"
    "nextIndex n' q = Some (Suc (lastIndex n))"
proof -
  have l64: "lastIndex n + 1 < two64" using lastIndex_less [OF assms(2)] .
  define m where "m = n\<lparr>matchIndex := (matchIndex n)(q \<mapsto> lastIndex n), nextIndex := (nextIndex n)(q \<mapsto> Suc (lastIndex n))\<rparr>"
  have lm: "lastIndex m = lastIndex n" "termAt m i = termAt n i" for i
    by (simp_all add: m_def lastIndex_def termAt_def Let_def)
  have "filter (\<lambda>p. lastIndex n \<le> mget (matchIndex m) p) (peers m) \<noteq> []"
    using assms(4) by (auto simp: filter_empty_conv m_def)
  then have "2 \<le> replicaCount m (lastIndex n)" by (cases "filter (\<lambda>p. lastIndex n \<le> mget (matchIndex m) p) (peers m)") (auto simp: replicaCount_def)
  then have scan: "commitScan m (lastIndex m) = Some (lastIndex n)"
    using assms(3,7,8) termAt_last [OF assms(2)] by (subst commitScan.simps) (simp add: lm, simp add: m_def)
  have "n' = signalApply (m\<lparr>commitIndex := lastIndex n\<rparr>)"
    using assms(1,5,6,9,10) scan l64 by (simp add: n'_def sendAppendEntries_reply_def m_def [symmetric] Let_def mget_def advanceCommitLocked_def)
  then show "commitIndex n' = lastIndex n" "entries n' = entries n" "role n' = Leader" "currentTerm n' = currentTerm n" "applyCh n'"
    "lastApplied n' = lastApplied n" "sm n' = sm n" "sound n' = sound n" "x \<noteq> q \<Longrightarrow> nextIndex n' x = nextIndex n x" "fixed n n'"
    "nextIndex n' q = Some (Suc (lastIndex n))"
    using assms(1) by (simp_all add: signalApply_def m_def sound_def fixed_def)
qed

lemma apply_two:
  assumes "member_ok ids p n" "sound n" "lastApplied n = 0" "commitIndex n = 2" "entries n = [x, y, z]"
  shows "sm (applyReady (n\<lparr>applyCh := False\<rparr>)) = replay Jukebox_SM (sm n) [Cmd y, Cmd z]"
    "lastApplied (applyReady (n\<lparr>applyCh := False\<rparr>)) = 2" "applyReady (n\<lparr>applyCh := False\<rparr>) = applyAll (n\<lparr>applyCh := False\<rparr>)"
proof -
  let ?m = "n\<lparr>applyCh := False\<rparr>"
  have lok: "log_ok n" using assms(1) by (simp add: member_ok_def)
  have "lastIndex n = 2" using lastIndex_Suc [OF lok] assms(2,5) by (simp add: sound_def)
  moreover have "log_ok ?m = log_ok n" by (rule log_ok_cong) simp_all
  moreover have "wait_ok ?m = wait_ok n" by (simp add: wait_ok_def pend_ok_def)
  ultimately have "apply_ok ?m"
    using assms lok by (auto simp: apply_ok_def member_ok_def sound_def lastIndex_def)
  note all = applyAll_spec [OF this]
  have "unapplied ?m = [y, z]" using assms by (simp add: unapplied_def sound_def)
  moreover have "maybeSnapshotLocked (applyAll ?m) = applyAll ?m"
    using assms(2,5) by (simp add: maybeSnapshotLocked_def sound_def)
  ultimately show "sm (applyReady ?m) = replay Jukebox_SM (sm n) [Cmd y, Cmd z]" "lastApplied (applyReady ?m) = 2"
      "applyReady ?m = applyAll ?m"
    using all assms(1,4) by (simp_all add: applyReady_def Let_def member_ok_def)
qed

lemma ship_request:
  assumes "role n = Leader" "log_ok n" "log_ok f" "snapshotIndex n = 0" "snapshotIndex f = 0"
    and "nextIndex n q = Some (Suc (lastIndex f))" "entries n = entries f @ es"
  shows "sendAppendEntries n q = SendEntries \<lparr>aeTerm = currentTerm n, aeLeaderId = nid n, PrevLogIndex = lastIndex f,
      PrevLogTerm = lastTerm f, aeEntries = es, LeaderCommit = commitIndex n\<rparr>"
proof -
  have len: "Suc (lastIndex f) = length (entries f)" "entries f \<noteq> []" "lastIndex f + 1 < two64"
    using lastIndex_Suc [OF assms(3)] assms(5) lastIndex_less [OF assms(3)] by auto
  have "termAt n (lastIndex f) = Some (lastTerm f)"
    using len by (simp add: termAt_def assms(4,7) nth_append lastTerm_def last_conv_nth flip: len(1))
  moreover have "sliceFrom n (Suc (lastIndex f)) = es"
    using len by (simp add: sliceFrom_def assms(4,7) Let_def)
  ultimately show ?thesis
    using assms(1,4,6) by (simp add: sendAppendEntries_def mget_def Let_def)
qed

lemma ship_run:
  assumes reach: "reachable reads opts ids s" and mem: "p \<in> set ids" "q \<in> set ids" "p \<noteq> q" "q \<in> set (peers (nodes s p))" and up: "up s p" "up s q"
    and snd: "sound (nodes s p)" "sound (nodes s q)" "quorum (nodes s p) = 2"
    and led: "role (nodes s p) = Leader" "matchIndex (nodes s p) q = Some 0" "lastTerm (nodes s p) = currentTerm (nodes s p)"
      "commitIndex (nodes s p) = 0" "commitIndex (nodes s q) = 0" "currentTerm (nodes s q) \<le> currentTerm (nodes s p)"
    and log: "nextIndex (nodes s p) q = Some (Suc (lastIndex (nodes s q)))" "entries (nodes s p) = entries (nodes s q) @ es" "es \<noteq> []"
  obtains s' where "reachable reads opts ids s'" "up s' = up s" "\<And>r. r \<noteq> p \<Longrightarrow> r \<noteq> q \<Longrightarrow> nodes s' r = nodes s r"
    "commitIndex (nodes s' p) = lastIndex (nodes s p)" "entries (nodes s' p) = entries (nodes s p)" "role (nodes s' p) = Leader"
    "currentTerm (nodes s' p) = currentTerm (nodes s p)" "applyCh (nodes s' p)" "lastApplied (nodes s' p) = lastApplied (nodes s p)"
    "sm (nodes s' p) = sm (nodes s p)" "sound (nodes s' p)" "\<And>x. x \<noteq> q \<Longrightarrow> nextIndex (nodes s' p) x = nextIndex (nodes s p) x"
    "entries (nodes s' q) = entries (nodes s p)" "sound (nodes s' q)" "commitIndex (nodes s' q) = 0" "lastApplied (nodes s' q) = lastApplied (nodes s q)"
    "sm (nodes s' q) = sm (nodes s q)" "currentTerm (nodes s' q) = currentTerm (nodes s p)" "role (nodes s' q) = Follower"
    "nextIndex (nodes s' p) q = Some (Suc (lastIndex (nodes s p)))"
proof -
  let ?n = "nodes s p" and ?f = "nodes s q"
  have lok: "log_ok ?n" "log_ok ?f" using base_log_ok [OF reachable_base [OF reach]] mem by auto
  define ae where "ae = \<lparr>aeTerm = currentTerm ?n, aeLeaderId = nid ?n, PrevLogIndex = lastIndex ?f,
      PrevLogTerm = lastTerm ?f, aeEntries = es, LeaderCommit = commitIndex ?n\<rparr>"
  have send: "sendAppendEntries ?n q = SendEntries ae"
    using ship_request [OF led(1) lok _ _ log(1,2)] snd by (simp add: ae_def sound_def)
  define s1 where "s1 = send s {AE p q ae}"
  have st1: "sys_step reads opts ids s s1" unfolding s1_def using mem up send by (intro sys_step.send_entries)
  have rok: "req_ok ae" using sendAppendEntries_req_ok [OF lok(1) send] .
  define resp where "resp = \<lparr>aerTerm = currentTerm ?n, Success = True, ConflictIndex = 0, ConflictTerm = 0\<rparr>"
  obtain f' where f': "AppendEntries env0 ?f ae = (f', resp)" "entries f' = entries ?f @ es" "sound f'" "currentTerm f' = currentTerm ?n"
    "commitIndex f' = 0" "lastApplied f' = lastApplied ?f" "sm f' = sm ?f"
    by (rule append_extends [OF lok(2) snd(2) _ _ _ rok]) (use led in \<open>auto simp: ae_def resp_def\<close>)
  have fol: "role f' = Follower"
    using f'(1) AppendEntries_accept [OF lok(2) rok _ refl, of env0] Success_accepts [of env0 ?f ae] by (simp add: resp_def commitTo_conv)
  define s2 where "s2 = send (setNode s1 q f') {AER q p ae resp}"
  have st2: "sys_step reads opts ids s1 s2"
    unfolding s2_def using mem up f'(1) by (intro sys_step.deliver_ae [where e = env0]) (auto simp: s1_def)
  define n' where "n' = sendAppendEntries_reply ?n q ae resp"
  define s3 where "s3 = setNode s2 p n'"
  have "nodes s2 p = ?n" using mem(3) by (simp add: s2_def s1_def)
  then have st3: "sys_step reads opts ids s2 s3"
    using sys_step.deliver_aer [OF mem(1), where s = s2 and q = q and ae = ae and resp = resp] up(1) by (simp add: s3_def n'_def s2_def s1_def)
  have len: "lastIndex ?n = lastIndex ?f + length es" using lastIndex_Suc [OF lok(1)] lastIndex_Suc [OF lok(2)] snd log(2) by (simp add: sound_def)
  then have pos: "0 < lastIndex ?n" using log(3) by (cases es) auto
  note n' = reply_commits [OF led(1) lok(1) snd(3) mem(4) led(2) pos _ led(3), of ae, folded resp_def n'_def]
  have "reachable reads opts ids s3" using reach st1 st2 st3 reachable.step by meson
  then show ?thesis
    using n' pos len led f' fol snd(1) log(2) mem(3) by (intro that [of s3]) (simp_all add: s3_def s2_def s1_def ae_def)
qed

section \<open>A read heartbeat makes two replicas diverge\<close>

abbreviation enqueue :: "string \<Rightarrow> bytes" where
  "enqueue x \<equiv> Encode (enq_cmd ''c1'' 1 x)"

lemma replay_enqueue:
  assumes "x \<noteq> ''''"
  shows "map sID (Queue (replay Jukebox_SM New_jukebox [noopCommand, enqueue x])) = [x]"
proof -
  have "unmarshal_command noopCommand = (op_command OpNoop, None)"
    unfolding noopCommand_def by (rule unmarshal_Encode) (simp_all add: op_command_def)
  then have "fst (Apply New_jukebox noopCommand) = New_jukebox"
    by (simp add: Apply_def cached_def session_def op_command_def applyInner_def op_defs Let_def)
  then show ?thesis using Apply_enq_New [of 1 x] assms by simp
qed

lemma room_small: "lastIndex n \<le> 10 \<Longrightarrow> room n" "currentTerm n \<le> 10 \<Longrightarrow> term_room n"
  by (simp_all add: room_def term_room_def two64_def)

lemma crowned_boot:
  assumes "crowned (boot p) n"
  shows "role n = Leader" "currentTerm n = 1" "entries n = entries (boot p) @ [\<lparr>Term = 1, Index = 1, Cmd = noopCommand\<rparr>]"
    "lastIndex n = 1" "commitIndex n = 0" "lastApplied n = 0" "sm n = New_jukebox" "sound n"
  using assms sound_crowned [OF assms] by (simp_all add: crowned_def boot_fields lastIndex_def)

abbreviation log2 :: "uint64 \<Rightarrow> string \<Rightarrow> LogEntry list" where
  "log2 t x \<equiv> [\<lparr>Term = 0, Index = 0, Cmd = NoBytes\<rparr>, \<lparr>Term = t, Index = 1, Cmd = noopCommand\<rparr>, \<lparr>Term = t, Index = 2, Cmd = enqueue x\<rparr>]"

text \<open>A server that has just won an election with an empty log takes a song.\<close>

lemma leader_enqueues:
  assumes "reachable reads DefaultOptions abc s" "p \<in> set abc" "up s p" "crowned n (nodes s p)" "sound n"
    and "entries n = entries (boot p)" "currentTerm n = t" "commitIndex n = 0" "lastApplied n = 0" "sm n = New_jukebox" "t \<le> 9"
  obtains n' where "reachable reads DefaultOptions abc (setNode s p n')" "role n' = Leader" "currentTerm n' = Suc t" "entries n' = log2 (Suc t) x"
    "commitIndex n' = 0" "lastApplied n' = 0" "sm n' = New_jukebox" "sound n'" "member_ok abc p n'"
    "\<And>q. q \<in> set abc \<Longrightarrow> q \<noteq> p \<Longrightarrow> nextIndex n' q = Some 1 \<and> matchIndex n' q = Some 0"
proof
  let ?n' = "fst (Propose (nodes s p) (enqueue x))"
  have cr: "role (nodes s p) = Leader" "entries (nodes s p) = entries (boot p) @ [\<lparr>Term = Suc t, Index = 1, Cmd = noopCommand\<rparr>]"
      "currentTerm (nodes s p) = Suc t" "commitIndex (nodes s p) = 0" "lastApplied (nodes s p) = 0" "sm (nodes s p) = New_jukebox"
      "sound (nodes s p)" "\<forall>q\<in>set (peers (nodes s p)). matchIndex (nodes s p) q = Some 0 \<and> nextIndex (nodes s p) q = Some 1"
    using assms(4-) sound_crowned [OF assms(4)] by (simp_all add: crowned_def boot_fields lastIndex_def fixed_def)
  have li: "lastIndex (nodes s p) = 1" by (simp add: lastIndex_def cr(2))
  have mem: "member_ok abc p (nodes s p)" using base_member [OF reachable_base [OF assms(1)] assms(2)] .
  have rm: "room (nodes s p)" by (simp add: li room_small)
  then show r: "reachable reads DefaultOptions abc (setNode s p ?n')"
    using sys_step.propose [OF assms(2,3)] assms(1) reachable.step by blast
  show "member_ok abc p ?n'" using base_member [OF reachable_base [OF r] assms(2)] by simp
  have "quorum (nodes s p) = 2" using mem by (simp add: member_ok_def abc_def)
  note f = propose_fields [OF cr(1) rm this, of "enqueue x"]
  show "role ?n' = Leader" "currentTerm ?n' = Suc t" "entries ?n' = log2 (Suc t) x"
    "commitIndex ?n' = 0" "lastApplied ?n' = 0" "sm ?n' = New_jukebox" "sound ?n'"
    using f cr by (simp_all add: own_def li boot_fields numeral_2_eq_2)
  show "nextIndex ?n' q = Some 1 \<and> matchIndex ?n' q = Some 0" if "q \<in> set abc" "q \<noteq> p" for q
    using f(7,8) cr(8) that mem by (simp add: member_ok_def)
qed

text \<open>
  Two leaders in a row, neither of which has shipped anything: \<open>a\<close> in term 1 with the song \<open>x\<close>,
  then \<open>b\<close> in term 2 with \<open>y\<close>.
\<close>

lemma two_leaders:
  obtains s where "reachable reads DefaultOptions abc s" "\<And>p. up s p"
    "entries (nodes s ''a'') = log2 1 ''x''" "currentTerm (nodes s ''a'') = 1" "commitIndex (nodes s ''a'') = 0" "lastApplied (nodes s ''a'') = 0"
    "sm (nodes s ''a'') = New_jukebox" "sound (nodes s ''a'')"
    "role (nodes s ''b'') = Leader" "currentTerm (nodes s ''b'') = 2" "entries (nodes s ''b'') = log2 2 ''y''"
    "commitIndex (nodes s ''b'') = 0" "lastApplied (nodes s ''b'') = 0" "sm (nodes s ''b'') = New_jukebox" "sound (nodes s ''b'')"
    "\<And>q. q \<in> set abc \<Longrightarrow> q \<noteq> ''b'' \<Longrightarrow> nextIndex (nodes s ''b'') q = Some 1 \<and> matchIndex (nodes s ''b'') q = Some 0"
    "entries (nodes s ''c'') = entries (boot ''c'')" "currentTerm (nodes s ''c'') = 2" "commitIndex (nodes s ''c'') = 0" "sound (nodes s ''c'')"
proof -
  obtain s1 where s1: "reachable reads DefaultOptions abc s1" "\<And>p. up s1 p" "crowned (boot ''a'') (nodes s1 ''a'')"
    "sided 1 (boot ''b'') (nodes s1 ''b'')" "nodes s1 ''c'' = boot ''c''"
    using first_election [where reads = reads] by metis
  obtain a2 where a2: "reachable reads DefaultOptions abc (setNode s1 ''a'' a2)" "currentTerm a2 = 1" "entries a2 = log2 1 ''x''"
    "commitIndex a2 = 0" "lastApplied a2 = 0" "sm a2 = New_jukebox" "sound a2"
    by (rule leader_enqueues [OF s1(1) _ s1(2,3), where x = "''x''" and t = 0]) (auto simp: boot_fields abc_def)
  define s2 where "s2 = setNode s1 ''a'' a2"
  have b: "nodes s2 ''b'' = nodes s1 ''b''" "nodes s2 ''c'' = boot ''c''" using s1(5) by (simp_all add: s2_def)
  have b1: "entries (nodes s1 ''b'') = entries (boot ''b'')" "currentTerm (nodes s1 ''b'') = 1" "role (nodes s1 ''b'') \<noteq> Leader"
      "commitIndex (nodes s1 ''b'') = 0" "lastApplied (nodes s1 ''b'') = 0" "sm (nodes s1 ''b'') = New_jukebox" "sound (nodes s1 ''b'')"
    using s1(4) sound_sided [OF s1(4)] by (simp_all add: sided_def boot_fields)
  obtain s3 where s3: "(sys_step reads DefaultOptions abc)\<^sup>*\<^sup>* s2 s3" "up s3 = up s2" "crowned (nodes s1 ''b'') (nodes s3 ''b'')"
    "sided 2 (boot ''c'') (nodes s3 ''c'')" "nodes s3 ''a'' = a2"
  proof (rule elect_run [OF a2(1) [folded s2_def], of "''b''" "''c''" "''a''"])
    fix s'
    assume h: "(sys_step reads DefaultOptions abc)\<^sup>*\<^sup>* s2 s'" "up s' = up s2" "crowned (nodes s2 ''b'') (nodes s' ''b'')"
      "sided (Suc (currentTerm (nodes s2 ''b''))) (nodes s2 ''c'') (nodes s' ''c'')" "\<And>q. q \<noteq> ''b'' \<Longrightarrow> q \<noteq> ''c'' \<Longrightarrow> nodes s' q = nodes s2 q"
    show thesis
      using h b1(2) s1(5) by (intro that [of s']) (simp_all add: s2_def numeral_2_eq_2)
  qed (use s1(2,5) b1 in \<open>auto simp: abc_ok b boot_fields not_ahead_def lastIndex_def lastTerm_def sound_def s2_def room_small\<close>)
  have r3: "reachable reads DefaultOptions abc s3" using sys_steps_reachable [OF s3(1)] a2(1) by (simp add: s2_def)
  have up3: "up s3 p" for p using s3(2) s1(2) by (simp add: s2_def)
  obtain b4 where b4: "reachable reads DefaultOptions abc (setNode s3 ''b'' b4)" "role b4 = Leader" "currentTerm b4 = 2" "entries b4 = log2 2 ''y''"
    "commitIndex b4 = 0" "lastApplied b4 = 0" "sm b4 = New_jukebox" "sound b4"
    "\<And>q. q \<in> set abc \<Longrightarrow> q \<noteq> ''b'' \<Longrightarrow> nextIndex b4 q = Some 1 \<and> matchIndex b4 q = Some 0"
    by (rule leader_enqueues [OF r3 _ up3 s3(3), where x = "''y''" and t = 1]) (use b1 in \<open>auto simp: abc_def numeral_2_eq_2\<close>)
  show ?thesis
    using b4 a2 s3(4,5) up3 sound_sided [OF s3(4)]
    by (intro that [of "setNode s3 ''b'' b4"]) (simp_all add: sided_def boot_fields)
qed

text \<open>Applying the committed entries of one server of a run.\<close>

lemma apply_run:
  assumes "reachable reads DefaultOptions abc s" "p \<in> set abc" "up s p" "applyCh (nodes s p)" "sound (nodes s p)"
    and "lastApplied (nodes s p) = 0" "commitIndex (nodes s p) = 2" "entries (nodes s p) = log2 t x" "sm (nodes s p) = New_jukebox" "x \<noteq> ''''"
  obtains n' where "reachable reads DefaultOptions abc (setNode s p n')" "lastApplied n' = 2" "map sID (Queue (sm n')) = [x]"
    "entries n' = log2 t x" "currentTerm n' = currentTerm (nodes s p)" "snapshotIndex n' = 0"
proof
  let ?n' = "applyReady ((nodes s p)\<lparr>applyCh := False\<rparr>)"
  show "reachable reads DefaultOptions abc (setNode s p ?n')"
    using reachable.step [OF assms(1) sys_step.apply_ready [OF assms(2-4)]] .
  have "member_ok abc p (nodes s p)" using base_member [OF reachable_base [OF assms(1)] assms(2)] .
  note two = apply_two [OF this assms(5-8)]
  show "lastApplied ?n' = 2" by (rule two(2))
  show "map sID (Queue (sm ?n')) = [x]" using two(1) replay_enqueue [OF assms(10)] by (simp add: assms(9))
  show "entries ?n' = log2 t x" "currentTerm ?n' = currentTerm (nodes s p)" "snapshotIndex ?n' = 0"
    using assms(5,8) by (simp_all add: two(3) sound_def)
qed

text \<open>
  C27: The heartbeats of a linearizable read break the agreement of the replicas.  In a cluster of
  three with the default options and no failures there is an execution after which two servers
  have both applied two entries and their queues differ: the heartbeat carries the leader's
  commit index and no entries, and the follower commits what it has at these indexes.
\<close>

theorem read_heartbeat_diverges:
  "\<exists>s. reachable True DefaultOptions abc s \<and> lastApplied (nodes s ''a'') = 2 \<and> lastApplied (nodes s ''b'') = 2 \<and>
     map sID (Queue (sm (nodes s ''a''))) = [''x''] \<and> map sID (Queue (sm (nodes s ''b''))) = [''y'']"
proof -
  obtain s where s: "reachable True DefaultOptions abc s" "\<And>p. up s p"
    "entries (nodes s ''a'') = log2 1 ''x''" "currentTerm (nodes s ''a'') = 1" "commitIndex (nodes s ''a'') = 0" "lastApplied (nodes s ''a'') = 0"
    "sm (nodes s ''a'') = New_jukebox" "sound (nodes s ''a'')"
    "role (nodes s ''b'') = Leader" "currentTerm (nodes s ''b'') = 2" "entries (nodes s ''b'') = log2 2 ''y''"
    "commitIndex (nodes s ''b'') = 0" "lastApplied (nodes s ''b'') = 0" "sm (nodes s ''b'') = New_jukebox" "sound (nodes s ''b'')"
    "\<And>q. q \<in> set abc \<Longrightarrow> q \<noteq> ''b'' \<Longrightarrow> nextIndex (nodes s ''b'') q = Some 1 \<and> matchIndex (nodes s ''b'') q = Some 0"
    "entries (nodes s ''c'') = entries (boot ''c'')" "currentTerm (nodes s ''c'') = 2" "commitIndex (nodes s ''c'') = 0" "sound (nodes s ''c'')"
    by (rule two_leaders [where reads = True]) metis
  have mb: "member_ok abc ''b'' (nodes s ''b'')" using base_member [OF reachable_base [OF s(1)]] by (simp add: abc_def)
  text \<open>\<open>b\<close> commits its log with \<open>c\<close>.\<close>
  obtain s2 where s2: "reachable True DefaultOptions abc s2" "up s2 = up s" "nodes s2 ''a'' = nodes s ''a''"
    "commitIndex (nodes s2 ''b'') = 2" "entries (nodes s2 ''b'') = log2 2 ''y''" "role (nodes s2 ''b'') = Leader" "currentTerm (nodes s2 ''b'') = 2"
    "applyCh (nodes s2 ''b'')" "lastApplied (nodes s2 ''b'') = 0" "sm (nodes s2 ''b'') = New_jukebox" "sound (nodes s2 ''b'')"
    "nextIndex (nodes s2 ''b'') ''a'' = Some 1"
    by (rule ship_run [OF s(1), of "''b''" "''c''" "tl (log2 2 ''y'')"])
      (use s mb in \<open>auto simp: abc_def member_ok_def boot_fields lastIndex_def lastTerm_def\<close>)
  text \<open>The read's heartbeat to \<open>a\<close>.\<close>
  define ae where "ae = \<lparr>aeTerm = 2, aeLeaderId = ''b'', PrevLogIndex = 0, PrevLogTerm = 0, aeEntries = [], LeaderCommit = 2\<rparr>"
  have m2: "member_ok abc p (nodes s2 p)" if "p \<in> set abc" for p using base_member [OF reachable_base [OF s2(1)] that] .
  have "confirmLeadership_request (nodes s2 ''b'') 2 2 ''a'' = Some ae"
    using s2 m2 [of "''b''"] by (simp add: confirmLeadership_request_def mget_def termAt_def sound_def ae_def member_ok_def abc_def)
  then have "sys_step True DefaultOptions abc s2 (send s2 {ReadAE ''b'' ''a'' ae})"
    using s2(2,4) s(2) m2 [of "''b''"] by (intro sys_step.read_send) (auto simp: abc_def member_ok_def)
  then have r3: "reachable True DefaultOptions abc (send s2 {ReadAE ''b'' ''a'' ae})" using s2(1) reachable.step by blast
  have la: "log_ok (nodes s ''a'')" "lastIndex (nodes s ''a'') = 2"
    using m2 [of "''a''"] s2(3) s(3) by (simp_all add: abc_def member_ok_def lastIndex_def)
  have acc: "accepts (nodes s ''a'') ae"
    using s(3,4,8) la by (simp add: accepts_def ae_def termAt_def sound_def)
  define a4 where "a4 = fst (AppendEntries env0 (nodes s ''a'') ae)"
  have a4: "entries a4 = log2 1 ''x''" "commitIndex a4 = 2" "applyCh a4" "lastApplied a4 = 0" "sm a4 = New_jukebox" "sound a4"
    using AppendEntries_accept [OF la(1) _ acc refl, of env0] s(3-8) la
    by (simp_all add: a4_def req_ok_def ae_def two64_def commitTo_conv mergeLog_def missing_def sound_def lastIndex_def)
      (simp add: heard_def go_defs)
  define s4 where "s4 = send (setNode (send s2 {ReadAE ''b'' ''a'' ae}) ''a'' a4) {ReadAER ''a'' ''b'' ae (snd (AppendEntries env0 (nodes s ''a'') ae))}"
  have "sys_step True DefaultOptions abc (send s2 {ReadAE ''b'' ''a'' ae}) s4"
    unfolding s4_def using s(2) s2(2,3) by (intro sys_step.read_deliver [where e = env0]) (auto simp: abc_def a4_def)
  then have r4: "reachable True DefaultOptions abc s4" using r3 reachable.step by blast
  have s4: "up s4 = up s" "nodes s4 ''a'' = a4" "nodes s4 ''b'' = nodes s2 ''b''" by (simp_all add: s4_def s2(2))
  text \<open>Both apply.\<close>
  obtain a5 where a5: "reachable True DefaultOptions abc (setNode s4 ''a'' a5)" "lastApplied a5 = 2" "map sID (Queue (sm a5)) = [''x'']"
    by (rule apply_run [OF r4, of "''a''" 1 "''x''"]) (use a4 s(2) s4 in \<open>auto simp: abc_def\<close>)
  obtain b5 where b5: "reachable True DefaultOptions abc (setNode (setNode s4 ''a'' a5) ''b'' b5)" "lastApplied b5 = 2" "map sID (Queue (sm b5)) = [''y'']"
    by (rule apply_run [OF a5(1), of "''b''" 2 "''y''"]) (use s2 s(2) s4 in \<open>auto simp: abc_def\<close>)
  show ?thesis using a5 b5 by (intro exI [of _ "setNode (setNode s4 ''a'' a5) ''b'' b5"]) simp
qed

section \<open>A new leader answers a read from an old state\<close>

text \<open>\<open>a\<close> commits and applies the song \<open>x\<close> with \<open>b\<close>, then \<open>b\<close> is elected by \<open>c\<close>.\<close>

definition song_state :: "sys \<Rightarrow> bool" where
  "song_state s \<longleftrightarrow> (\<forall>p. up s p) \<and>
     role (nodes s ''a'') = Leader \<and>
     nextIndex (nodes s ''a'') ''b'' = Some 3 \<and>
     nodes s ''c'' = boot ''c'' \<and>
     commitIndex (nodes s ''a'') = 2 \<and>
     entries (nodes s ''a'') = log2 1 ''x'' \<and>
     currentTerm (nodes s ''a'') = 1 \<and>
     applyCh (nodes s ''a'') \<and>
     lastApplied (nodes s ''a'') = 0 \<and>
     sm (nodes s ''a'') = New_jukebox \<and>
     sound (nodes s ''a'') \<and>
     entries (nodes s ''b'') = log2 1 ''x'' \<and>
     sound (nodes s ''b'') \<and>
     commitIndex (nodes s ''b'') = 0 \<and>
     lastApplied (nodes s ''b'') = 0 \<and>
     sm (nodes s ''b'') = New_jukebox \<and>
     currentTerm (nodes s ''b'') = 1 \<and>
     role (nodes s ''b'') = Follower"

lemma song_committed:
  obtains s where "reachable reads DefaultOptions abc s" "song_state s"
proof -
  obtain s1 where s1: "reachable reads DefaultOptions abc s1" "\<And>p. up s1 p" "crowned (boot ''a'') (nodes s1 ''a'')"
    "sided 1 (boot ''b'') (nodes s1 ''b'')" "nodes s1 ''c'' = boot ''c''"
    using first_election [where reads = reads] by metis
  obtain a2 where a2: "reachable reads DefaultOptions abc (setNode s1 ''a'' a2)" "role a2 = Leader" "currentTerm a2 = 1" "entries a2 = log2 1 ''x''"
    "commitIndex a2 = 0" "lastApplied a2 = 0" "sm a2 = New_jukebox" "sound a2" "member_ok abc ''a'' a2"
    "\<And>q. q \<in> set abc \<Longrightarrow> q \<noteq> ''a'' \<Longrightarrow> nextIndex a2 q = Some 1 \<and> matchIndex a2 q = Some 0"
    by (rule leader_enqueues [OF s1(1) _ s1(2,3), where x = "''x''" and t = 0]) (auto simp: boot_fields abc_def)
  have b1: "entries (nodes s1 ''b'') = entries (boot ''b'')" "currentTerm (nodes s1 ''b'') = 1" "commitIndex (nodes s1 ''b'') = 0"
      "lastApplied (nodes s1 ''b'') = 0" "sm (nodes s1 ''b'') = New_jukebox" "sound (nodes s1 ''b'')"
    using s1(4) sound_sided [OF s1(4)] by (simp_all add: sided_def boot_fields)
  obtain s3 where s3: "reachable reads DefaultOptions abc s3" "up s3 = up s1" "role (nodes s3 ''a'') = Leader" "nextIndex (nodes s3 ''a'') ''b'' = Some 3" "nodes s3 ''c'' = boot ''c''"
    "commitIndex (nodes s3 ''a'') = 2" "entries (nodes s3 ''a'') = log2 1 ''x''" "currentTerm (nodes s3 ''a'') = 1" "applyCh (nodes s3 ''a'')"
    "lastApplied (nodes s3 ''a'') = 0" "sm (nodes s3 ''a'') = New_jukebox" "sound (nodes s3 ''a'')"
    "entries (nodes s3 ''b'') = log2 1 ''x''" "sound (nodes s3 ''b'')" "commitIndex (nodes s3 ''b'') = 0" "lastApplied (nodes s3 ''b'') = 0"
    "sm (nodes s3 ''b'') = New_jukebox" "currentTerm (nodes s3 ''b'') = 1" "role (nodes s3 ''b'') = Follower"
    by (rule ship_run [OF a2(1), of "''a''" "''b''" "tl (log2 1 ''x'')"])
      (use a2 b1 s1(2,5) in \<open>auto simp: abc_def member_ok_def boot_fields lastIndex_def lastTerm_def\<close>)
  show thesis using s3(1) by (rule that) (use s3 s1(2) in \<open>simp add: song_state_def\<close>)
qed

lemma applied_then_new_leader:
  obtains s where "reachable reads DefaultOptions abc s" "\<And>p. up s p"
    "map sID (Queue (sm (nodes s ''a''))) = [''x'']" "log_ok (nodes s ''a'')" "termAt (nodes s ''a'') 2 = Some 1"
    "lastIndex (nodes s ''a'') = 2" "currentTerm (nodes s ''a'') \<le> 1"
    "role (nodes s ''b'') = Leader" "currentTerm (nodes s ''b'') = 2" "commitIndex (nodes s ''b'') = 0" "sm (nodes s ''b'') = New_jukebox"
    "nextIndex (nodes s ''b'') ''a'' = Some 3" "termAt (nodes s ''b'') 2 = Some 1" "peers (nodes s ''b'') = [''a'', ''c'']" "quorum (nodes s ''b'') = 2"
proof -
  obtain s3 where r3: "reachable reads DefaultOptions abc s3" and c3: "song_state s3" by (rule song_committed)
  have s3: "reachable reads DefaultOptions abc s3" "\<And>p. up s3 p" "nodes s3 ''c'' = boot ''c''"
    "commitIndex (nodes s3 ''a'') = 2" "entries (nodes s3 ''a'') = log2 1 ''x''" "currentTerm (nodes s3 ''a'') = 1" "applyCh (nodes s3 ''a'')"
    "lastApplied (nodes s3 ''a'') = 0" "sm (nodes s3 ''a'') = New_jukebox" "sound (nodes s3 ''a'')"
    "entries (nodes s3 ''b'') = log2 1 ''x''" "sound (nodes s3 ''b'')" "commitIndex (nodes s3 ''b'') = 0" "lastApplied (nodes s3 ''b'') = 0"
    "sm (nodes s3 ''b'') = New_jukebox" "currentTerm (nodes s3 ''b'') = 1" "role (nodes s3 ''b'') = Follower"
    using r3 c3 unfolding song_state_def by simp_all
  obtain a4 where a4: "reachable reads DefaultOptions abc (setNode s3 ''a'' a4)" "map sID (Queue (sm a4)) = [''x'']" "entries a4 = log2 1 ''x''"
      "currentTerm a4 = 1" "snapshotIndex a4 = 0"
    by (rule apply_run [OF s3(1), of "''a''" 1 "''x''"]) (use s3 in \<open>auto simp: abc_def\<close>)
  define s4 where "s4 = setNode s3 ''a'' a4"
  have s4: "nodes s4 ''a'' = a4" "nodes s4 ''b'' = nodes s3 ''b''" "nodes s4 ''c'' = boot ''c''" "\<And>p. up s4 p"
    using s3(2,3) by (simp_all add: s4_def)
  obtain s5 where s5: "(sys_step reads DefaultOptions abc)\<^sup>*\<^sup>* s4 s5" "up s5 = up s4" "crowned (nodes s3 ''b'') (nodes s5 ''b'')" "nodes s5 ''a'' = a4"
  proof (rule elect_run [OF a4(1) [folded s4_def], of "''b''" "''c''" "''a''"])
    fix s'
    assume h: "(sys_step reads DefaultOptions abc)\<^sup>*\<^sup>* s4 s'" "up s' = up s4" "crowned (nodes s4 ''b'') (nodes s' ''b'')"
      "\<And>q. q \<noteq> ''b'' \<Longrightarrow> q \<noteq> ''c'' \<Longrightarrow> nodes s' q = nodes s4 q"
    show thesis by (rule that [OF h(1,2)]) (use h(3,4) s4 in simp_all)
  qed (use s3 s4(4) in \<open>auto simp: abc_ok s4 boot_fields not_ahead_def lastIndex_def lastTerm_def sound_def room_small\<close>)
  have r5: "reachable reads DefaultOptions abc s5" using sys_steps_reachable [OF s5(1)] a4(1) by (simp add: s4_def)
  have mem: "member_ok abc p (nodes s5 p)" if "p \<in> set abc" for p using base_member [OF reachable_base [OF r5] that] .
  have b5: "entries (nodes s5 ''b'') = log2 1 ''x'' @ [\<lparr>Term = 2, Index = 3, Cmd = noopCommand\<rparr>]" "nextIndex (nodes s5 ''b'') ''a'' = Some 3"
      "role (nodes s5 ''b'') = Leader" "currentTerm (nodes s5 ''b'') = 2" "commitIndex (nodes s5 ''b'') = 0" "sm (nodes s5 ''b'') = New_jukebox"
      "snapshotIndex (nodes s5 ''b'') = 0"
    using s5(3) s3 mem [of "''b''"] by (simp_all add: crowned_def lastIndex_def abc_def fixed_def member_ok_def sound_def numeral_2_eq_2 numeral_3_eq_3)
  show ?thesis
  proof (rule that [OF r5])
    show "up s5 p" for p using s5(2) s4(4) by simp
    show "log_ok (nodes s5 ''a'')" using mem [of "''a''"] by (simp add: abc_def member_ok_def)
    show "peers (nodes s5 ''b'') = [''a'', ''c'']" "quorum (nodes s5 ''b'') = 2" using mem [of "''b''"] by (simp_all add: abc_def member_ok_def)
  qed (use a4 b5 s5(4) in \<open>simp_all add: termAt_def lastIndex_def\<close>)
qed

text \<open>
  C28: A linearizable read is not linearizable right after an election.  In a cluster of three
  there is an execution in which a song is committed and applied, a new leader is elected, and a
  read that starts after that at the new leader is confirmed by a majority, returns read index 0
  and is answered from the empty queue.
\<close>

theorem new_leader_reads_stale:
  "\<exists>s s' ae resp. reachable True DefaultOptions abc s \<and> map sID (Queue (sm (nodes s ''a''))) = [''x''] \<and>
     LinearizableRead (nodes s ''b'') = Inr (0, 2) \<and> confirmLeadership (nodes s ''b'') 2 = Some ([''a'', ''c''], 0) \<and>
     confirmLeadership_request (nodes s ''b'') 2 0 ''a'' = Some ae \<and>
     (sys_step True DefaultOptions abc)\<^sup>*\<^sup>* s s' \<and> ReadAER ''a'' ''b'' ae resp \<in> net s' \<and>
     confirmLeadership_reply (nodes s' ''b'') 2 resp = (nodes s' ''b'', True) \<and> confirmLeadership_result (nodes s' ''b'') [''a'', ''c''] 1 \<and>
     waitApplied (nodes s' ''b'') 0 PollTimer = PollDone None \<and> LinearizableRead_result 0 True None = Inr 0 \<and>
     Queue (sm (nodes s' ''b'')) = []"
proof -
  obtain s where s: "reachable True DefaultOptions abc s" "\<And>p. up s p"
    "map sID (Queue (sm (nodes s ''a''))) = [''x'']" "log_ok (nodes s ''a'')" "termAt (nodes s ''a'') 2 = Some 1"
    "lastIndex (nodes s ''a'') = 2" "currentTerm (nodes s ''a'') \<le> 1"
    "role (nodes s ''b'') = Leader" "currentTerm (nodes s ''b'') = 2" "commitIndex (nodes s ''b'') = 0" "sm (nodes s ''b'') = New_jukebox"
    "nextIndex (nodes s ''b'') ''a'' = Some 3" "termAt (nodes s ''b'') 2 = Some 1" "peers (nodes s ''b'') = [''a'', ''c'']" "quorum (nodes s ''b'') = 2"
    by (rule applied_then_new_leader [where reads = True]) metis
  define ae where "ae = \<lparr>aeTerm = 2, aeLeaderId = nid (nodes s ''b''), PrevLogIndex = 2, PrevLogTerm = 1, aeEntries = [], LeaderCommit = 0\<rparr>"
  have req: "confirmLeadership_request (nodes s ''b'') 2 0 ''a'' = Some ae"
    using s by (simp add: confirmLeadership_request_def mget_def ae_def)
  define s1 where "s1 = send s {ReadAE ''b'' ''a'' ae}"
  have st1: "sys_step True DefaultOptions abc s s1"
    unfolding s1_def using s req by (intro sys_step.read_send) (auto simp: abc_def)
  define resp where "resp = snd (AppendEntries env0 (nodes s ''a'') ae)"
  have "accepts (nodes s ''a'') ae" using s by (simp add: accepts_def ae_def)
  then have resp: "resp = \<lparr>aerTerm = 2, Success = True, ConflictIndex = 0, ConflictTerm = 0\<rparr>"
    using AppendEntries_accept [OF s(4) _ _ refl, of ae env0] by (simp add: resp_def req_ok_def ae_def two64_def)
  define s2 where "s2 = send (setNode s1 ''a'' (fst (AppendEntries env0 (nodes s ''a'') ae))) {ReadAER ''a'' ''b'' ae resp}"
  have st2: "sys_step True DefaultOptions abc s1 s2"
    unfolding s2_def using s(2) by (intro sys_step.read_deliver [where e = env0]) (auto simp: abc_def s1_def resp_def)
  have b: "nodes s2 ''b'' = nodes s ''b''" "ReadAER ''a'' ''b'' ae resp \<in> net s2" by (simp_all add: s2_def s1_def)
  have steps: "(sys_step True DefaultOptions abc)\<^sup>*\<^sup>* s s2" using st1 st2 by (meson converse_rtranclp_into_rtranclp r_into_rtranclp)
  show ?thesis
    using s req steps b(2)
    by (intro exI [of _ s] exI [of _ s2] exI [of _ ae] exI [of _ resp])
      (simp add: b(1) resp LinearizableRead_def confirmLeadership_def confirmLeadership_reply_def confirmLeadership_result_def
        waitApplied_def LinearizableRead_result_def New_jukebox_def zero_state_def)
qed

end
