(* ===== verification/LogSafety.thy ===== *)
theory LogSafety
  imports ClusterSim ReadAnomalies
begin

text \<open>
  Safety of the replicated log, over any execution of the cluster without linearizable reads:
  messages lost, duplicated, delayed and reordered, elections, snapshots, crashes and restarts.
  All of it follows from the simulation of theory \<open>ClusterSim\<close>.
\<close>

section \<open>Reading a server's log\<close>

lemma sim_entry:
  assumes "sim ids s a" "base_ok ids s" "p \<in> set ids"
  shows "lastIndex (nodes s p) = length (sLog a p)" "commitIndex (nodes s p) = sCommit a p" "commitIndex (nodes s p) \<le> lastIndex (nodes s p)"
    "snapshotIndex (nodes s p) < i \<Longrightarrow> i \<le> length (sLog a p) \<Longrightarrow> entryAt (nodes s p) i = Some (sLog a p ! (i - 1))"
    "agreed (majority ids) a (commitIndex (nodes s p)) (sLog a p) (currentTerm (nodes s p))"
proof -
  note n = simD(2) [OF assms(1,3)]
  note lok = base_log_ok [OF assms(2,3)]
  note v = node_simD(2) [OF n]
  show l: "lastIndex (nodes s p) = length (sLog a p)" using view_entries(3) [OF lok v] .
  show "commitIndex (nodes s p) = sCommit a p" using node_simD(3) [OF n] by simp
  show c: "agreed (majority ids) a (commitIndex (nodes s p)) (sLog a p) (currentTerm (nodes s p))"
    using node_agreed [OF simD(1) [OF assms(1)] n] by simp
  then show "commitIndex (nodes s p) \<le> lastIndex (nodes s p)" using l by (simp add: agreed_def)
  show "entryAt (nodes s p) i = Some (sLog a p ! (i - 1))" if "snapshotIndex (nodes s p) < i" "i \<le> length (sLog a p)"
    using entryAt_eq [OF lok, of i] view_entry [OF lok v that] that l by simp
qed

lemma take_nth: "take k X = take k Y \<Longrightarrow> i < k \<Longrightarrow> X ! i = Y ! i"
  by (metis nth_take)

section \<open>Log matching\<close>

text \<open>
  C4: Log matching.  When the logs of two servers have an entry of the same term at the same
  index, they agree on every entry up to it that both still hold.
\<close>

theorem log_matching:
  assumes "cluster_ok ids" "reachable False opts ids s" "p \<in> set ids" "q \<in> set ids"
    and "termAt (nodes s p) i = Some t" "termAt (nodes s q) i = Some t"
    and "j \<le> i" "snapshotIndex (nodes s p) < j" "snapshotIndex (nodes s q) < j"
  shows "\<exists>e. entryAt (nodes s p) j = Some e \<and> entryAt (nodes s q) j = Some e"
proof -
  obtain a where a: "sim ids s a" using reachable_sim assms(1,2) by blast
  note ok = reachable_base [OF assms(2)]
  have h: "has (sLog a r) i t" if "r \<in> set ids" "termAt (nodes s r) i = Some t" for r
    using view_termAt [OF base_log_ok [OF ok that(1)] node_simD(2) [OF simD(2) [OF a that(1)]]] that(2) assms(7,8) by (auto split: if_splits)
  have hp: "has (sLog a p) i t" and hq: "has (sLog a q) i t" using h assms(3-6) by auto
  note c = inv_coh(1) [OF simD(1) [OF a]]
  have "sLog a p ! (j - 1) = sLog a q ! (j - 1)"
    using take_nth [OF coh_agree(1) [OF c c hp hq order_refl], of "j - 1"] assms(7,8) by simp
  moreover have "j \<le> length (sLog a p)" "j \<le> length (sLog a q)" using hp hq assms(7) by (auto simp: has_def)
  ultimately show ?thesis using sim_entry(4) [OF a ok assms(3) assms(8)] sim_entry(4) [OF a ok assms(4) assms(9)] by simp
qed

section \<open>Committed entries\<close>

lemma later_agreed:
  assumes "cluster_ok ids" "reachable False opts ids s" "(sys_step False opts ids)\<^sup>*\<^sup>* s s'" "p \<in> set ids"
  obtains a b where "sim ids s a" "sim ids s' b" "base_ok ids s" "base_ok ids s'"
    "agreed (majority ids) b (commitIndex (nodes s p)) (sLog a p) (currentTerm (nodes s p))"
proof -
  obtain a where a: "sim ids s a" using reachable_sim assms(1,2) by blast
  obtain b where b: "sim ids s' b" "spec_le (majority ids) a b" using steps_sim [OF assms(3,2,1) a] .
  have ok: "base_ok ids s" "base_ok ids s'" using reachable_base sys_steps_reachable [OF assms(3,2)] assms(2) by blast+
  have "agreed (majority ids) b (commitIndex (nodes s p)) (sLog a p) (currentTerm (nodes s p))"
    using sim_entry(5) [OF a ok(1) assms(4)] b(2) by (simp add: spec_le_def)
  then show thesis using that a b ok by blast
qed

text \<open>
  C3: Leader completeness.  An entry that some server has committed is in the log of every
  leader, at any later moment, of a term that is not before that server's: at the same index, or
  behind the leader's snapshot.
\<close>

theorem leader_completeness:
  assumes "cluster_ok ids" "reachable False opts ids s" "(sys_step False opts ids)\<^sup>*\<^sup>* s s'" "p \<in> set ids" "q \<in> set ids"
    and "snapshotIndex (nodes s p) < i" "i \<le> commitIndex (nodes s p)"
    and "role (nodes s' q) = Leader" "currentTerm (nodes s p) \<le> currentTerm (nodes s' q)"
  shows "\<exists>e. entryAt (nodes s p) i = Some e \<and> i \<le> lastIndex (nodes s' q) \<and>
     (snapshotIndex (nodes s' q) < i \<longrightarrow> entryAt (nodes s' q) i = Some e)"
proof -
  obtain a b where a: "sim ids s a" and b: "sim ids s' b" and ok: "base_ok ids s" "base_ok ids s'"
    and ag: "agreed (majority ids) b (commitIndex (nodes s p)) (sLog a p) (currentTerm (nodes s p))"
    using later_agreed [OF assms(1-4)] .
  note l = leads_log [OF simD(1) [OF b] simD(2) [OF b assms(5)] assms(8)]
  have L: "sLead b (currentTerm (nodes s' q)) = sLog b q" "sLead b (currentTerm (nodes s' q)) \<noteq> []" using l by (simp_all add: leads_def)
  note in_lead = maj.agreed_in_lead [OF simD(1) [OF b] ag assms(9) L(2), unfolded L(1)]
  have "sLog a p ! (i - 1) = sLog b q ! (i - 1)" using take_nth [OF in_lead(1), of "i - 1"] assms(6,7) by simp
  moreover have "i \<le> length (sLog b q)" "i \<le> length (sLog a p)" using in_lead(2) ag assms(7) by (simp_all add: agreed_def)
  ultimately show ?thesis
    using sim_entry(4) [OF a ok(1) assms(4,6)] sim_entry(4) [OF b ok(2) assms(5), of i] sim_entry(1) [OF b ok(2) assms(5)] by simp
qed

text \<open>
  C2: State machine safety.  Two servers never commit different entries at the same index, at
  whatever moments of an execution; the commands they apply there are the same.
\<close>

theorem committed_entries_agree:
  assumes "cluster_ok ids" "reachable False opts ids s" "(sys_step False opts ids)\<^sup>*\<^sup>* s s'" "p \<in> set ids" "q \<in> set ids"
    and "snapshotIndex (nodes s p) < i" "i \<le> commitIndex (nodes s p)" "snapshotIndex (nodes s' q) < i" "i \<le> commitIndex (nodes s' q)"
  shows "\<exists>e. entryAt (nodes s p) i = Some e \<and> entryAt (nodes s' q) i = Some e"
proof -
  obtain a b where a: "sim ids s a" and b: "sim ids s' b" and ok: "base_ok ids s" "base_ok ids s'"
    and ag: "agreed (majority ids) b (commitIndex (nodes s p)) (sLog a p) (currentTerm (nodes s p))"
    using later_agreed [OF assms(1-4)] .
  note aq = sim_entry(5) [OF b ok(2) assms(5)]
  have "sLog a p ! (i - 1) = sLog b q ! (i - 1)"
    using take_nth [OF maj.agreed_agree [OF simD(1) [OF b] ag aq assms(7,9)], of "i - 1"] assms(6) by simp
  moreover have "i \<le> length (sLog b q)" "i \<le> length (sLog a p)" using aq ag assms(7,9) by (simp_all add: agreed_def)
  ultimately show ?thesis using sim_entry(4) [OF a ok(1) assms(4,6)] sim_entry(4) [OF b ok(2) assms(5,8)] by simp
qed

section \<open>Witnesses\<close>

lemma song_stateD:
  assumes "song_state s"
  shows "up s p" "role (nodes s ''a'') = Leader" "nextIndex (nodes s ''a'') ''b'' = Some 3" "commitIndex (nodes s ''a'') = 2"
    "entries (nodes s ''a'') = log2 1 ''x''" "currentTerm (nodes s ''a'') = 1" "sound (nodes s ''a'')" "entries (nodes s ''b'') = log2 1 ''x''"
    "sound (nodes s ''b'')" "commitIndex (nodes s ''b'') = 0" "currentTerm (nodes s ''b'') = 1" "role (nodes s ''b'') = Follower"
    "nodes s ''c'' = boot ''c''" "snapshotIndex (nodes s ''a'') = 0" "snapshotIndex (nodes s ''b'') = 0" "lastIndex (nodes s ''a'') = 2" "lastIndex (nodes s ''b'') = 2"
    "lastTerm (nodes s ''b'') = 1"
  using assms by (simp_all add: song_state_def sound_def lastIndex_def lastTerm_def)

theorem log_matching_witness:
  "\<exists>s. reachable False DefaultOptions abc s \<and> termAt (nodes s ''a'') 2 = Some 1 \<and> termAt (nodes s ''b'') 2 = Some 1 \<and>
     entryAt (nodes s ''a'') 1 = entryAt (nodes s ''b'') 1 \<and> entryAt (nodes s ''a'') 1 \<noteq> None"
proof -
  obtain s where s: "reachable False DefaultOptions abc s" "song_state s" by (rule song_committed)
  note f = song_stateD [OF s(2)]
  have t: "termAt (nodes s ''a'') 2 = Some 1" "termAt (nodes s ''b'') 2 = Some 1" using f by (simp_all add: termAt_def Let_def)
  have "\<exists>e. entryAt (nodes s ''a'') 1 = Some e \<and> entryAt (nodes s ''b'') 1 = Some e"
    using log_matching [OF abc_ok(1) s(1) _ _ t, of 1] f by (simp add: abc_def)
  then show ?thesis using s(1) t by auto
qed

text \<open>After the song is committed \<open>b\<close> is elected by \<open>c\<close>, or hears from \<open>a\<close> that it is committed.\<close>

lemma song_then_election:
  assumes "reachable reads DefaultOptions abc s" "song_state s"
  obtains s' where "(sys_step reads DefaultOptions abc)\<^sup>*\<^sup>* s s'" "crowned (nodes s ''b'') (nodes s' ''b'')"
proof (rule elect_run [OF assms(1), of "''b''" "''c''" "''a''"])
  fix s' assume "(sys_step reads DefaultOptions abc)\<^sup>*\<^sup>* s s'" "crowned (nodes s ''b'') (nodes s' ''b'')"
  then show thesis by (rule that)
qed (use song_stateD [OF assms(2)] in \<open>auto simp: abc_ok boot_fields not_ahead_def lastIndex_def lastTerm_def sound_def room_small\<close>)

lemma song_then_heartbeat:
  assumes "reachable reads DefaultOptions abc s" "song_state s"
  obtains s' where "(sys_step reads DefaultOptions abc)\<^sup>*\<^sup>* s s'" "commitIndex (nodes s' ''b'') = 2" "snapshotIndex (nodes s' ''b'') = 0"
    "entries (nodes s' ''b'') = log2 1 ''x''"
proof -
  note f = song_stateD [OF assms(2)]
  have mem: "member_ok abc p (nodes s p)" if "p \<in> set abc" for p using base_member [OF reachable_base [OF assms(1)] that] .
  have ids: "''a'' \<in> set abc" "''b'' \<in> set abc" by (simp_all add: abc_def)
  have lok: "log_ok (nodes s ''a'')" "log_ok (nodes s ''b'')" and pe: "''b'' \<in> set (peers (nodes s ''a''))"
    using mem [OF ids(1)] mem [OF ids(2)] by (auto simp: member_ok_def abc_def)
  define ae where "ae = \<lparr>aeTerm = 1, aeLeaderId = nid (nodes s ''a''), PrevLogIndex = 2, PrevLogTerm = 1, aeEntries = [], LeaderCommit = 2\<rparr>"
  have send: "sendAppendEntries (nodes s ''a'') ''b'' = SendEntries ae"
    using ship_request [OF f(2) lok f(14,15), of "''b''" "[]"] f by (simp add: ae_def)
  define s1 where "s1 = send s {AE ''a'' ''b'' ae}"
  have st1: "sys_step reads DefaultOptions abc s s1" unfolding s1_def using ids(1) f(1) pe send by (rule sys_step.send_entries)
  have rok: "req_ok ae" using sendAppendEntries_req_ok [OF lok(1) send] .
  obtain n' resp where n': "AppendEntries env0 (nodes s ''b'') ae = (n', resp)" "entries n' = entries (nodes s ''b'')" "sound n'" "commitIndex n' = min 2 (lastIndex n')"
    by (rule append_extends [OF lok(2) f(9) _ _ _ rok]) (use f in \<open>simp_all add: ae_def\<close>)
  define s2 where "s2 = send (setNode s1 ''b'' n') {AER ''b'' ''a'' ae resp}"
  have "sys_step reads DefaultOptions abc s1 s2"
    unfolding s2_def using ids(2) f(1) n'(1) by (intro sys_step.deliver_ae [where e = env0]) (auto simp: s1_def)
  then have "(sys_step reads DefaultOptions abc)\<^sup>*\<^sup>* s s2" using st1 by (meson converse_rtranclp_into_rtranclp r_into_rtranclp)
  moreover have "lastIndex n' = 2" using n'(2) f(8) by (simp add: lastIndex_def)
  ultimately show thesis using that [of s2] n' f(8) by (simp add: s2_def sound_def)
qed

theorem leader_completeness_witness:
  "\<exists>s s'. reachable False DefaultOptions abc s \<and> (sys_step False DefaultOptions abc)\<^sup>*\<^sup>* s s' \<and> commitIndex (nodes s ''a'') = 2 \<and>
     currentTerm (nodes s ''a'') = 1 \<and> role (nodes s' ''b'') = Leader \<and> currentTerm (nodes s' ''b'') = 2 \<and>
     entryAt (nodes s' ''b'') 2 = entryAt (nodes s ''a'') 2 \<and> entryAt (nodes s ''a'') 2 \<noteq> None"
proof -
  obtain s where s: "reachable False DefaultOptions abc s" "song_state s" by (rule song_committed)
  note f = song_stateD [OF s(2)]
  obtain s' where s': "(sys_step False DefaultOptions abc)\<^sup>*\<^sup>* s s'" "crowned (nodes s ''b'') (nodes s' ''b'')" using song_then_election [OF s] .
  have b: "role (nodes s' ''b'') = Leader" "currentTerm (nodes s' ''b'') = 2" "snapshotIndex (nodes s' ''b'') = 0"
    using s'(2) f by (simp_all add: crowned_def)
  have "\<exists>e. entryAt (nodes s ''a'') 2 = Some e \<and> 2 \<le> lastIndex (nodes s' ''b'') \<and> (snapshotIndex (nodes s' ''b'') < 2 \<longrightarrow> entryAt (nodes s' ''b'') 2 = Some e)"
    by (rule leader_completeness [OF abc_ok(1) s(1) s'(1)]) (use f b in \<open>simp_all add: abc_def\<close>)
  then have "entryAt (nodes s' ''b'') 2 = entryAt (nodes s ''a'') 2" "entryAt (nodes s ''a'') 2 \<noteq> None" using b(3) by auto
  then show ?thesis using s(1) s'(1) f(4,6) b(1,2) by blast
qed

theorem committed_entries_agree_witness:
  "\<exists>s s' e. reachable False DefaultOptions abc s \<and> (sys_step False DefaultOptions abc)\<^sup>*\<^sup>* s s' \<and> commitIndex (nodes s ''a'') = 2 \<and>
     commitIndex (nodes s' ''b'') = 2 \<and> entryAt (nodes s ''a'') 2 = Some e \<and> entryAt (nodes s' ''b'') 2 = Some e"
proof -
  obtain s where s: "reachable False DefaultOptions abc s" "song_state s" by (rule song_committed)
  note f = song_stateD [OF s(2)]
  obtain s' where s': "(sys_step False DefaultOptions abc)\<^sup>*\<^sup>* s s'" "commitIndex (nodes s' ''b'') = 2" "snapshotIndex (nodes s' ''b'') = 0"
    using song_then_heartbeat [OF s] by blast
  have "\<exists>e. entryAt (nodes s ''a'') 2 = Some e \<and> entryAt (nodes s' ''b'') 2 = Some e"
    by (rule committed_entries_agree [OF abc_ok(1) s(1) s'(1)]) (use f s' in \<open>simp_all add: abc_def\<close>)
  then show ?thesis using s(1) s'(1,2) f(4) by blast
qed

end
