(* ===== verification/Progress.thy ===== *)
theory Progress
  imports Runs
begin

text \<open>
  When elections make progress.  In a cluster of three, a server whose log is not behind that of
  a second one, and whose term is at most one behind, can always be elected by it: the timeout,
  the pre-vote and the vote are a run of the cluster.  When its term is further behind and its
  log is ahead there is a standstill although a majority is up and connected: the second server
  rejects the old term of its pre-vote, a rejected pre-vote does not raise the term
  (\<open>gatherVotes\<close> in \<open>src/internal/raft/election.go\<close>), and the first server rejects the second one's
  log.
\<close>

section \<open>The configuration of a server\<close>

lemma node_steps_cfg: "node_step\<^sup>*\<^sup>* n n' \<Longrightarrow> member_ok ids p n \<Longrightarrow> cfg n' = cfg n"
proof (induction rule: rtranclp_induct)
  case (step m n')
  have "log_ok m" using member_ok_steps [OF step(1,4)] by (simp add: member_ok_def)
  then show ?case using node_step_fixed [OF step(2)] step(3,4) by (simp add: fixed_def)
qed simp

lemma startNode_cfg: "startNode opts ids e p d = Some n \<Longrightarrow> cfg n = withDefaults (nodeConfig opts ids p)"
proof -
  assume "startNode opts ids e p d = Some n"
  then obtain n0 where n0: "New (nodeConfig opts ids p) d New_jukebox = Inr n0" "n = Start e n0" by (rule startNode_New)
  then show ?thesis using New_fixed(6) [OF n0(1)] fixed_Start [of n0 e] by (simp add: nodeConfig_def fixed_def)
qed

lemma reachable_cfg:
  assumes "reachable reads opts ids s" "p \<in> set ids"
  shows "cfg (nodes s p) = withDefaults (nodeConfig opts ids p)"
  using assms
proof (induction rule: reachable.induct)
  case (init s)
  then show ?case using startNode_cfg by (auto simp: initial_def)
next
  case (step s s')
  note b = reachable_base [OF step(1)]
  from step(2) b show ?case
  proof (cases rule: sys_step_node)
    case (2 q n')
    then show ?thesis using step(3,4) node_steps_cfg [OF 2(3) base_member [OF b 2(1)]] by auto
  next
    case (3 q n' e)
    then show ?thesis using step(3,4) startNode_cfg [OF 3(3)] by auto
  qed (use step in simp)
qed

definition timers_ok :: "Options \<Rightarrow> bool" where
  "timers_ok opts \<longleftrightarrow> 0 < oElectionTimeoutMin opts \<and> oElectionTimeoutMin opts \<le> oElectionTimeoutMax opts"

lemma nodeConfig_enabled [simp]: "preVoteEnabled (withDefaults (nodeConfig opts ids p))"
  by (simp add: preVoteEnabled_def withDefaults_def nodeConfig_def Let_def)

lemma nodeConfig_timers: "timers_ok opts \<Longrightarrow> timer_ok (withDefaults (nodeConfig opts ids p))"
  by (simp add: timer_ok_def withDefaults_def nodeConfig_def Let_def timers_ok_def)

section \<open>An election goes through\<close>

lemma not_ahead_cong:
  assumes "entries n' = entries n"
  shows "not_ahead v n' = not_ahead v n"
  using assms by (simp add: not_ahead_def lastIndex_def lastTerm_def)

text \<open>
  C23: In a cluster of three, from every reachable state in which two servers are up, the first is
  not the leader, the second's log is not ahead of the first's and the second's term is at most one
  above the first's, the cluster has a run after which the first is leader, in one of the next two
  terms, with its own log and one new entry.  (The timeouts are configured sensibly and terms and
  indices are below the end of their range.)
\<close>

theorem election_progress:
  assumes reach: "reachable reads opts ids s" and ids: "set ids = {p, v, w}" "distinct ids" "length ids = 3"
    and up: "up s p" "up s v" and opts: "timers_ok opts"
    and p: "role (nodes s p) \<noteq> Leader" "lastIndex (nodes s p) + 2 < two64" "currentTerm (nodes s p) + 2 < two64"
    and v: "not_ahead (nodes s v) (nodes s p)" "currentTerm (nodes s v) \<le> currentTerm (nodes s p) + 1"
  shows "\<exists>s' t. (sys_step reads opts ids)\<^sup>*\<^sup>* s s' \<and> up s' = up s \<and> role (nodes s' p) = Leader \<and> currentTerm (nodes s' p) = t \<and>
    (t = currentTerm (nodes s p) + 1 \<or> t = currentTerm (nodes s p) + 2) \<and>
    entries (nodes s' p) = entries (nodes s p) @ [\<lparr>Term = t, Index = lastIndex (nodes s p) + 1, Cmd = noopCommand\<rparr>]"
proof -
  have mem: "p \<in> set ids" "v \<in> set ids" using ids(1) by auto
  have c: "preVoteEnabled (cfg (nodes u p))" "timer_ok (cfg (nodes u p))" "timer_ok (cfg (nodes u v))" if "reachable reads opts ids u" for u
    using reachable_cfg [OF that mem(1)] reachable_cfg [OF that mem(2)] nodeConfig_timers [OF opts] by simp_all
  have room: "room (nodes s p)" "term_room (nodes s p)" using p(2,3) by (simp_all add: room_def term_room_def)
  show ?thesis
  proof (cases "currentTerm (nodes s v) \<le> currentTerm (nodes s p)")
    case True
    obtain s' where "(sys_step reads opts ids)\<^sup>*\<^sup>* s s'" "up s' = up s" "crowned (nodes s p) (nodes s' p)"
      using elect_run [OF reach ids up c [OF reach] p(1) room v(1) True] by metis
    then show ?thesis by (intro exI [of _ s'] exI [of _ "currentTerm (nodes s p) + 1"]) (simp add: crowned_def)
  next
    case False
    have ne: "v \<noteq> p" using ids distinct_card [OF ids(2)] by (auto simp: card_insert_if split: if_splits)
    obtain u where u: "(sys_step reads opts ids)\<^sup>*\<^sup>* s u" "up u = up s" "candidate_of (nodes s p) (nodes u p)"
      "\<And>q. q \<noteq> p \<Longrightarrow> nodes u q = nodes s q"
      using prevote_run [OF reach ids up c(1,2) [OF reach] p(1) room v(1)] v(2) by (metis Suc_eq_plus1)
    have ru: "reachable reads opts ids u" using sys_steps_reachable [OF u(1) reach] by blast
    have nu: "role (nodes u p) \<noteq> Leader" "room (nodes u p)" "term_room (nodes u p)" "not_ahead (nodes u v) (nodes u p)"
      "currentTerm (nodes u v) \<le> currentTerm (nodes u p)" "lastIndex (nodes u p) = lastIndex (nodes s p)"
      using u(3) u(4) [OF ne] p(2,3) v False not_ahead_cong [of "nodes u p" "nodes s p" "nodes s v"]
      by (auto simp: candidate_of_def room_def term_room_def lastIndex_def)
    obtain s' where "(sys_step reads opts ids)\<^sup>*\<^sup>* u s'" "up s' = up u" "crowned (nodes u p) (nodes s' p)"
      using elect_run [OF ru ids up [folded u(2)] c [OF ru] nu(1-5)] by metis
    then show ?thesis using u nu(6) rtranclp_trans [OF u(1)]
      by (intro exI [of _ s'] exI [of _ "currentTerm (nodes s p) + 2"]) (simp add: crowned_def candidate_of_def)
  qed
qed

section \<open>The standstill\<close>

text \<open>A server at a fixed term with a fixed last entry that only tries pre-votes.\<close>

definition waits :: "uint64 \<Rightarrow> uint64 \<Rightarrow> uint64 \<Rightarrow> (MemStore, State) Node \<Rightarrow> bool" where
  "waits t li lt n \<longleftrightarrow> currentTerm n = t \<and> lastIndex n = li \<and> lastTerm n = lt \<and> role n \<noteq> Leader \<and> preVoteEnabled (cfg n) \<and>
     (\<forall>tk\<in>set (goroutines n). tk = Campaign t li lt \<or> tk = ElectionLoop \<or> tk = ApplyLoop)"

definition asks :: "uint64 \<Rightarrow> uint64 \<Rightarrow> uint64 \<Rightarrow> RequestVoteRequest \<Rightarrow> bool" where
  "asks t li lt rv \<longleftrightarrow> PreVote rv \<and> rvTerm rv = add64 t 1 \<and> LastLogIndex rv = li \<and> LastLogTerm rv = lt"

record quiet_pair =
  ahead :: nodeid
  behind :: nodeid
  third :: nodeid
  aTerm :: uint64
  aIndex :: uint64
  aLast :: uint64
  bTerm :: uint64
  bIndex :: uint64
  bLast :: uint64

definition stall_ok :: "nodeid list \<Rightarrow> quiet_pair \<Rightarrow> bool" where
  "stall_ok ids x \<longleftrightarrow> set ids = {ahead x, behind x, third x} \<and> distinct ids \<and> length ids = 3 \<and>
     aTerm x + 1 < bTerm x \<and> bTerm x < two64 \<and> (bLast x < aLast x \<or> bLast x = aLast x \<and> bIndex x < aIndex x)"

definition pair_asks :: "quiet_pair \<Rightarrow> nodeid \<Rightarrow> RequestVoteRequest \<Rightarrow> bool" where
  "pair_asks x c rv \<longleftrightarrow> c = ahead x \<and> asks (aTerm x) (aIndex x) (aLast x) rv \<or> c = behind x \<and> asks (bTerm x) (bIndex x) (bLast x) rv"

fun stall_msg :: "quiet_pair \<Rightarrow> msg \<Rightarrow> bool" where
  "stall_msg x (RV c q rv) \<longleftrightarrow> c \<noteq> q \<and> pair_asks x c rv"
| "stall_msg x (RVR q c rv resp) \<longleftrightarrow> PreVote rv \<and> \<not> VoteGranted resp"
| "stall_msg x _ \<longleftrightarrow> False"

definition stalled :: "quiet_pair \<Rightarrow> sys \<Rightarrow> bool" where
  "stalled x s \<longleftrightarrow> \<not> up s (third x) \<and> waits (aTerm x) (aIndex x) (aLast x) (nodes s (ahead x)) \<and>
     waits (bTerm x) (bIndex x) (bLast x) (nodes s (behind x)) \<and> (\<forall>m\<in>net s. stall_msg x m) \<and>
     (\<forall>c\<in>{ahead x, behind x}. \<forall>r\<in>set (rounds s c). pair_asks x c (rReq r) \<and> granted (rCount r) = 1)"

lemma stalledD:
  assumes "stalled x s"
  shows "\<not> up s (third x)" "waits (aTerm x) (aIndex x) (aLast x) (nodes s (ahead x))" "waits (bTerm x) (bIndex x) (bLast x) (nodes s (behind x))"
    "m \<in> net s \<Longrightarrow> stall_msg x m" "c = ahead x \<or> c = behind x \<Longrightarrow> r \<in> set (rounds s c) \<Longrightarrow> pair_asks x c (rReq r)"
    "c = ahead x \<or> c = behind x \<Longrightarrow> r \<in> set (rounds s c) \<Longrightarrow> granted (rCount r) = 1"
  using assms unfolding stalled_def by blast+

text \<open>One server takes a step after which it still waits.\<close>

lemma stalled_node:
  assumes st: "stalled x s" and ok: "stall_ok ids x" and p: "p \<in> set ids"
    and s': "nodes s' = (nodes s)(p := n')" "\<And>q. q \<noteq> p \<Longrightarrow> rounds s' q = rounds s q" "\<not> up s' (third x)"
    and n': "\<And>t li lt. waits t li lt (nodes s p) \<Longrightarrow> waits t li lt n'"
    and msgs: "\<And>m. m \<in> net s' \<Longrightarrow> m \<notin> net s \<Longrightarrow> stall_msg x m"
    and rs: "\<And>r. p = ahead x \<or> p = behind x \<Longrightarrow> r \<in> set (rounds s' p) \<Longrightarrow> pair_asks x p (rReq r) \<and> granted (rCount r) = 1"
  shows "stalled x s'"
proof -
  note D = stalledD [OF st]
  have w: "waits (aTerm x) (aIndex x) (aLast x) (nodes s' (ahead x))" "waits (bTerm x) (bIndex x) (bLast x) (nodes s' (behind x))"
    using D(2,3) n' s'(1) by auto
  have m: "\<forall>m\<in>net s'. stall_msg x m" using D(4) msgs by blast
  have r: "pair_asks x c (rReq r) \<and> granted (rCount r) = 1" if "c = ahead x \<or> c = behind x" "r \<in> set (rounds s' c)" for c r
    using that rs D(5,6) s'(2) by (cases "c = p") auto
  show ?thesis unfolding stalled_def using s'(3) w m r by blast
qed

section \<open>Nothing ends it\<close>

lemma waits_tick: "waits t li lt n \<Longrightarrow> waits t li lt (electionTick e n)"
  by (auto simp: waits_def electionTick_def beginCampaign_conv lastIndex_def lastTerm_def)

lemma waits_cong:
  assumes "waits t li lt n" "entries n' = entries n" "snapshotIndex n' = snapshotIndex n" "currentTerm n' = currentTerm n" "role n' \<noteq> Leader"
    "preVoteEnabled (cfg n')" "set (goroutines n') \<subseteq> set (goroutines n) \<union> {ElectionLoop, ApplyLoop}"
  shows "waits t li lt n'"
  using assms by (auto simp: waits_def lastIndex_def lastTerm_def)

lemma waits_wake: "Submit_wake n i ch wk = Some (n', res) \<Longrightarrow> waits t li lt n \<Longrightarrow> waits t li lt n'"
  by (auto simp: Submit_wake_def waits_def lastIndex_def lastTerm_def split: submitWake.splits option.splits if_splits)

lemma compacted_last:
  assumes "log_ok n" "snapshotIndex n < lastApplied n" "lastApplied n \<le> lastIndex n"
  shows "lastIndex (compacted n) = lastIndex n" "lastTerm (compacted n) = lastTerm n"
proof -
  let ?i = "lastApplied n"
  have len: "Suc (lastIndex n) = snapshotIndex n + length (entries n)" using lastIndex_Suc [OF assms(1)] .
  have "Suc (lastIndex (compacted n)) = ?i + length (entries (compacted n))"
    using lastIndex_Suc [OF log_ok_compacted [OF assms]] by (simp add: compacted_def Let_def rebase_def)
  then show "lastIndex (compacted n) = lastIndex n"
    using len assms(2,3) by (simp add: compacted_def Let_def rebase_def)
  have t: "termAt n ?i = Some (Term (entries n ! (?i - snapshotIndex n)))" using termAt_eq [OF assms(1), of ?i] assms(2,3) by simp
  show "lastTerm (compacted n) = lastTerm n"
  proof (cases "?i = lastIndex n")
    case True
    have "entries n \<noteq> []" using assms(1) by (simp add: log_ok_def)
    moreover have "?i - snapshotIndex n = length (entries n) - 1" using True len assms(2) by simp
    ultimately have "entries n ! (?i - snapshotIndex n) = last (entries n)" by (simp add: last_conv_nth)
    moreover have "drop (Suc ?i - snapshotIndex n) (entries n) = []" using True len assms(2) by simp
    ultimately show ?thesis using t by (simp add: lastTerm_def compacted_def Let_def rebase_def)
  next
    case False
    then have "Suc ?i - snapshotIndex n < length (entries n)" using len assms(2,3) by simp
    then show ?thesis by (simp add: lastTerm_def compacted_def Let_def rebase_def last_drop)
  qed
qed

lemma waits_apply:
  assumes "waits t li lt n" "log_ok n"
  shows "waits t li lt (applyReady n)"
proof -
  let ?n = "applyAll n"
  have ok: "log_ok ?n" using assms(2) log_ok_cong [of ?n n] by simp
  have w: "waits t li lt ?n"
    using calm_applyAll [of n] assms(1) by (intro waits_cong [OF assms(1)]) (auto simp: calm_def waits_def)
  have "waits t li lt (maybeSnapshotLocked ?n)"
  proof (rule maybeSnapshot_cases [OF ok])
    fix d assume "maybeSnapshotLocked ?n = ?n\<lparr>disk := d\<rparr>"
    then show ?thesis using w by (simp add: waits_def lastIndex_def lastTerm_def)
  next
    assume c: "maybeSnapshotLocked ?n = compacted ?n" "snapshotIndex ?n < lastApplied ?n" "lastApplied ?n \<le> lastIndex ?n"
    have "currentTerm (compacted ?n) = currentTerm ?n" "role (compacted ?n) = role ?n" "cfg (compacted ?n) = cfg ?n"
      "goroutines (compacted ?n) = goroutines ?n" by (simp_all add: compacted_def Let_def rebase_def)
    then show ?thesis using w compacted_last [OF ok c(2,3)] unfolding c(1) waits_def by simp
  qed (use w in simp)
  then show ?thesis using w by (simp add: applyReady_def Let_def)
qed

lemma waits_restart:
  assumes "startNode opts ids e p (disk n) = Some n'" "persisted n" "waits t li lt n"
  shows "waits t li lt n'"
proof -
  have "preVoteEnabled (cfg n')" using startNode_cfg [OF assms(1)] by simp
  then show ?thesis using startNode_votes [OF assms(1,2)] by (intro waits_cong [OF assms(3)]) auto
qed

text \<open>Neither of the two grants the other's pre-vote.\<close>

lemma stall_no_grant:
  assumes st: "stalled x s" and ok: "stall_ok ids x" and q: "q = ahead x \<or> q = behind x" and rv: "RV c q rv \<in> net s"
    and step: "RequestVote e (nodes s q) rv = (n', resp)"
  shows "n' = nodes s q" "PreVote rv" "\<not> VoteGranted resp"
proof -
  note D = stalledD [OF st]
  have m: "c \<noteq> q" "pair_asks x c rv" using D(4) [OF rv] by simp_all
  show pv: "PreVote rv" using m(2) by (auto simp: pair_asks_def asks_def)
  then show "n' = nodes s q" using step by (auto simp: RequestVote_def Let_def split: if_splits)
  have ne: "ahead x \<noteq> behind x" using ok by (auto simp: stall_ok_def card_insert_if dest: distinct_card split: if_splits)
  show "\<not> VoteGranted resp"
  proof (cases "q = ahead x")
    case True
    then have "asks (bTerm x) (bIndex x) (bLast x) rv" using m by (auto simp: pair_asks_def)
    then show ?thesis using step D(2) ok True pv
      by (auto simp: RequestVote_def Let_def asks_def waits_def stall_ok_def candidateUpToDate_def split: if_splits)
  next
    case False
    then have "asks (aTerm x) (aIndex x) (aLast x) rv" "q = behind x" using m q by (auto simp: pair_asks_def)
    then show ?thesis using step D(3) ok pv
      by (auto simp: RequestVote_def Let_def asks_def waits_def stall_ok_def split: if_splits)
  qed
qed

lemma waits_round:
  assumes "waits t li lt n" "tk \<in> set (goroutines n)" "taskRound n tk = Some r"
  shows "asks t li lt (rReq r)" "granted (rCount r) = 1"
proof -
  have "tk = Campaign t li lt" using assms by (auto simp: waits_def taskRound_def)
  then show "asks t li lt (rReq r)" "granted (rCount r) = 1"
    using assms(3) by (auto simp: taskRound_def gatherVotes_request_def asks_def newRound_def)
qed

lemma stall_spawn:
  assumes st: "stalled x s" and p: "p = ahead x \<or> p = behind x" and tk: "tk \<in> set (goroutines (nodes s p))" "taskRound (nodes s p) tk = Some r"
  shows "pair_asks x p (rReq r)" "granted (rCount r) = 1"
  using p stalledD(2,3) [OF st] waits_round [OF _ tk] by (auto simp: pair_asks_def)

lemma stalled_step:
  assumes step: "sys_step reads opts ids s s'" "\<not> up s' (third x)" and st: "stalled x s" and ok: "stall_ok ids x" "base_ok ids s"
  shows "stalled x s'"
proof -
  note D = stalledD [OF st]
  have pair: "p = ahead x \<or> p = behind x" if "p \<in> set ids" "up s p" for p using that D(1) ok(1) by (auto simp: stall_ok_def)
  have nl: "role (nodes s p) \<noteq> Leader" if "p \<in> set ids" "up s p" for p using pair [OF that] D(2,3) by (auto simp: waits_def)
  have rp: "pair_asks x p (rReq r)" "granted (rCount r) = 1" if "p = ahead x \<or> p = behind x" "r \<in> set (rounds s p)" for p r
    using D(5,6) [OF that] .
  note node = stalled_node [OF st ok(1)]
  show ?thesis using step(1)
  proof (cases rule: sys_step.cases)
    case (tick p e)
    then show ?thesis using step(2) rp [of p] by (intro node [where n' = "electionTick e (nodes s p)", OF tick(2)]) (auto intro: waits_tick)
  next
    case (spawn p g1 tk g2 r)
    note new = stall_spawn [OF st pair [OF spawn(2,3)] _ spawn(5)]
    have pe: "p \<notin> set (peers (nodes s p))" using base_member [OF ok(2) spawn(2)] by (simp add: member_ok_def)
    have w: "waits t li lt (nodes s p) \<Longrightarrow> waits t li lt ((nodes s p)\<lparr>goroutines := g1 @ g2\<rparr>)" for t li lt
      using spawn(4) by (auto simp: waits_def lastIndex_def lastTerm_def)
    show ?thesis using spawn new pe w step(2) rp [of p] by (intro node [where n' = "(nodes s p)\<lparr>goroutines := g1 @ g2\<rparr>", OF spawn(2)]) auto
  next
    case (deliver_rv p c rv e n' resp)
    note g = stall_no_grant [OF st ok(1) pair [OF deliver_rv(2,3)] deliver_rv(4,5)]
    show ?thesis using deliver_rv g step(2) rp [of p] by (intro node [where n' = "n'", OF deliver_rv(2)]) auto
  next
    case (deliver_rvr c p rv resp r1 r r2 n' cnt)
    have "PreVote rv" "\<not> VoteGranted resp" using D(4) [OF deliver_rvr(5)] by simp_all
    then have "n' = nodes s c" "cnt = rCount r" using deliver_rvr(9) by (auto simp: gatherVotes_reply_def)
    then show ?thesis using deliver_rvr step(2) rp [of c] by (intro node [where n' = "n'", OF deliver_rvr(2)]) auto
  next
    case (rv_failed c r1 r r2 p)
    have "pair_asks x q (rReq y) \<and> granted (rCount y) = 1" if "q = ahead x \<or> q = behind x" "y \<in> set (rounds s' q)" for q y
      using that D(5,6) [OF that(1)] rv_failed by (auto split: if_splits)
    then show ?thesis using st step(2) rv_failed(1) unfolding stalled_def by simp
  next
    case (campaign_done p r1 r r2 b e)
    have "granted (rCount r) = 1" "quorum (nodes s p) = 2"
      using D(6) [OF pair [OF campaign_done(2,3)]] campaign_done(6) base_member [OF ok(2) campaign_done(2)] ok(1) by (auto simp: member_ok_def stall_ok_def)
    then have "campaign_finish e (nodes s p) b (LastLogIndex (rReq r)) (LastLogTerm (rReq r)) (gatherVotes_result (nodes s p) (rCount r)) = nodes s p"
      by (simp add: campaign_finish_def gatherVotes_result_def)
    then show ?thesis using campaign_done step(2) rp [of p] by (intro node [where n' = "nodes s p", OF campaign_done(2)]) auto
  next
    case (send_entries p q ae)
    then show ?thesis using nl by (auto simp: sendAppendEntries_def)
  next
    case (deliver_ae q p ae e n' resp)
    then show ?thesis using D(4) [OF deliver_ae(4)] by simp
  next
    case (deliver_aer p q ae resp)
    then show ?thesis using D(4) [OF deliver_aer(4)] by simp
  next
    case (send_snapshot p q t "is")
    then show ?thesis using nl by (auto simp: sendSnapshot_def)
  next
    case (deliver_is q p "is" e n' resp)
    then show ?thesis using D(4) [OF deliver_is(4)] by simp
  next
    case (deliver_isr p q "is" resp)
    then show ?thesis using D(4) [OF deliver_isr(4)] by simp
  next
    case (propose p c)
    then have "fst (Propose (nodes s p) c) = nodes s p" using nl by (simp add: Propose_def)
    then show ?thesis using propose step(2) rp [of p] by (intro node [where n' = "nodes s p", OF propose(2)]) auto
  next
    case (submit p c)
    then have "fst (Submit (nodes s p) c) = nodes s p" using nl by (simp add: Submit_def)
    then show ?thesis using submit step(2) rp [of p] by (intro node [where n' = "nodes s p", OF submit(2)]) auto
  next
    case (wake p i ch wk n' res)
    then show ?thesis using waits_wake [OF wake(4)] step(2) rp [of p] by (intro node [where n' = "n'", OF wake(2)]) auto
  next
    case (apply_ready p)
    have "waits t li lt (applyReady ((nodes s p)\<lparr>applyCh := False\<rparr>))" if "waits t li lt (nodes s p)" for t li lt
      using that base_log_ok [OF ok(2) apply_ready(2)] log_ok_cong [of "(nodes s p)\<lparr>applyCh := False\<rparr>" "nodes s p"]
      by (intro waits_apply) (auto simp: waits_def lastIndex_def lastTerm_def)
    then show ?thesis using apply_ready step(2) rp [of p] by (intro node [where n' = "applyReady ((nodes s p)\<lparr>applyCh := False\<rparr>)", OF apply_ready(2)]) auto
  next
    case (crash p)
    then show ?thesis using step(2) rp [of p] by (intro node [where n' = "nodes s p", OF crash(2)]) auto
  next
    case (restart p e n')
    have "persisted (nodes s p)" using base_member [OF ok(2) restart(2)] by (simp add: member_ok_def)
    then show ?thesis using restart waits_restart [OF restart(4)] step(2) rp [of p] by (intro node [where n' = "n'", OF restart(2)]) auto
  next
    case (read_send p q c t ae)
    then show ?thesis using nl by (auto simp: confirmLeadership_request_def)
  next
    case (read_deliver q p ae e n' resp)
    then show ?thesis using D(4) [OF read_deliver(4)] by simp
  next
    case (read_reply p q ae resp)
    then show ?thesis using D(4) [OF read_reply(4)] by simp
  qed
qed

lemma stalled_run:
  assumes "(\<lambda>t t'. sys_step reads opts ids t t' \<and> \<not> up t' (third x))\<^sup>*\<^sup>* s s'" "stalled x s" "stall_ok ids x" "base_ok ids s"
  shows "stalled x s' \<and> base_ok ids s'"
  using assms by (induction rule: rtranclp_induct) (auto intro: stalled_step base_ok_step)

text \<open>
  C24: In a cluster of three take any reachable state in which one server is down, the other two run
  only their election and apply loops, neither is leader, one has the shorter log and a term at
  least two above the other's, and let every message in flight be lost.  As long as the third
  server stays down no run of the cluster elects a leader, however messages, timeouts, crashes and
  restarts are ordered, although a majority is up and connected.
\<close>

theorem prevote_standstill:
  assumes reach: "reachable reads opts ids s0" and ids: "set ids = {p, v, w}" "distinct ids" "length ids = 3"
    and s: "s = s0\<lparr>net := {}, rounds := (\<lambda>_. [])\<rparr>" "\<not> up s w"
    and quiet: "\<And>q. q \<in> {p, v} \<Longrightarrow> role (nodes s q) \<noteq> Leader \<and> goroutines (nodes s q) = [ElectionLoop, ApplyLoop]"
    and terms: "currentTerm (nodes s p) + 1 < currentTerm (nodes s v)" "currentTerm (nodes s v) < two64"
    and logs: "\<not> not_ahead (nodes s p) (nodes s v)"
    and run: "(\<lambda>t t'. sys_step reads opts ids t t' \<and> \<not> up t' w)\<^sup>*\<^sup>* s s'"
  shows "\<forall>q\<in>{p, v}. role (nodes s' q) \<noteq> Leader \<and> currentTerm (nodes s' q) = currentTerm (nodes s q)"
proof -
  have mem: "p \<in> set ids" "v \<in> set ids" using ids(1) by auto
  define x where "x = \<lparr>ahead = p, behind = v, third = w, aTerm = currentTerm (nodes s p), aIndex = lastIndex (nodes s p),
    aLast = lastTerm (nodes s p), bTerm = currentTerm (nodes s v), bIndex = lastIndex (nodes s v), bLast = lastTerm (nodes s v)\<rparr>"
  have ok: "stall_ok ids x" using ids terms logs by (auto simp: stall_ok_def x_def not_ahead_def)
  have "base_ok ids s" using reachable_base [OF reach] s(1) by (simp add: base_ok_def)
  moreover have "preVoteEnabled (cfg (nodes s p))" "preVoteEnabled (cfg (nodes s v))"
    using reachable_cfg [OF reach mem(1)] reachable_cfg [OF reach mem(2)] s(1) by simp_all
  then have "stalled x s" using quiet s by (auto simp: stalled_def x_def waits_def)
  ultimately have "stalled x s'" using stalled_run [of reads opts ids x s s'] run ok by (simp add: x_def)
  then show ?thesis using stalledD(2,3) [of x s'] by (simp add: waits_def x_def)
qed

section \<open>A run into the standstill\<close>

lemma three_ups:
  assumes "reachable reads opts ids s" "\<And>q. up s q" "set ids = {p, v, w}" "distinct ids" "length ids = 3" "timers_ok opts"
    and "role (nodes s p) \<noteq> Leader" "room (nodes s p)" "currentTerm (nodes s p) + 3 < two64"
    and "not_ahead (nodes s v) (nodes s p)" "currentTerm (nodes s v) \<le> Suc (currentTerm (nodes s p))" "k \<le> 3"
  shows "\<exists>s'. reachable reads opts ids s' \<and> (\<forall>q. up s' q) \<and> (\<forall>q. q \<noteq> p \<longrightarrow> nodes s' q = nodes s q) \<and>
    currentTerm (nodes s' p) = k + currentTerm (nodes s p) \<and> role (nodes s' p) \<noteq> Leader \<and> entries (nodes s' p) = entries (nodes s p) \<and>
    snapshotIndex (nodes s' p) = snapshotIndex (nodes s p) \<and> snapshotData (nodes s' p) = snapshotData (nodes s p)"
  using assms(12)
proof (induction k)
  case 0
  show ?case using assms(1,2,7) by (intro exI [of _ s]) simp
next
  case (Suc k)
  have mem: "p \<in> set ids" and ne: "v \<noteq> p"
    using assms(3-5) distinct_card [OF assms(4)] by (auto simp: card_insert_if split: if_splits)
  from Suc obtain u where u: "reachable reads opts ids u" "\<And>q. up u q" "\<And>q. q \<noteq> p \<Longrightarrow> nodes u q = nodes s q"
    "currentTerm (nodes u p) = k + currentTerm (nodes s p)" "role (nodes u p) \<noteq> Leader" "entries (nodes u p) = entries (nodes s p)"
    "snapshotIndex (nodes u p) = snapshotIndex (nodes s p)" "snapshotData (nodes u p) = snapshotData (nodes s p)" by auto
  have c: "preVoteEnabled (cfg (nodes u p))" "timer_ok (cfg (nodes u p))"
    using reachable_cfg [OF u(1) mem] nodeConfig_timers [OF assms(6)] by simp_all
  have r: "room (nodes u p)" "term_room (nodes u p)" "not_ahead (nodes u v) (nodes u p)" "currentTerm (nodes u v) \<le> Suc (currentTerm (nodes u p))"
    using u(3) [OF ne] u(4,6) assms(8-11) Suc(2) not_ahead_cong [OF u(6), of "nodes s v"] by (auto simp: room_def term_room_def lastIndex_def)
  obtain s' where s': "(sys_step reads opts ids)\<^sup>*\<^sup>* u s'" "up s' = up u" "candidate_of (nodes u p) (nodes s' p)" "\<And>q. q \<noteq> p \<Longrightarrow> nodes s' q = nodes u q"
    using prevote_run [OF u(1) assms(3-5) u(2,2) c u(5) r] by metis
  have "reachable reads opts ids s'" using sys_steps_reachable [OF s'(1) u(1)] by blast
  then show ?case using s' u by (intro exI [of _ s']) (simp add: candidate_of_def)
qed

text \<open>A server crashes and starts again from its store.\<close>

lemma revive_run:
  assumes "reachable reads opts ids s" "p \<in> set ids" "snapshotData (nodes s p) = NoBytes"
  obtains s' n' where "reachable reads opts ids s'" "up s' = (up s)(p := True)" "nodes s' = (nodes s)(p := n')"
    "currentTerm n' = currentTerm (nodes s p)" "entries n' = entries (nodes s p)" "role n' = Follower" "goroutines n' = [ElectionLoop, ApplyLoop]"
    "snapshotData n' = NoBytes"
proof -
  have pe: "persisted (nodes s p)" using base_member [OF reachable_base [OF assms(1)] assms(2)] by (simp add: member_ok_def)
  define s1 where "s1 = setRounds (s\<lparr>up := (up s)(p := False)\<rparr>) p []"
  have s1: "reachable reads opts ids s1" unfolding s1_def using assms(1,2) by (intro reachable.step [OF _ sys_step.crash])
  have "\<exists>n0. New (nodeConfig opts ids p) (disk (nodes s p)) New_jukebox = Inr n0"
    using New_recovers [OF pe, of "nodeConfig opts ids p" p Jukebox_SM New_jukebox] assms(3) by (auto simp: nodeConfig_def)
  then obtain n' where n': "startNode opts ids env0 p (disk (nodes s p)) = Some n'" by (auto simp: startNode_def)
  define s2 where "s2 = setNode (s1\<lparr>up := (up s1)(p := True)\<rparr>) p n'"
  have "sys_step reads opts ids s1 s2"
    unfolding s2_def using assms(2) n' by (intro sys_step.restart [where e = env0]) (simp_all add: s1_def)
  then have "reachable reads opts ids s2" by (rule reachable.step [OF s1])
  then show thesis
    using startNode_votes [OF n' pe] assms(3) by (intro that [of s2 n']) (simp_all add: s2_def s1_def)
qed

definition split_terms :: "sys \<Rightarrow> bool" where
  "split_terms s \<longleftrightarrow> \<not> up s ''c'' \<and> up s ''a'' \<and> up s ''b'' \<and> currentTerm (nodes s ''a'') = 1 \<and> currentTerm (nodes s ''b'') = 3 \<and>
     \<not> not_ahead (nodes s ''a'') (nodes s ''b'') \<and>
     (\<forall>q\<in>{''a'', ''b''}. role (nodes s q) = Follower \<and> goroutines (nodes s q) = [ElectionLoop, ApplyLoop])"

lemma split_terms_reachable: "\<exists>s. reachable reads DefaultOptions abc s \<and> split_terms s"
proof -
  have opts: "timers_ok DefaultOptions" by (simp add: timers_ok_def DefaultOptions_def Millisecond_def)
  have ids: "''a'' \<in> set abc" "''b'' \<in> set abc" "''c'' \<in> set abc" by (simp_all add: abc_def)
  have acb: "set abc = {''a'', ''c'', ''b''}" by (auto simp: abc_def)
  obtain s1 where s1: "reachable reads DefaultOptions abc s1" "\<And>q. up s1 q" "crowned (boot ''a'') (nodes s1 ''a'')"
    "sided 1 (boot ''c'') (nodes s1 ''c'')" "nodes s1 ''b'' = boot ''b''" using boot_election [OF acb, of reads] by blast
  note boot = boot_fields
  have b1: "set abc = {''b'', ''c'', ''a''}" "role (nodes s1 ''b'') \<noteq> Leader" "room (nodes s1 ''b'')" "currentTerm (nodes s1 ''b'') + 3 < two64"
    "not_ahead (nodes s1 ''c'') (nodes s1 ''b'')" "currentTerm (nodes s1 ''c'') \<le> Suc (currentTerm (nodes s1 ''b''))"
    using s1(4,5) by (auto simp: boot room_def not_ahead_def sided_def lastIndex_def lastTerm_def two64_def abc_def)
  obtain s2 where s2: "reachable reads DefaultOptions abc s2" "\<And>q. q \<noteq> ''b'' \<Longrightarrow> nodes s2 q = nodes s1 q"
    "currentTerm (nodes s2 ''b'') = 3" "entries (nodes s2 ''b'') = entries (nodes s1 ''b'')" "snapshotData (nodes s2 ''b'') = NoBytes"
    using three_ups [OF s1(1,2) b1(1) abc_ok(2,3) opts b1(2-6), of 3] s1(5) by (auto simp: boot)
  have a2: "snapshotData (nodes s2 ''a'') = NoBytes" using s1(3) s2(2) by (simp add: crowned_def boot)
  obtain s3 n3 where s3: "reachable reads DefaultOptions abc s3" "up s3 = (up s2)(''a'' := True)" "nodes s3 = (nodes s2)(''a'' := n3)"
    "currentTerm n3 = currentTerm (nodes s2 ''a'')" "entries n3 = entries (nodes s2 ''a'')" "role n3 = Follower" "goroutines n3 = [ElectionLoop, ApplyLoop]"
    by (rule revive_run [OF s2(1) ids(1) a2])
  have b3: "snapshotData (nodes s3 ''b'') = NoBytes" using s2(5) s3(3) by simp
  obtain s4 n4 where s4: "reachable reads DefaultOptions abc s4" "up s4 = (up s3)(''b'' := True)" "nodes s4 = (nodes s3)(''b'' := n4)"
    "currentTerm n4 = currentTerm (nodes s3 ''b'')" "entries n4 = entries (nodes s3 ''b'')" "role n4 = Follower" "goroutines n4 = [ElectionLoop, ApplyLoop]"
    by (rule revive_run [OF s3(1) ids(2) b3])
  define s5 where "s5 = setRounds (s4\<lparr>up := (up s4)(''c'' := False)\<rparr>) ''c'' []"
  have "reachable reads DefaultOptions abc s5" unfolding s5_def using s4(1) ids(3) by (intro reachable.step [OF _ sys_step.crash])
  moreover have "currentTerm n3 = 1" "last (entries n3) = \<lparr>Term = 1, Index = 1, Cmd = noopCommand\<rparr>"
    using s1(3) s2(2) s3(4,5) by (simp_all add: crowned_def boot lastIndex_def)
  moreover have "currentTerm n4 = 3" "entries n4 = [\<lparr>Term = 0, Index = 0, Cmd = NoBytes\<rparr>]"
    using s1(5) s2(3,4) s3(3) s4(4,5) by (simp_all add: boot)
  ultimately show ?thesis using s3 s4
    by (intro exI [of _ s5]) (simp add: split_terms_def s5_def not_ahead_def lastTerm_def)
qed

text \<open>After the run of \<open>split_terms_reachable\<close> all messages are lost.\<close>

theorem prevote_standstill_witness:
  "\<exists>s0 s. reachable True DefaultOptions abc s0 \<and> s = s0\<lparr>net := {}, rounds := (\<lambda>_. [])\<rparr> \<and> \<not> up s ''c'' \<and>
     currentTerm (nodes s ''a'') = 1 \<and> currentTerm (nodes s ''b'') = 3 \<and>
     {s'. (\<lambda>t t'. sys_step True DefaultOptions abc t t' \<and> \<not> up t' ''c'')\<^sup>*\<^sup>* s s'} \<inter>
       {s'. role (nodes s' ''a'') = Leader \<or> role (nodes s' ''b'') = Leader} = {}"
proof -
  obtain s0 where s0: "reachable True DefaultOptions abc s0" "split_terms s0" using split_terms_reachable by blast
  define s where "s = s0\<lparr>net := {}, rounds := (\<lambda>_. [])\<rparr>"
  have f: "\<not> up s ''c''" "currentTerm (nodes s ''a'') = 1" "currentTerm (nodes s ''b'') = 3" "\<not> not_ahead (nodes s ''a'') (nodes s ''b'')"
    "q \<in> {''a'', ''b''} \<Longrightarrow> role (nodes s q) \<noteq> Leader \<and> goroutines (nodes s q) = [ElectionLoop, ApplyLoop]" for q
    using s0(2) by (auto simp: split_terms_def s_def)
  have t: "currentTerm (nodes s ''a'') + 1 < currentTerm (nodes s ''b'')" "currentTerm (nodes s ''b'') < two64"
    using f(2,3) by (simp_all add: two64_def)
  have "\<not> (role (nodes s' ''a'') = Leader \<or> role (nodes s' ''b'') = Leader)"
    if "(\<lambda>t t'. sys_step True DefaultOptions abc t t' \<and> \<not> up t' ''c'')\<^sup>*\<^sup>* s s'" for s'
    using prevote_standstill [OF s0(1) abc_ok(4,2,3) s_def f(1) f(5) t f(4) that] by simp
  then show ?thesis using s0(1) s_def f(1-3) by (intro exI [of _ s0] exI [of _ s]) auto
qed

text \<open>Server \<open>b\<close> has moved to term 1 without winning it; \<open>a\<close>, at term 0, still wins its vote, in term 2.\<close>

theorem election_progress_witness:
  "\<exists>s s' t. reachable True DefaultOptions abc s \<and> currentTerm (nodes s ''a'') = 0 \<and> currentTerm (nodes s ''b'') = 1 \<and>
     (sys_step True DefaultOptions abc)\<^sup>*\<^sup>* s s' \<and> role (nodes s' ''a'') = Leader \<and> currentTerm (nodes s' ''a'') = t \<and> (t = 1 \<or> t = 2)"
proof -
  have opts: "timers_ok DefaultOptions" by (simp add: timers_ok_def DefaultOptions_def Millisecond_def)
  have bca: "set abc = {''b'', ''c'', ''a''}" by (auto simp: abc_def)
  have up: "up boot_sys q" for q by (simp add: boot_sys_def)
  have b: "role (nodes boot_sys ''b'') \<noteq> Leader" "room (nodes boot_sys ''b'')" "currentTerm (nodes boot_sys ''b'') + 3 < two64"
    "not_ahead (nodes boot_sys ''c'') (nodes boot_sys ''b'')" "currentTerm (nodes boot_sys ''c'') \<le> Suc (currentTerm (nodes boot_sys ''b''))"
    by (simp_all add: boot_sys_def boot_fields room_def not_ahead_def lastIndex_def lastTerm_def two64_def)
  obtain s where s: "reachable True DefaultOptions abc s" "\<And>q. up s q" "\<And>q. q \<noteq> ''b'' \<Longrightarrow> nodes s q = boot q"
    "currentTerm (nodes s ''b'') = 1" "entries (nodes s ''b'') = entries (boot ''b'')"
    using three_ups [OF boot_reachable up bca abc_ok(2,3) opts b, of 1 True] by (auto simp: boot_sys_def boot_fields)
  have a: "role (nodes s ''a'') \<noteq> Leader" "lastIndex (nodes s ''a'') + 2 < two64" "currentTerm (nodes s ''a'') + 2 < two64"
    "not_ahead (nodes s ''b'') (nodes s ''a'')" "currentTerm (nodes s ''b'') \<le> currentTerm (nodes s ''a'') + 1" "currentTerm (nodes s ''a'') = 0"
    using s(3-5) by (simp_all add: boot_fields not_ahead_def lastIndex_def lastTerm_def two64_def)
  show ?thesis using election_progress [OF s(1) abc_ok(4,2,3) s(2,2) opts a(1-5)] s(1,4) a(6) by (metis add_0)
qed

end
