(* ===== verification/SnapshotRewind.thy ===== *)
theory SnapshotRewind
  imports ReadAnomalies Progress
begin

text \<open>
  A late snapshot makes two state machines diverge.  \<open>InstallSnapshot\<close> restores the state machine
  whenever the snapshot is ahead of the server's own one, also when the server has already applied
  more, and leaves \<open>lastApplied\<close> alone; what it had applied beyond the snapshot is lost from the
  state machine for good.  The run below needs no failure, only a snapshot that is delivered late.
\<close>

section \<open>What the handlers do to the servers of the run\<close>

text \<open>The fields of a server in term 1 that the run needs.\<close>

definition holds :: "(MemStore, State) Node \<Rightarrow> LogEntry list \<Rightarrow> uint64 \<Rightarrow> uint64 \<Rightarrow> uint64 \<Rightarrow> State \<Rightarrow> bool" where
  "holds n es i c ap q \<longleftrightarrow> currentTerm n = 1 \<and> entries n = es \<and> snapshotIndex n = i \<and> commitIndex n = c \<and> lastApplied n = ap \<and>
     sm n = q \<and> fault n = None"

definition peers_at :: "(MemStore, State) Node \<Rightarrow> uint64 \<Rightarrow> uint64 \<Rightarrow> uint64 \<Rightarrow> uint64 \<Rightarrow> bool" where
  "peers_at n nb mb nc mc \<longleftrightarrow> role n = Leader \<and> nextIndex n ''b'' = Some nb \<and> matchIndex n ''b'' = Some mb \<and>
     nextIndex n ''c'' = Some nc \<and> matchIndex n ''c'' = Some mc"

definition rewind_opts :: Options where
  "rewind_opts = DefaultOptions\<lparr>oSnapshotThreshold := 2\<rparr>"

text \<open>What the invariants of a reachable cluster of three say of a server.\<close>

definition placed :: "nodeid \<Rightarrow> (MemStore, State) Node \<Rightarrow> bool" where
  "placed p n \<longleftrightarrow> member_ok abc p n \<and> SnapshotThreshold (cfg n) = 2 \<and> timer_ok (cfg n)"

lemma placed_reachable: "reachable reads rewind_opts abc s \<Longrightarrow> p \<in> set abc \<Longrightarrow> placed p (nodes s p)"
  using base_member [OF reachable_base] reachable_cfg [of reads rewind_opts abc s p]
  by (simp add: placed_def rewind_opts_def DefaultOptions_def nodeConfig_def withDefaults_def timer_ok_def Millisecond_def)

lemma holds_snapshot: "holds n es i c ap q \<Longrightarrow> log_ok n \<Longrightarrow> Suc (lastIndex n) = i + length es"
  using lastIndex_Suc [of n] by (simp add: holds_def)

text \<open>An index is committed by the leader and one peer that has it.\<close>

lemma not_committable:
  assumes "quorum n = 2" "\<And>q. q \<in> set (peers n) \<Longrightarrow> mget (matchIndex n) q < j"
  shows "\<not> committable n j"
proof -
  have "filter (\<lambda>q. j \<le> mget (matchIndex n) q) (peers n) = []" using assms(2) by (auto simp: filter_empty_conv not_le)
  then show ?thesis using assms(1) by (simp add: committable_def replicaCount_def)
qed

lemma advance_idle:
  assumes "quorum n = 2" "\<And>q. q \<in> set (peers n) \<Longrightarrow> mget (matchIndex n) q \<le> commitIndex n"
  shows "advanceCommitLocked n = n"
proof -
  have "\<not> committable n j" if "commitIndex n < j" for j
    using that le_less_trans [OF assms(2) that] by (intro not_committable [OF assms(1)])
  then have "commitScan n i = None" for i using commitScan_Some [of n i] by (cases "commitScan n i") auto
  then show ?thesis by (simp add: advanceCommitLocked_def)
qed

lemma propose_holds:
  assumes "holds n es i c ap q" "peers_at n nb mb nc mc" "placed ''a'' n" "room n" "mb \<le> c" "mc \<le> c"
  shows "holds (fst (Propose n cmd)) (es @ [\<lparr>Term = 1, Index = Suc (lastIndex n), Cmd = cmd\<rparr>]) i c ap q"
    "peers_at (fst (Propose n cmd)) nb mb nc mc" "applyCh (fst (Propose n cmd)) = applyCh n"
proof -
  obtain d where own: "fst (appendOwn n cmd) = n\<lparr>entries := es @ [\<lparr>Term = 1, Index = Suc (lastIndex n), Cmd = cmd\<rparr>], disk := d\<rparr>"
    using assms(1,4) by (simp add: appendOwn_conv ownEntry_def holds_def room_def)
  define m where "m = n\<lparr>entries := es @ [\<lparr>Term = 1, Index = Suc (lastIndex n), Cmd = cmd\<rparr>], disk := d\<rparr>"
  have pe: "set (peers n) = {''b'', ''c''}" "quorum n = 2" using assms(3) by (auto simp: placed_def member_ok_def abc_def)
  have "advanceCommitLocked m = m"
  proof (rule advance_idle)
    have f: "set (peers m) = {''b'', ''c''}" "commitIndex m = c" "mget (matchIndex m) ''b'' = mb" "mget (matchIndex m) ''c'' = mc"
      using pe(1) assms(1,2) by (simp_all add: m_def holds_def peers_at_def mget_def)
    show "quorum m = 2" using pe(2) by (simp add: m_def)
    show "mget (matchIndex m) r \<le> commitIndex m" if "r \<in> set (peers m)" for r
      using that assms(5,6) unfolding f by (metis f(3,4) insertE singletonD)
  qed
  moreover have "fst (appendOwn n cmd) = m" unfolding own m_def ..
  ultimately have p: "fst (Propose n cmd) = triggerReplication m"
    using assms(2) by (simp add: Propose_def case_prod_beta peers_at_def)
  show "holds (fst (Propose n cmd)) (es @ [\<lparr>Term = 1, Index = Suc (lastIndex n), Cmd = cmd\<rparr>]) i c ap q"
    "peers_at (fst (Propose n cmd)) nb mb nc mc" "applyCh (fst (Propose n cmd)) = applyCh n"
    using assms(1,2) by (simp_all add: p triggerReplication_conv m_def holds_def peers_at_def)
qed

abbreviation okay :: AppendEntriesResponse where
  "okay \<equiv> \<lparr>aerTerm = 1, Success = True, ConflictIndex = 0, ConflictTerm = 0\<rparr>"

lemma ack_holds:
  assumes "holds n es i c ap q" "role n = Leader" "placed ''a'' n" "r \<in> {''b'', ''c''}" "aeTerm ae = 1"
    and "PrevLogIndex ae + length (aeEntries ae) = k" "mget (matchIndex n) r < k" "c < k" "k \<le> lastIndex n" "termAt n k = Some 1"
    and "\<And>x. x \<in> {''b'', ''c''} \<Longrightarrow> x \<noteq> r \<Longrightarrow> mget (matchIndex n) x \<le> c"
  shows "sendAppendEntries_reply n r ae okay =
    n\<lparr>matchIndex := (matchIndex n)(r \<mapsto> k), nextIndex := (nextIndex n)(r \<mapsto> Suc k), commitIndex := k, applyCh := True\<rparr>"
proof -
  have lok: "log_ok n" and pe: "set (peers n) = {''b'', ''c''}" "quorum n = 2" using assms(3) by (auto simp: placed_def member_ok_def abc_def)
  define m where "m = n\<lparr>matchIndex := (matchIndex n)(r \<mapsto> k), nextIndex := (nextIndex n)(r \<mapsto> Suc k)\<rparr>"
  have "termAt m k = termAt n k" by (simp add: m_def termAt_def Let_def)
  then have m: "lastIndex m = lastIndex n" "termAt m k = Some 1" "quorum m = 2" "peers m = peers n" "currentTerm m = 1" "commitIndex m = c"
    using assms(1,10) pe by (simp_all add: m_def lastIndex_def holds_def)
  have "filter (\<lambda>p. k \<le> mget (matchIndex m) p) (peers m) \<noteq> []" using assms(4) pe by (auto simp: filter_empty_conv m_def)
  then have "2 \<le> replicaCount m k" by (cases "filter (\<lambda>p. k \<le> mget (matchIndex m) p) (peers m)") (auto simp: replicaCount_def)
  then have ck: "committable m k" using m by (simp add: committable_def)
  have above: "\<not> committable m j" if "k < j" for j
  proof (rule not_committable [OF m(3)])
    show "mget (matchIndex m) x < j" if x: "x \<in> set (peers m)" for x
      using assms(8) assms(11) [of x] x pe that m(4) \<open>k < j\<close> by (cases "x = r") (auto simp: m_def)
  qed
  have "commitScan m (lastIndex m) = Some k"
  proof (cases "commitScan m (lastIndex m)")
    case None
    then show ?thesis using commitScan_None [OF None, of k] ck assms(8,9) m by simp
  next
    case (Some j)
    note s = commitScan_Some [OF Some]
    have "\<not> k < j" using s above by blast
    moreover have "\<not> j < k" using s ck assms(9) m(1) by auto
    ultimately show ?thesis using Some by simp
  qed
  then have "advanceCommitLocked m = n\<lparr>matchIndex := (matchIndex n)(r \<mapsto> k), nextIndex := (nextIndex n)(r \<mapsto> Suc k), commitIndex := k, applyCh := True\<rparr>"
    by (simp add: advanceCommitLocked_def signalApply_def m_def)
  moreover have "k + 1 < two64" using lastIndex_less [OF lok] assms(9) by simp
  ultimately show ?thesis using assms(1,2,5-7) m_def
    by (simp add: sendAppendEntries_reply_def Let_def holds_def)
qed

lemma append_holds:
  assumes "holds f es i c ap q \<or> holds (f\<lparr>currentTerm := 1\<rparr>) es i c ap q \<and> currentTerm f \<le> 1" "placed p f"
    and "aeTerm ae = 1" "PrevLogIndex ae = lastIndex f" "PrevLogTerm ae = lastTerm f" "req_ok ae"
  obtains f' where "AppendEntries env0 f ae = (f', okay)"
    "holds f' (es @ aeEntries ae) i (if c < LeaderCommit ae then min (LeaderCommit ae) (lastIndex f') else c) ap q"
    "applyCh f' = (c < LeaderCommit ae \<or> applyCh f)" "role f' = Follower"
proof -
  have lok: "log_ok f" "timer_ok (cfg f)" using assms(2) by (simp_all add: placed_def member_ok_def)
  have f: "currentTerm f \<le> 1" "entries f = es" "snapshotIndex f = i" "commitIndex f = c" "lastApplied f = ap" "sm f = q" "fault f = None"
    using assms(1) by (auto simp: holds_def)
  have acc: "accepts f ae" using assms(3-5) f(1) termAt_last [OF lok(1)] by (simp add: accepts_def)
  have m: "mergeLog f (aeEntries ae) = es @ aeEntries ae"
    using assms lok f by (subst mergeLog_extends) (simp_all add: req_ok_def)
  have ft: "fault (heard env0 f (aeTerm ae) (aeLeaderId ae)) = None" using lok(2) f(7) by (simp add: heard_def go_defs)
  show ?thesis
    using that AppendEntries_accept [OF lok(1) assms(6) acc refl, of env0] assms(3) f ft
    by (auto simp: m commitTo_conv lastIndex_def holds_def max_def)
qed

definition applied :: "LogEntry list \<Rightarrow> uint64 \<Rightarrow> uint64 \<Rightarrow> uint64 \<Rightarrow> State \<Rightarrow> State" where
  "applied es i ap c q = replay Jukebox_SM q (map Cmd (take (c - ap) (drop (Suc ap - i) es)))"

lemma apply_holds:
  assumes "holds n es i c ap q" "placed p n" "i \<le> ap" "ap \<le> c" "c \<le> lastIndex n"
  defines "n' \<equiv> applyReady (n\<lparr>applyCh := False\<rparr>)"
  shows "role n' = role n" "nextIndex n' = nextIndex n" "matchIndex n' = matchIndex n"
    "length es \<le> 3 \<Longrightarrow> holds n' es i c c (applied es i ap c q)"
    "3 < length es \<Longrightarrow> i < c \<Longrightarrow>
       holds n' (\<lparr>Term = Term (es ! (c - i)), Index = c, Cmd = NoBytes\<rparr> # drop (Suc c - i) es) c c c (applied es i ap c q) \<and>
       snapshotTerm n' = Term (es ! (c - i)) \<and> snapshotData n' = Snapshot_jukebox (applied es i ap c q)"
proof -
  let ?m = "n\<lparr>applyCh := False\<rparr>"
  define m where "m = applyAll ?m"
  have mem: "member_ok abc p n" and cfgs: "SnapshotThreshold (cfg n) = 2" using assms(2) by (simp_all add: placed_def)
  have lok: "log_ok n" "sm_if n = Jukebox_SM" "store_if n = MemStorage"
    using mem by (auto simp: member_ok_def durable_defs)
  have f: "entries n = es" "snapshotIndex n = i" "commitIndex n = c" "lastApplied n = ap" "sm n = q" "fault n = None" "currentTerm n = 1"
    using assms(1) by (simp_all add: holds_def)
  have lokm: "log_ok ?m" using lok(1) log_ok_cong [of ?m n] by simp
  have "apply_ok ?m"
    using mem lokm f assms(3-5) by (auto simp: apply_ok_def member_ok_def wait_ok_def pend_ok_def lastIndex_def)
  note all = applyAll_spec [OF this]
  have m: "holds m es i c c (applied es i ap c q)"
    using all f lok(2) by (auto simp: m_def holds_def applied_def unapplied_def apply_ok_def)
  have mf: "role m = role n" "nextIndex m = nextIndex n" "matchIndex m = matchIndex n" "cfg m = cfg n" "sm_if m = Jukebox_SM" "store_if m = MemStorage"
    using lok by (simp_all add: m_def)
  have ready: "n' = maybeSnapshotLocked m" using m by (simp add: n'_def applyReady_def m_def [symmetric] holds_def)
  have fr: "role (maybeSnapshotLocked x) = role x" "nextIndex (maybeSnapshotLocked x) = nextIndex x" "matchIndex (maybeSnapshotLocked x) = matchIndex x"
    for x :: "(MemStore, State) Node"
    by (simp_all add: maybeSnapshotLocked_def persist_conv Let_def split: option.split prod.split)
  show "role n' = role n" "nextIndex n' = nextIndex n" "matchIndex n' = matchIndex n" using ready fr mf by simp_all
  show "holds n' es i c c (applied es i ap c q)" if "length es \<le> 3"
  proof -
    have "maybeSnapshotLocked m = m" using that m cfgs by (simp add: maybeSnapshotLocked_def mf holds_def)
    then show ?thesis using ready m by simp
  qed
  show "holds n' (\<lparr>Term = Term (es ! (c - i)), Index = c, Cmd = NoBytes\<rparr> # drop (Suc c - i) es) c c c (applied es i ap c q) \<and>
       snapshotTerm n' = Term (es ! (c - i)) \<and> snapshotData n' = Snapshot_jukebox (applied es i ap c q)" if "3 < length es" "i < c"
  proof -
    have len: "Suc (lastIndex n) = i + length es" using holds_snapshot [OF assms(1) lok(1)] .
    have c64: "c + 1 < two64" using lastIndex_less [OF lok(1)] assms(5) by simp
    have t: "termAt m c = Some (Term (es ! (c - i)))" using m that(2) len assms(5) by (simp add: termAt_def holds_def Let_def)
    show ?thesis
      using m that cfgs t len assms(5) c64 unfolding ready
      by (simp add: maybeSnapshotLocked_def mf holds_def Let_def persist_conv sliceFrom_def mem_defs)
  qed
qed

text \<open>A snapshot between what the server has compacted and what it has applied.\<close>

lemma install_holds:
  assumes "holds n es i c ap q" "placed p n" "i < k" "k < ap" "ap \<le> c" "termAt n k = Some t" "wf_state st"
    and "is = \<lparr>isTerm = 1, isLeaderId = l, LastIncludedIndex = k, LastIncludedTerm = t, isData = Snapshot_jukebox st\<rparr>"
  shows "sm (fst (InstallSnapshot env0 n is)) = st" "lastApplied (fst (InstallSnapshot env0 n is)) = ap"
    "commitIndex (fst (InstallSnapshot env0 n is)) = c"
proof -
  define h where "h = heard env0 n (isTerm is) (isLeaderId is)"
  have sif: "sm_if n = Jukebox_SM" using assms(2) by (simp add: placed_def member_ok_def)
  have r: "sm_Restore (sm_if n) (sm n) (isData is) = (st, None)" using jukebox.restore_snapshot [OF assms(7)] sif assms(8) by simp
  have f: "currentTerm n = 1" "snapshotIndex n = i" "commitIndex n = c" "lastApplied n = ap" using assms(1) by (simp_all add: holds_def)
  have ins: "fst (InstallSnapshot env0 n is) = adoptSnapshot (h\<lparr>sm := st\<rparr>) is"
    using r f assms(3,8) by (simp add: InstallSnapshot_conv h_def Let_def)
  have h: "commitIndex h = c" "lastApplied h = ap" using f by (simp_all add: h_def)
  have "sm (adoptSnapshot x is) = sm x \<and> lastApplied (adoptSnapshot x is) = max (lastApplied x) k \<and>
      commitIndex (adoptSnapshot x is) = max (commitIndex x) k" for x :: "(MemStore, State) Node"
    using assms(8) by (simp add: adoptSnapshot_def persist_conv case_prod_beta Let_def max_def)
  from this [of "h\<lparr>sm := st\<rparr>"] show "sm (fst (InstallSnapshot env0 n is)) = st" "lastApplied (fst (InstallSnapshot env0 n is)) = ap"
    "commitIndex (fst (InstallSnapshot env0 n is)) = c"
    using h assms(4,5) by (simp_all add: ins max_def)
qed

section \<open>The run\<close>

abbreviation song_y :: bytes where
  "song_y \<equiv> Encode (enq_cmd ''c2'' 1 ''y'')"

abbreviation e0 :: LogEntry where "e0 \<equiv> \<lparr>Term = 0, Index = 0, Cmd = NoBytes\<rparr>"
abbreviation e1 :: LogEntry where "e1 \<equiv> \<lparr>Term = 1, Index = 1, Cmd = noopCommand\<rparr>"
abbreviation e2 :: LogEntry where "e2 \<equiv> \<lparr>Term = 1, Index = 2, Cmd = enqueue ''x''\<rparr>"
abbreviation e3 :: LogEntry where "e3 \<equiv> \<lparr>Term = 1, Index = 3, Cmd = song_y\<rparr>"
abbreviation base_at :: "uint64 \<Rightarrow> LogEntry" where "base_at k \<equiv> \<lparr>Term = 1, Index = k, Cmd = NoBytes\<rparr>"

definition jx :: State where
  "jx = fst (Apply New_jukebox (enqueue ''x''))"

definition jxy :: State where
  "jxy = fst (Apply jx song_y)"

lemma queues: "map sID (Queue jx) = [''x'']" "map sID (Queue jxy) = [''x'', ''y'']" "wf_state jx"
proof -
  show "map sID (Queue jx) = [''x'']" "map sID (Queue jxy) = [''x'', ''y'']"
    by (simp_all add: jx_def jxy_def Apply_def cached_def New_jukebox_def zero_state_def applyInner_def op_defs applyEnqueue_def Let_def)
  show "wf_state jx" by (simp add: jx_def wf_Apply)
qed

lemma noop_applied: "fst (Apply New_jukebox noopCommand) = New_jukebox"
proof -
  have "unmarshal_command noopCommand = (op_command OpNoop, None)"
    unfolding noopCommand_def by (rule unmarshal_Encode) (simp_all add: op_command_def)
  then show ?thesis by (simp add: Apply_def cached_def session_def op_command_def applyInner_def op_defs Let_def)
qed

lemma applied_logs:
  "applied [e0, e1, e2, e3] 0 0 1 New_jukebox = New_jukebox" "applied [e0, e1, e2, e3] 0 0 2 New_jukebox = jx"
  "applied [base_at 1, e2, e3] 1 1 3 New_jukebox = jxy" "applied [base_at 2, e3] 2 2 3 jx = jxy"
  by (simp_all add: applied_def noop_applied jx_def jxy_def numeral_2_eq_2 numeral_3_eq_3)

text \<open>The cluster at its start.\<close>

definition start_node :: "nodeid \<Rightarrow> (MemStore, State) Node" where
  "start_node p = the (startNode rewind_opts abc env0 p NewMemStore)"

definition start_sys :: sys where
  "start_sys = \<lparr>nodes = start_node, up = (\<lambda>_. True), net = {}, rounds = (\<lambda>_. [])\<rparr>"

lemmas start_defs = start_node_def startNode_def New_def loadFromStorage_def nodeConfig_def withDefaults_def Let_def mem_defs NewMemStore_def
  rewind_opts_def DefaultOptions_def Millisecond_def

lemma start_fields:
  "startNode rewind_opts abc env0 p NewMemStore = Some (start_node p)"
  "role (start_node p) = Follower" "currentTerm (start_node p) = 0" "entries (start_node p) = [e0]" "snapshotIndex (start_node p) = 0"
  "commitIndex (start_node p) = 0" "lastApplied (start_node p) = 0" "sm (start_node p) = New_jukebox" "fault (start_node p) = None"
  by (simp_all add: start_defs) (simp_all add: Start_def go_defs timer_ok_def)

lemma start_reachable: "reachable reads rewind_opts abc start_sys"
  by (rule reachable.init) (auto simp: initial_def start_sys_def intro: start_fields(1))

lemma start_cfg: "p \<in> {''a'', ''b'', ''c''} \<Longrightarrow> preVoteEnabled (cfg (start_node p)) \<and> timer_ok (cfg (start_node p))"
  using reachable_cfg [OF start_reachable, of p] nodeConfig_timers [of rewind_opts abc p]
  by (auto simp: start_sys_def abc_ok(4) timers_ok_def rewind_opts_def DefaultOptions_def Millisecond_def)

text \<open>Server \<open>a\<close> is elected by \<open>b\<close>.\<close>

lemma run_elected:
  obtains s where "reachable reads rewind_opts abc s" "\<And>p. up s p" "holds (nodes s ''a'') [e0, e1] 0 0 0 New_jukebox"
    "peers_at (nodes s ''a'') 1 0 1 0" "holds (nodes s ''b'') [e0] 0 0 0 New_jukebox" "nodes s ''c'' = start_node ''c''"
proof (rule elect_run [OF start_reachable, of "''a''" "''b''" "''c''"])
  have pl: "placed p (start_node p)" if "p \<in> set abc" for p
    using placed_reachable [OF start_reachable that] by (simp add: start_sys_def)
  have pe: "set (peers (start_node ''a'')) = {''b'', ''c''}" using pl [of "''a''"] by (auto simp: placed_def member_ok_def abc_def)
  fix s'
  assume s': "(sys_step reads rewind_opts abc)\<^sup>*\<^sup>* start_sys s'" "up s' = up start_sys" "crowned (nodes start_sys ''a'') (nodes s' ''a'')"
    "sided (Suc (currentTerm (nodes start_sys ''a''))) (nodes start_sys ''b'') (nodes s' ''b'')"
    "\<And>q. q \<noteq> ''a'' \<Longrightarrow> q \<noteq> ''b'' \<Longrightarrow> nodes s' q = nodes start_sys q"
  show thesis
  proof (rule that)
    show "reachable reads rewind_opts abc s'" using sys_steps_reachable [OF s'(1) start_reachable] by simp
  qed (use s' pe in \<open>auto simp: start_sys_def start_fields crowned_def sided_def holds_def peers_at_def lastIndex_def\<close>)
qed (use start_cfg in \<open>auto simp: abc_ok start_sys_def start_fields not_ahead_def room_def term_room_def lastIndex_def lastTerm_def two64_def\<close>)

text \<open>Steps of a reachable state that are used more than once.\<close>

lemma run_send:
  assumes "reachable reads rewind_opts abc s" "\<And>r. up s r" "sendAppendEntries (nodes s ''a'') q = SendEntries ae" "q \<in> {''b'', ''c''}"
  shows "reachable reads rewind_opts abc (send s {AE ''a'' q ae})" "req_ok ae"
proof -
  have a: "''a'' \<in> set abc" by (simp add: abc_def)
  have m: "member_ok abc ''a'' (nodes s ''a'')" using placed_reachable [OF assms(1) a] by (simp add: placed_def)
  then have q: "q \<in> set (peers (nodes s ''a''))" using assms(4) by (auto simp: member_ok_def abc_def)
  show "reachable reads rewind_opts abc (send s {AE ''a'' q ae})"
    using reachable.step [OF assms(1) sys_step.send_entries [OF a assms(2) q assms(3)]] .
  show "req_ok ae" using sendAppendEntries_req_ok [OF _ assms(3)] m by (simp add: member_ok_def)
qed

lemma run_deliver:
  assumes "reachable reads rewind_opts abc s" "\<And>r. up s r" "q \<in> {''b'', ''c''}" "AE ''a'' q ae \<in> net s"
    and "AppendEntries env0 (nodes s q) ae = (n', resp)"
  shows "reachable reads rewind_opts abc (send (setNode s q n') {AER q ''a'' ae resp})"
  using reachable.step [OF assms(1) sys_step.deliver_ae [OF _ assms(2,4,5)]] assms(3) by (auto simp: abc_def)

lemma run_ack:
  assumes "reachable reads rewind_opts abc s" "\<And>r. up s r" "AER q ''a'' ae resp \<in> net s"
  shows "reachable reads rewind_opts abc (setNode s ''a'' (sendAppendEntries_reply (nodes s ''a'') q ae resp))"
  using reachable.step [OF assms(1) sys_step.deliver_aer [OF _ assms(2,3)]] by (simp add: abc_def)

lemma run_propose:
  assumes "reachable reads rewind_opts abc s" "\<And>r. up s r" "room (nodes s ''a'')"
  shows "reachable reads rewind_opts abc (setNode s ''a'' (fst (Propose (nodes s ''a'') cmd)))"
  using reachable.step [OF assms(1) sys_step.propose [OF _ assms(2,3)]] by (simp add: abc_def)

lemma run_apply:
  assumes "reachable reads rewind_opts abc s" "\<And>r. up s r" "p \<in> set abc" "applyCh (nodes s p)"
  shows "reachable reads rewind_opts abc (setNode s p (applyReady ((nodes s p)\<lparr>applyCh := False\<rparr>)))"
  using reachable.step [OF assms(1) sys_step.apply_ready [OF assms(3,2,4)]] .

lemmas run_defs = send_def setNode_def

text \<open>\<open>a\<close> commits its first entry with \<open>b\<close>.\<close>

lemma run_first_commit:
  obtains s where "reachable reads rewind_opts abc s" "\<And>p. up s p" "holds (nodes s ''a'') [e0, e1] 0 1 0 New_jukebox"
    "peers_at (nodes s ''a'') 2 1 1 0" "applyCh (nodes s ''a'')" "holds (nodes s ''b'') [e0, e1] 0 0 0 New_jukebox" "nodes s ''c'' = start_node ''c''"
proof -
  obtain s where s: "reachable reads rewind_opts abc s" "\<And>p. up s p" "holds (nodes s ''a'') [e0, e1] 0 0 0 New_jukebox"
    "peers_at (nodes s ''a'') 1 0 1 0" "holds (nodes s ''b'') [e0] 0 0 0 New_jukebox" "nodes s ''c'' = start_node ''c''"
    using run_elected [of reads] by blast
  have pl: "placed ''a'' (nodes s ''a'')" "placed ''b'' (nodes s ''b'')" using placed_reachable [OF s(1)] by (simp_all add: abc_def)
  define ae where "ae = \<lparr>aeTerm = 1, aeLeaderId = nid (nodes s ''a''), PrevLogIndex = 0, PrevLogTerm = 0, aeEntries = [e1], LeaderCommit = 0\<rparr>"
  have "sendAppendEntries (nodes s ''a'') ''b'' = SendEntries ae"
    using s(3,4) by (simp add: sendAppendEntries_def holds_def peers_at_def mget_def termAt_def sliceFrom_def Let_def ae_def)
  note r1 = run_send [OF s(1,2) this]
  define s1 where "s1 = send s {AE ''a'' ''b'' ae}"
  obtain b1 where b1: "AppendEntries env0 (nodes s ''b'') ae = (b1, okay)" "holds b1 [e0, e1] 0 0 0 New_jukebox"
  proof (rule append_holds [of "nodes s ''b''" "[e0]" 0 0 0 New_jukebox "''b''" ae])
    show "req_ok ae" using r1(2) by simp
  qed (use s(5) pl(2) in \<open>auto simp: ae_def holds_def lastIndex_def lastTerm_def\<close>)
  define s2 where "s2 = send (setNode s1 ''b'' b1) {AER ''b'' ''a'' ae okay}"
  have r2: "reachable reads rewind_opts abc s2"
    unfolding s2_def by (rule run_deliver) (use r1(1) s(2) b1(1) in \<open>auto simp: s1_def run_defs\<close>)
  have n2: "nodes s2 ''a'' = nodes s ''a''" "up s2 = up s" by (simp_all add: s2_def s1_def run_defs)
  define a3 where "a3 = sendAppendEntries_reply (nodes s ''a'') ''b'' ae okay"
  have r3: "reachable reads rewind_opts abc (setNode s2 ''a'' a3)"
    unfolding a3_def n2(1) [symmetric] by (rule run_ack [OF r2]) (use s(2) n2 in \<open>auto simp: s2_def run_defs\<close>)
  have "a3 = (nodes s ''a'')\<lparr>matchIndex := (matchIndex (nodes s ''a''))(''b'' \<mapsto> 1), nextIndex := (nextIndex (nodes s ''a''))(''b'' \<mapsto> Suc 1),
      commitIndex := 1, applyCh := True\<rparr>"
    unfolding a3_def using s(3,4) pl(1)
    by (intro ack_holds [OF s(3)]) (auto simp: ae_def holds_def peers_at_def mget_def lastIndex_def termAt_def Let_def)
  then have "holds a3 [e0, e1] 0 1 0 New_jukebox" "peers_at a3 2 1 1 0" "applyCh a3"
    using s(3,4) by (simp_all add: holds_def peers_at_def numeral_2_eq_2)
  then show thesis
    using r3 s(2,6) b1(2) n2(2) by (intro that [of "setNode s2 ''a'' a3"]) (simp_all add: s2_def s1_def run_defs)
qed

text \<open>It takes the songs and ships them: \<open>b\<close> gets the first one, \<open>c\<close> the whole log.\<close>

definition ae_b :: AppendEntriesRequest where
  "ae_b = \<lparr>aeTerm = 1, aeLeaderId = ''a'', PrevLogIndex = 1, PrevLogTerm = 1, aeEntries = [e2], LeaderCommit = 1\<rparr>"

definition ae_c :: AppendEntriesRequest where
  "ae_c = \<lparr>aeTerm = 1, aeLeaderId = ''a'', PrevLogIndex = 0, PrevLogTerm = 0, aeEntries = [e1, e2, e3], LeaderCommit = 1\<rparr>"

lemma run_shipped:
  obtains s where "reachable reads rewind_opts abc s" "\<And>p. up s p" "holds (nodes s ''a'') [e0, e1, e2, e3] 0 1 0 New_jukebox"
    "peers_at (nodes s ''a'') 2 1 1 0" "holds (nodes s ''b'') [e0, e1] 0 0 0 New_jukebox" "nodes s ''c'' = start_node ''c''"
    "AE ''a'' ''b'' ae_b \<in> net s" "AE ''a'' ''c'' ae_c \<in> net s" "req_ok ae_b" "req_ok ae_c"
proof -
  obtain s where s: "reachable reads rewind_opts abc s" "\<And>p. up s p" "holds (nodes s ''a'') [e0, e1] 0 1 0 New_jukebox"
    "peers_at (nodes s ''a'') 2 1 1 0" "holds (nodes s ''b'') [e0, e1] 0 0 0 New_jukebox" "nodes s ''c'' = start_node ''c''"
    using run_first_commit [of reads] by blast
  have pl: "placed ''a'' (nodes u ''a'')" if "reachable reads rewind_opts abc u" for u using placed_reachable [OF that] by (simp add: abc_def)
  have rm: "room (nodes s ''a'')" "lastIndex (nodes s ''a'') = 1" using s(3) by (simp_all add: holds_def lastIndex_def room_small)
  define a1 where "a1 = fst (Propose (nodes s ''a'') (enqueue ''x''))"
  have a1: "holds a1 [e0, e1, e2] 0 1 0 New_jukebox" "peers_at a1 2 1 1 0"
    using propose_holds [OF s(3,4) pl [OF s(1)] rm(1), of "enqueue ''x''"] rm(2) by (simp_all add: a1_def numeral_2_eq_2)
  define s1 where "s1 = setNode s ''a'' a1"
  have r1: "reachable reads rewind_opts abc s1" unfolding s1_def a1_def using s(1,2) rm(1) by (rule run_propose)
  have n1: "nodes s1 ''a'' = a1" "up s1 p" for p using s(2) by (simp_all add: s1_def run_defs)
  have nid: "nid a1 = ''a''" using pl [OF r1] n1(1) by (simp add: placed_def member_ok_def)
  have "sendAppendEntries (nodes s1 ''a'') ''b'' = SendEntries ae_b"
    using a1 nid n1(1) by (simp add: sendAppendEntries_def holds_def peers_at_def mget_def termAt_def sliceFrom_def Let_def ae_b_def)
  note r2 = run_send [OF r1 n1(2) this]
  define s2 where "s2 = send s1 {AE ''a'' ''b'' ae_b}"
  have rm2: "room a1" "lastIndex a1 = 2" using a1(1) by (simp_all add: holds_def lastIndex_def room_small)
  define a3 where "a3 = fst (Propose a1 song_y)"
  have a3: "holds a3 [e0, e1, e2, e3] 0 1 0 New_jukebox" "peers_at a3 2 1 1 0"
    using propose_holds [OF a1, of song_y] pl [OF r1] n1(1) rm2 by (simp_all add: a3_def numeral_3_eq_3 numeral_2_eq_2)
  define s3 where "s3 = setNode s2 ''a'' a3"
  have "reachable reads rewind_opts abc s2" using r2(1) by (simp add: s2_def)
  then have r3: "reachable reads rewind_opts abc s3"
    using run_propose [of reads s2 song_y] n1 rm2(1) by (simp add: s3_def a3_def s2_def run_defs)
  have n3: "nodes s3 ''a'' = a3" "up s3 p" for p using n1(2) by (simp_all add: s3_def s2_def run_defs)
  have nid3: "nid a3 = ''a''" using pl [OF r3] n3(1) by (simp add: placed_def member_ok_def)
  have "sendAppendEntries (nodes s3 ''a'') ''c'' = SendEntries ae_c"
    using a3 nid3 n3(1) by (simp add: sendAppendEntries_def holds_def peers_at_def mget_def termAt_def sliceFrom_def Let_def ae_c_def)
  note r4 = run_send [OF r3 n3(2) this]
  show thesis
    using r4 r2(2) a3 s(5,6) n3 by (intro that [of "send s3 {AE ''a'' ''c'' ae_c}"]) (simp_all add: s3_def s2_def s1_def run_defs)
qed

text \<open>\<open>b\<close> acknowledges: \<open>a\<close> commits the first song, applies it, compacts its log and sends the snapshot to \<open>c\<close>.\<close>

definition is_c :: InstallSnapshotRequest where
  "is_c = \<lparr>isTerm = 1, isLeaderId = ''a'', LastIncludedIndex = 2, LastIncludedTerm = 1, isData = Snapshot_jukebox jx\<rparr>"

lemma run_compacted:
  obtains s where "reachable reads rewind_opts abc s" "\<And>p. up s p" "holds (nodes s ''a'') [base_at 2, e3] 2 2 2 jx"
    "peers_at (nodes s ''a'') 3 2 1 0" "nodes s ''c'' = start_node ''c''" "AE ''a'' ''c'' ae_c \<in> net s" "req_ok ae_c" "IS ''a'' ''c'' is_c \<in> net s"
proof -
  obtain s where s: "reachable reads rewind_opts abc s" "\<And>p. up s p" "holds (nodes s ''a'') [e0, e1, e2, e3] 0 1 0 New_jukebox"
    "peers_at (nodes s ''a'') 2 1 1 0" "holds (nodes s ''b'') [e0, e1] 0 0 0 New_jukebox" "nodes s ''c'' = start_node ''c''"
    "AE ''a'' ''b'' ae_b \<in> net s" "AE ''a'' ''c'' ae_c \<in> net s" "req_ok ae_b" "req_ok ae_c"
    using run_shipped [of reads] by blast
  have pl: "placed ''a'' (nodes u ''a'')" if "reachable reads rewind_opts abc u" for u using placed_reachable [OF that] by (simp add: abc_def)
  have plb: "placed ''b'' (nodes s ''b'')" using placed_reachable [OF s(1)] by (simp add: abc_def)
  obtain b1 where b1: "AppendEntries env0 (nodes s ''b'') ae_b = (b1, okay)"
    by (rule append_holds [of "nodes s ''b''" "[e0, e1]" 0 0 0 New_jukebox "''b''" ae_b])
      (use s(5,9) plb in \<open>auto simp: ae_b_def holds_def lastIndex_def lastTerm_def\<close>)
  define s1 where "s1 = send (setNode s ''b'' b1) {AER ''b'' ''a'' ae_b okay}"
  have r1: "reachable reads rewind_opts abc s1"
    unfolding s1_def by (rule run_deliver) (use s(1,2,7) b1(1) in auto)
  have n1: "nodes s1 ''a'' = nodes s ''a''" "up s1 p" for p using s(2) by (simp_all add: s1_def run_defs)
  define a2 where "a2 = sendAppendEntries_reply (nodes s ''a'') ''b'' ae_b okay"
  define s2 where "s2 = setNode s1 ''a'' a2"
  have r2: "reachable reads rewind_opts abc s2"
    unfolding s2_def a2_def n1(1) [symmetric] by (rule run_ack [OF r1]) (use n1 in \<open>auto simp: s1_def run_defs\<close>)
  have "a2 = (nodes s ''a'')\<lparr>matchIndex := (matchIndex (nodes s ''a''))(''b'' \<mapsto> 2), nextIndex := (nextIndex (nodes s ''a''))(''b'' \<mapsto> Suc 2),
      commitIndex := 2, applyCh := True\<rparr>"
    unfolding a2_def using s(3,4) pl [OF s(1)]
    by (intro ack_holds [OF s(3)]) (auto simp: ae_b_def holds_def peers_at_def mget_def lastIndex_def termAt_def Let_def)
  then have a2: "holds a2 [e0, e1, e2, e3] 0 2 0 New_jukebox" "peers_at a2 3 2 1 0" "applyCh a2"
    using s(3,4) by (simp_all add: holds_def peers_at_def numeral_3_eq_3 numeral_2_eq_2)
  have n2: "nodes s2 ''a'' = a2" "up s2 p" for p using n1 by (simp_all add: s2_def run_defs)
  define a3 where "a3 = applyReady (a2\<lparr>applyCh := False\<rparr>)"
  define s3 where "s3 = setNode s2 ''a'' a3"
  have r3: "reachable reads rewind_opts abc s3"
    unfolding s3_def a3_def n2(1) [symmetric] by (rule run_apply [OF r2]) (use n2 a2 in \<open>auto simp: abc_def\<close>)
  note ap = apply_holds [OF a2(1), of "''a''", folded a3_def]
  have pl2: "placed ''a'' a2" using pl [OF r2] n2(1) by simp
  have li: "lastIndex a2 = 3" using a2(1) by (simp add: holds_def lastIndex_def)
  have "applied [e0, e1, e2, e3] 0 0 2 New_jukebox = jx" by (rule applied_logs)
  moreover have "[e0, e1, e2, e3] ! (2 - 0) = e2" "drop (Suc 2 - 0) [e0, e1, e2, e3] = [e3]" by (simp_all add: numeral_2_eq_2)
  ultimately have h3: "holds a3 [base_at 2, e3] 2 2 2 jx" "snapshotTerm a3 = 1" "snapshotData a3 = Snapshot_jukebox jx"
    using ap(5) [OF pl2] li by (simp_all del: One_nat_def)
  have p3: "peers_at a3 3 2 1 0" using ap(1-3) [OF pl2] a2(2) li by (simp add: peers_at_def)
  have n3: "nodes s3 ''a'' = a3" "up s3 p" for p using n2 by (simp_all add: s3_def run_defs)
  have m3: "member_ok abc ''a'' a3" using pl [OF r3] n3(1) by (simp add: placed_def)
  have snap: "sendSnapshot a3 1 = Some is_c" using h3 p3 m3 by (simp add: sendSnapshot_def is_c_def holds_def peers_at_def member_ok_def)
  have "reachable reads rewind_opts abc (send s3 {IS ''a'' ''c'' is_c})"
    using reachable.step [OF r3 sys_step.send_snapshot [where p = "''a''" and q = "''c''" and t = 1]] n3 snap m3 by (simp add: abc_def member_ok_def)
  then show thesis
    using h3 p3 n3 s(6,8,10) by (intro that [of "send s3 {IS ''a'' ''c'' is_c}"]) (simp_all add: s3_def s2_def s1_def run_defs)
qed

text \<open>\<open>c\<close> takes the log, applies the first entry and compacts there; its acknowledgement commits the second song.\<close>

lemma run_received:
  obtains s where "reachable reads rewind_opts abc s" "\<And>p. up s p" "holds (nodes s ''a'') [base_at 2, e3] 2 3 2 jx"
    "peers_at (nodes s ''a'') 3 2 4 3" "applyCh (nodes s ''a'')" "holds (nodes s ''c'') [base_at 1, e2, e3] 1 1 1 New_jukebox"
    "IS ''a'' ''c'' is_c \<in> net s"
proof -
  obtain s where s: "reachable reads rewind_opts abc s" "\<And>p. up s p" "holds (nodes s ''a'') [base_at 2, e3] 2 2 2 jx"
    "peers_at (nodes s ''a'') 3 2 1 0" "nodes s ''c'' = start_node ''c''" "AE ''a'' ''c'' ae_c \<in> net s" "req_ok ae_c" "IS ''a'' ''c'' is_c \<in> net s"
    using run_compacted [of reads] by blast
  have pl: "placed p (nodes u p)" if "reachable reads rewind_opts abc u" "p \<in> {''a'', ''c''}" for u p
    using placed_reachable [OF that(1), of p] that(2) by (auto simp: abc_def)
  have st: "lastIndex (start_node ''c'') = 0" "lastTerm (start_node ''c'') = 0" by (simp_all add: lastIndex_def lastTerm_def start_fields)
  obtain c1 where c1: "AppendEntries env0 (nodes s ''c'') ae_c = (c1, okay)"
    "holds c1 [e0, e1, e2, e3] 0 (min 1 (lastIndex c1)) 0 New_jukebox" "applyCh c1"
  proof (rule append_holds [of "nodes s ''c''" "[e0]" 0 0 0 New_jukebox "''c''" ae_c])
    show "holds (nodes s ''c'') [e0] 0 0 0 New_jukebox \<or> holds (nodes s ''c''\<lparr>currentTerm := 1\<rparr>) [e0] 0 0 0 New_jukebox \<and> currentTerm (nodes s ''c'') \<le> 1"
      using s(5) by (simp add: holds_def start_fields)
  qed (use s(5,7) pl [OF s(1), of "''c''"] st in \<open>auto simp: ae_c_def\<close>)
  have l1: "lastIndex c1 = 3" using c1(2) by (simp add: holds_def lastIndex_def)
  have c1h: "holds c1 [e0, e1, e2, e3] 0 1 0 New_jukebox" using c1(2) l1 by simp
  define s1 where "s1 = send (setNode s ''c'' c1) {AER ''c'' ''a'' ae_c okay}"
  have r1: "reachable reads rewind_opts abc s1"
    unfolding s1_def by (rule run_deliver) (use s(1,2,6) c1(1) in auto)
  have n1: "nodes s1 ''a'' = nodes s ''a''" "nodes s1 ''c'' = c1" "up s1 p" for p using s(2) by (simp_all add: s1_def run_defs)
  define c2 where "c2 = applyReady (c1\<lparr>applyCh := False\<rparr>)"
  define s2 where "s2 = setNode s1 ''c'' c2"
  have r2: "reachable reads rewind_opts abc s2"
    unfolding s2_def c2_def n1(2) [symmetric] by (rule run_apply [OF r1]) (use n1 c1(3) in \<open>auto simp: abc_def\<close>)
  have plc: "placed ''c'' c1" using pl [OF r1, of "''c''"] n1(2) by simp
  have "applied [e0, e1, e2, e3] 0 0 1 New_jukebox = New_jukebox" by (rule applied_logs)
  moreover have "[e0, e1, e2, e3] ! (1 - 0) = e1" "drop (Suc 1 - 0) [e0, e1, e2, e3] = [e2, e3]" by simp_all
  ultimately have c2: "holds c2 [base_at 1, e2, e3] 1 1 1 New_jukebox"
    using apply_holds(5) [OF c1h plc, folded c2_def] l1 by (simp del: One_nat_def)
  have n2: "nodes s2 ''a'' = nodes s ''a''" "nodes s2 ''c'' = c2" "up s2 p" for p using n1 by (simp_all add: s2_def run_defs)
  define a3 where "a3 = sendAppendEntries_reply (nodes s ''a'') ''c'' ae_c okay"
  define s3 where "s3 = setNode s2 ''a'' a3"
  have r3: "reachable reads rewind_opts abc s3"
    unfolding s3_def a3_def n2(1) [symmetric] by (rule run_ack [OF r2]) (use n2 in \<open>auto simp: s2_def s1_def run_defs\<close>)
  have "a3 = (nodes s ''a'')\<lparr>matchIndex := (matchIndex (nodes s ''a''))(''c'' \<mapsto> 3), nextIndex := (nextIndex (nodes s ''a''))(''c'' \<mapsto> Suc 3),
      commitIndex := 3, applyCh := True\<rparr>"
    unfolding a3_def using s(3,4) pl [OF s(1), of "''a''"]
    by (intro ack_holds [OF s(3)]) (auto simp: ae_c_def holds_def peers_at_def mget_def lastIndex_def termAt_def Let_def)
  then have "holds a3 [base_at 2, e3] 2 3 2 jx" "peers_at a3 3 2 4 3" "applyCh a3"
    using s(3,4) by (simp_all add: holds_def peers_at_def numeral_3_eq_3 numeral_2_eq_2)
  then show thesis
    using r3 n2 c2 s(8) by (intro that [of s3]) (simp_all add: s3_def s2_def s1_def run_defs)
qed

text \<open>The next heartbeat tells \<open>c\<close>, which applies both songs.\<close>

definition ae_h :: AppendEntriesRequest where
  "ae_h = \<lparr>aeTerm = 1, aeLeaderId = ''a'', PrevLogIndex = 3, PrevLogTerm = 1, aeEntries = [], LeaderCommit = 3\<rparr>"

lemma run_caught_up:
  obtains s where "reachable reads rewind_opts abc s" "\<And>p. up s p" "holds (nodes s ''a'') [base_at 2, e3] 2 3 2 jx"
    "applyCh (nodes s ''a'')" "holds (nodes s ''c'') [base_at 1, e2, e3] 1 3 3 jxy" "IS ''a'' ''c'' is_c \<in> net s"
proof -
  obtain s where s: "reachable reads rewind_opts abc s" "\<And>p. up s p" "holds (nodes s ''a'') [base_at 2, e3] 2 3 2 jx"
    "peers_at (nodes s ''a'') 3 2 4 3" "applyCh (nodes s ''a'')" "holds (nodes s ''c'') [base_at 1, e2, e3] 1 1 1 New_jukebox"
    "IS ''a'' ''c'' is_c \<in> net s"
    using run_received [of reads] by blast
  have pl: "placed p (nodes u p)" if "reachable reads rewind_opts abc u" "p \<in> {''a'', ''c''}" for u p
    using placed_reachable [OF that(1), of p] that(2) by (auto simp: abc_def)
  have nid: "nid (nodes s ''a'') = ''a''" using pl [OF s(1), of "''a''"] by (simp add: placed_def member_ok_def)
  have "sendAppendEntries (nodes s ''a'') ''c'' = SendEntries ae_h"
    using s(3,4) nid by (simp add: sendAppendEntries_def holds_def peers_at_def mget_def termAt_def sliceFrom_def Let_def ae_h_def)
  note r1 = run_send [OF s(1,2) this]
  define s1 where "s1 = send s {AE ''a'' ''c'' ae_h}"
  obtain c1 where c1: "AppendEntries env0 (nodes s ''c'') ae_h = (c1, okay)"
    "holds c1 [base_at 1, e2, e3] 1 (min 3 (lastIndex c1)) 1 New_jukebox" "applyCh c1"
  proof (rule append_holds [of "nodes s ''c''" "[base_at 1, e2, e3]" 1 1 1 New_jukebox "''c''" ae_h])
    show "req_ok ae_h" using r1(2) by simp
  qed (use s(6) pl [OF s(1), of "''c''"] in \<open>auto simp: ae_h_def holds_def lastIndex_def lastTerm_def\<close>)
  have l1: "lastIndex c1 = 3" using c1(2) by (simp add: holds_def lastIndex_def)
  have c1h: "holds c1 [base_at 1, e2, e3] 1 3 1 New_jukebox" using c1(2) l1 by simp
  define s2 where "s2 = send (setNode s1 ''c'' c1) {AER ''c'' ''a'' ae_h okay}"
  have r2: "reachable reads rewind_opts abc s2"
    unfolding s2_def by (rule run_deliver) (use r1(1) s(2) c1(1) in \<open>auto simp: s1_def run_defs\<close>)
  have n2: "nodes s2 ''a'' = nodes s ''a''" "nodes s2 ''c'' = c1" "up s2 p" for p using s(2) by (simp_all add: s2_def s1_def run_defs)
  define c3 where "c3 = applyReady (c1\<lparr>applyCh := False\<rparr>)"
  define s3 where "s3 = setNode s2 ''c'' c3"
  have r3: "reachable reads rewind_opts abc s3"
    unfolding s3_def c3_def n2(2) [symmetric] by (rule run_apply [OF r2]) (use n2 c1(3) in \<open>auto simp: abc_def\<close>)
  have plc: "placed ''c'' c1" using pl [OF r2, of "''c''"] n2(2) by simp
  have "applied [base_at 1, e2, e3] 1 1 3 New_jukebox = jxy" by (rule applied_logs)
  then have "holds c3 [base_at 1, e2, e3] 1 3 3 jxy"
    using apply_holds(4) [OF c1h plc, folded c3_def] l1 by (simp del: One_nat_def)
  then show thesis
    using r3 s(3,5,7) n2 by (intro that [of s3]) (simp_all add: s3_def s2_def s1_def run_defs)
qed

section \<open>The divergence\<close>


end
