(* ===== verification/LostWaiter.thy ===== *)
theory LostWaiter
  imports SnapshotRewind
begin

text \<open>
  A caller that gives up can take the answer of another one.  When its context is done, \<open>Submit\<close>
  deletes the waiter registered at its index, whoever registered it; after two changes of leadership
  this may be the waiter of a later call at the same index, which is then never answered.
\<close>

section \<open>A channel without a waiter stays empty\<close>

definition lost :: "nat \<Rightarrow> ('s, 'm) Node \<Rightarrow> bool" where
  "lost c n \<longleftrightarrow> c < nextChan n \<and> chans n c = None \<and> unawaited n c"

lemma quiet_lost: "quiet n n' \<Longrightarrow> lost c n \<Longrightarrow> lost c n'"
  unfolding quiet_def lost_def unawaited_def by (elim conjE disjE) simp_all

lemma lost_send:
  assumes "lost c n" "wait_ok n" "fmlookup (pending n) i = Some w"
  shows "lost c ((chan_send n (w_ch w) v)\<lparr>pending := fmdrop i (pending n)\<rparr>)"
  using assms by (auto simp: wait_ok_send(2) lost_def unawaited_def)

lemma lost_drop: "lost c n \<Longrightarrow> wait_ok n \<Longrightarrow> lost c (drop_pending chan_send err i n)"
  by (simp add: drop_pending_def Let_def lost_send split: option.split)

lemma lost_fold: "lost c n \<Longrightarrow> wait_ok n \<Longrightarrow> lost c (fold (drop_pending chan_send err) ks n)"
  by (induction ks arbitrary: n) (auto intro: lost_drop wait_ok_drop)

lemma lost_Stop: "lost c n \<Longrightarrow> wait_ok n \<Longrightarrow> lost c (Stop n)"
proof -
  assume n: "lost c n" "wait_ok n"
  define n1 where "n1 = cancelLeaderCtx (if stopped n then n\<lparr>running := False, fault := Some Panic\<rparr>
     else n\<lparr>running := False, stopped := True\<rparr>)"
  have "wait_ok n1" using quiet_wait_ok [OF _ n(2), of n1] by (simp add: n1_def cancelLeaderCtx_conv quiet_def)
  moreover have "lost c n1" using n(1) by (simp add: lost_def unawaited_def n1_def cancelLeaderCtx_conv)
  ultimately have "lost c (fold (drop_pending chan_send ErrStopped) (keys_sorted (pending n1)) n1)" by (intro lost_fold)
  then show ?thesis using n(1) by (simp add: Stop_def Let_def n1_def split: if_splits)
qed

lemma lost_applyOne: "lost c n \<Longrightarrow> wait_ok n \<Longrightarrow> lost c (applyOne n)"
  by (auto simp: applyOne_def deliver_def Let_def case_prod_beta chan_send_def lost_def unawaited_def wait_ok_def pend_ok_def split: option.split)

lemma lost_applyAll: "lost c n \<Longrightarrow> wait_ok n \<Longrightarrow> lost c (applyAll n)"
proof (induction n rule: applyAll.induct)
  case (1 n)
  then show ?case by (subst applyAll.simps) (auto intro: lost_applyOne wait_ok_applyOne)
qed

lemma lost_Submit: "lost c n \<Longrightarrow> lost c (fst (Submit n x))"
  by (auto simp: Submit_def appendOwn_conv go_defs Let_def lost_def unawaited_def)

lemma lost_wake: "lost c n \<Longrightarrow> Submit_wake n i d wk = Some (n', r) \<Longrightarrow> lost c n'"
  by (auto simp: Submit_wake_def lost_def unawaited_def split: submitWake.splits option.splits if_splits) blast+

lemma lost_node_step: "node_step n n' \<Longrightarrow> log_ok n \<Longrightarrow> wait_ok n \<Longrightarrow> lost c n \<Longrightarrow> lost c n'"
proof (induction rule: node_step.induct)
  case (campaign n e b li lt w)
  then show ?case by (simp add: campaign_finish_def quiet_lost [OF quiet_startReal])
next
  case (confirm_reply n t aer)
  then show ?case by (simp add: confirmLeadership_reply_def quiet_lost [OF quiet_stepDown])
next
  case (apply_ready n)
  then show ?case by (simp add: applyReady_def Let_def quiet_lost [OF quiet_maybeSnapshot] lost_applyAll)
next
  case (start n e)
  have "quiet n (Start e n)" by (simp add: Start_def Let_def quiet_def go_defs)
  then show ?case using start quiet_lost by blast
next
  case (take_signal n)
  have "quiet n (n\<lparr>applyCh := False\<rparr>)" by (simp add: quiet_def)
  then show ?case using take_signal quiet_lost by blast
next
  case (take_task n g)
  then show ?case by (simp add: quiet_lost [OF quiet_goroutines])
qed (simp_all add: quiet_lost [OF quiet_tick] quiet_lost [OF quiet_RequestVote] quiet_lost [OF quiet_vote_reply]
    quiet_lost [OF quiet_AppendEntries] quiet_lost [OF quiet_append_reply] quiet_lost [OF quiet_InstallSnapshot]
    quiet_lost [OF quiet_snapshot_reply] quiet_lost [OF quiet_Propose] lost_Submit lost_wake lost_Stop)

lemma lost_for_good: "node_step\<^sup>*\<^sup>* n n' \<Longrightarrow> member_ok ids p n \<Longrightarrow> lost c n \<Longrightarrow> lost c n'"
proof (induction rule: rtranclp_induct)
  case (step m n')
  have "log_ok m" "wait_ok m" using member_ok_steps [OF step(1,4)] by (simp_all add: member_ok_def)
  then show ?case using lost_node_step [OF step(2)] step(3-5) by simp
qed simp

section \<open>A server that is elected twice\<close>

definition stands :: "(MemStore, State) Node \<Rightarrow> Role \<Rightarrow> uint64 \<Rightarrow> LogEntry list \<Rightarrow> (uint64, waiter) fmap \<Rightarrow> nat \<Rightarrow> bool" where
  "stands n r t es ws c \<longleftrightarrow> role n = r \<and> currentTerm n = t \<and> entries n = es \<and> snapshotIndex n = 0 \<and> commitIndex n = 0 \<and>
     lastApplied n = 0 \<and> pending n = ws \<and> nextChan n = c \<and> sm n = New_jukebox \<and> fault n = None"

definition solo :: "(MemStore, State) Node \<Rightarrow> bool" where
  "solo n \<longleftrightarrow> member_ok abc ''a'' n \<and> cfg n = cfg3 ''a''"

lemma cfg3_facts: "\<not> preVoteEnabled (cfg3 p)" "timer_ok (cfg3 p)" "SnapshotThreshold (cfg3 p) = 1000"
  by (simp_all add: cfg3_def preVoteEnabled_def timer_ok_def Millisecond_def)

definition unmatched :: "(MemStore, State) Node \<Rightarrow> bool" where
  "unmatched n \<longleftrightarrow> matchIndex n ''b'' = Some 0 \<and> matchIndex n ''c'' = Some 0"

lemma solo_steps: "node_step\<^sup>*\<^sup>* n n' \<Longrightarrow> solo n \<Longrightarrow> solo n'"
  using member_ok_steps [of n n'] node_steps_cfg [of n n'] by (auto simp: solo_def)

lemma solo_fields: "solo n \<Longrightarrow> log_ok n \<and> set (peers n) = {''b'', ''c''} \<and> quorum n = 2"
  by (auto simp: solo_def member_ok_def abc_def)

lemma stands_last: "stands n r t es ws c \<Longrightarrow> solo n \<Longrightarrow> Suc (lastIndex n) = length es"
  using lastIndex_Suc [of n] solo_fields [of n] by (simp add: stands_def)

lemma elected_again:
  assumes "stands n Follower t es ws c" "solo n" "t < 9" "length es < 9"
  obtains n' where "node_step\<^sup>*\<^sup>* n n'" "stands n' Leader (Suc t) (es @ [\<lparr>Term = Suc t, Index = length es, Cmd = noopCommand\<rparr>]) ws c"
    "unmatched n'" "chans n' = chans n"
proof
  have small: "t + 1 < two64" "length es + 2 < two64" using assms(3,4) by (simp_all add: two64_def)
  define n1 where "n1 = electionTick (late n) n"
  define n2 where "n2 = fst (gatherVotes_reply n1 newRound (Suc t) False \<lparr>rvrTerm = Suc t, VoteGranted = True\<rparr>)"
  note so = solo_fields [OF assms(2)] and la = stands_last [OF assms(1,2)]
  have n1: "n1 = (electing (late n) (canvassing (late n) n))\<lparr>goroutines := goroutines n @ [GatherVotes (Suc t) (lastIndex n) (lastTerm n) False]\<rparr>"
    using assms small so
    by (simp add: n1_def electionTick_def late_def beginCampaign_conv startRealElection_conv solo_def cfg3_facts stands_def canvassing_fields split: option.split)
  have f1: "role n1 \<noteq> Leader" "log_ok n1" "room n1" "quorum n1 = 2" "currentTerm n1 = Suc t" "peers n1 = peers n"
    using assms small so la by (simp_all add: n1 room_def lastIndex_def stands_def)
  have n2: "n2 = becomeLeaderLocked n1"
    using f1 by (simp add: n2_def gatherVotes_reply_def Let_def newRound_def n1)
  show "node_step\<^sup>*\<^sup>* n n2"
  proof -
    have "node_step n n1" unfolding n1_def using assms small la by (intro node_step.tick) (simp_all add: room_def term_room_def stands_def)
    moreover have "node_step n1 n2" unfolding n2_def by (rule node_step.vote_reply [OF f1(3)])
    ultimately show ?thesis by (meson converse_rtranclp_into_rtranclp r_into_rtranclp)
  qed
  note b = becomeLeader_crowned [OF f1(1-5), folded n2]
  have l1: "lastIndex n1 = lastIndex n" "entries n1 = es" by (simp_all add: n1 lastIndex_def assms(1) [unfolded stands_def])
  have "timer_ok (cfg n)" using assms(2) by (simp add: solo_def cfg3_facts)
  then have c1: "pending n1 = ws" "nextChan n1 = c" "snapshotIndex n1 = 0" "commitIndex n1 = 0" "lastApplied n1 = 0" "sm n1 = New_jukebox"
    "fault n1 = None"
    using assms(1) by (simp_all add: n1 stands_def) (simp_all add: electing_def canvassing_def go_defs)
  have "pending (becomeLeaderLocked n1) = pending n1" "nextChan (becomeLeaderLocked n1) = nextChan n1"
    "snapshotIndex (becomeLeaderLocked n1) = snapshotIndex n1"
    by (simp_all add: becomeLeaderLocked_def appendOwn_conv go_defs Let_def)
  then show "stands n2 Leader (Suc t) (es @ [\<lparr>Term = Suc t, Index = length es, Cmd = noopCommand\<rparr>]) ws c"
    using b c1 la l1 by (simp add: stands_def n2)
  show "chans n2 = chans n"
    by (simp add: n2 becomeLeaderLocked_def appendOwn_conv go_defs Let_def) (simp add: n1 electing_def canvassing_def go_defs)
  show "unmatched n2" using b(8) f1(6) so by (simp add: unmatched_def)
qed

lemma submitted:
  assumes "stands n Leader t es ws c" "solo n" "unmatched n" "length es < 9"
  shows "node_step n (fst (Submit n x))" "snd (Submit n x) = Inr (length es, c)" "unmatched (fst (Submit n x))"
    "chans (fst (Submit n x)) = (chans n)(c := None)"
    "stands (fst (Submit n x)) Leader t (es @ [\<lparr>Term = t, Index = length es, Cmd = x\<rparr>]) (fmupd (length es) \<lparr>w_term = t, w_ch = c\<rparr> ws) (Suc c)"
proof -
  note so = solo_fields [OF assms(2)] and la = stands_last [OF assms(1,2)]
  have small: "length es + 2 < two64" using assms(4) by (simp add: two64_def)
  show "node_step n (fst (Submit n x))" using small la by (intro node_step.submit) (simp add: room_def)
  have own: "ownEntry n x = \<lparr>Term = t, Index = length es, Cmd = x\<rparr>" using assms(1) small la by (simp add: ownEntry_def stands_def)
  define m where "m = (fst (appendOwn n x))\<lparr>nextChan := Suc c, chans := (chans n)(c := None),
      pending := fmupd (length es) \<lparr>w_term = t, w_ch = c\<rparr> ws\<rparr>"
  have "advanceCommitLocked m = m"
  proof (rule advance_idle)
    have f: "set (peers m) = {''b'', ''c''}" "mget (matchIndex m) ''b'' = 0" "mget (matchIndex m) ''c'' = 0"
      using so assms(3) by (simp_all add: m_def appendOwn_conv unmatched_def mget_def)
    show "quorum m = 2" using so by (simp add: m_def appendOwn_conv)
    show "mget (matchIndex m) r \<le> commitIndex m" if "r \<in> set (peers m)" for r using that unfolding f by (auto simp: f)
  qed
  then have s: "Submit n x = (triggerReplication m, Inr (length es, c))"
    using assms(1) by (simp add: Submit_def appendOwn_conv own m_def stands_def Let_def)
  show "snd (Submit n x) = Inr (length es, c)" "unmatched (fst (Submit n x))"
    "chans (fst (Submit n x)) = (chans n)(c := None)"
    "stands (fst (Submit n x)) Leader t (es @ [\<lparr>Term = t, Index = length es, Cmd = x\<rparr>]) (fmupd (length es) \<lparr>w_term = t, w_ch = c\<rparr> ws) (Suc c)"
    using assms(1,3) by (simp_all add: s triggerReplication_conv m_def appendOwn_conv own stands_def unmatched_def)
qed

text \<open>Another leader overwrites the log and every caller is told that the leadership was lost.\<close>

definition ae_b2 :: AppendEntriesRequest where
  "ae_b2 = \<lparr>aeTerm = 2, aeLeaderId = ''b'', PrevLogIndex = 0, PrevLogTerm = 0,
     aeEntries = [\<lparr>Term = 2, Index = 1, Cmd = noopCommand\<rparr>], LeaderCommit = 0\<rparr>"

lemma deposed:
  assumes "stands n Leader 1 (e0 # e1 # es) ws c" "solo n"
  shows "node_step n (fst (AppendEntries env0 n ae_b2))"
    "stands (fst (AppendEntries env0 n ae_b2)) Follower 2 [e0, \<lparr>Term = 2, Index = 1, Cmd = noopCommand\<rparr>] fmempty c"
    "chans (fst (AppendEntries env0 n ae_b2)) = fail_chans ErrLostLeadership n"
proof -
  have ok: "req_ok ae_b2" by (simp add: req_ok_def ae_b2_def two64_def)
  then show "node_step n (fst (AppendEntries env0 n ae_b2))" by (rule node_step.append_entries)
  have lok: "log_ok n" "timer_ok (cfg n)" using assms(2) solo_fields by (auto simp: solo_def cfg3_facts)
  have f: "entries n = e0 # e1 # es" "snapshotIndex n = 0" "currentTerm n = 1" using assms(1) by (simp_all add: stands_def)
  have acc: "accepts n ae_b2" using f by (simp add: accepts_def ae_b2_def termAt_def Let_def)
  have m: "mergeLog n (aeEntries ae_b2) = [e0, \<lparr>Term = 2, Index = 1, Cmd = noopCommand\<rparr>]"
    using f by (simp add: mergeLog_def missing_def present_def ae_b2_def termAt_def Let_def)
  define h where "h = heard env0 n (aeTerm ae_b2) (aeLeaderId ae_b2)"
  have h: "role h = Follower" "currentTerm h = 2" "snapshotIndex h = 0" "commitIndex h = 0" "lastApplied h = 0" "pending h = fmempty"
    "nextChan h = c" "sm h = New_jukebox" "fault h = None" "chans h = fail_chans ErrLostLeadership n"
    using assms(1) lok(2) by (simp_all add: h_def heard_def ae_b2_def go_defs stands_def)
  show "stands (fst (AppendEntries env0 n ae_b2)) Follower 2 [e0, \<lparr>Term = 2, Index = 1, Cmd = noopCommand\<rparr>] fmempty c"
    "chans (fst (AppendEntries env0 n ae_b2)) = fail_chans ErrLostLeadership n"
    unfolding AppendEntries_accept [OF lok(1) ok acc h_def] m using h by (simp_all add: commitTo_conv stands_def ae_b2_def)
qed

text \<open>The leader's whole log is acknowledged and applied.\<close>

lemma all_applied:
  assumes "stands n Leader 3 [e0, x, y, z] ws c" "solo n" "unmatched n" "Term z = 3"
  obtains n' where "node_step\<^sup>*\<^sup>* n n'" "lastApplied n' = 3" "sm n' = replay Jukebox_SM New_jukebox [Cmd x, Cmd y, Cmd z]"
proof
  define ae where "ae = \<lparr>aeTerm = 3, aeLeaderId = ''a'', PrevLogIndex = 0, PrevLogTerm = 0, aeEntries = [x, y, z], LeaderCommit = 0\<rparr>"
  define m where "m = sendAppendEntries_reply n ''b'' ae \<lparr>aerTerm = currentTerm n, Success = True, ConflictIndex = 0, ConflictTerm = 0\<rparr>"
  note so = solo_fields [OF assms(2)]
  have n: "role n = Leader" "currentTerm n = 3" "entries n = [e0, x, y, z]" "snapshotIndex n = 0" "commitIndex n = 0" "lastApplied n = 0"
    "sm n = New_jukebox" "fault n = None" using assms(1) by (simp_all add: stands_def)
  have li: "lastIndex n = 3" using stands_last [OF assms(1,2)] by simp
  have lt: "lastTerm n = currentTerm n" using n assms(4) by (simp add: lastTerm_def)
  have r: "commitIndex m = 3" "entries m = [e0, x, y, z]" "lastApplied m = 0" "sm m = New_jukebox" "fixed n m"
    using reply_commits [of n "''b''" ae, folded m_def] so assms(3) n li lt by (simp_all add: ae_def unmatched_def)
  have s1: "node_step n m" unfolding m_def by (rule node_step.append_reply)
  then have "solo m" using solo_steps assms(2) by blast
  then have mem: "member_ok abc ''a'' m" and th: "SnapshotThreshold (cfg m) = 1000" by (simp_all add: solo_def cfg3_facts)
  have sn: "snapshotIndex m = 0" "fault m = None"
    using n by (simp_all add: m_def sendAppendEntries_reply_def Let_def advanceCommit_conv)
  have lm: "lastIndex m = 3" using lastIndex_Suc [of m] mem r(2) sn by (simp add: member_ok_def)
  have "apply_ok m" using mem r sn lm by (auto simp: apply_ok_def member_ok_def)
  note all = applyAll_spec [OF this]
  have "unapplied m = [x, y, z]" using r sn by (simp add: unapplied_def eval_nat_numeral)
  moreover have "maybeSnapshotLocked (applyAll m) = applyAll m" using r(2) th by (simp add: maybeSnapshotLocked_def)
  ultimately show "lastApplied (applyReady m) = 3" "sm (applyReady m) = replay Jukebox_SM New_jukebox [Cmd x, Cmd y, Cmd z]"
    using all r mem by (simp_all add: applyReady_def Let_def member_ok_def)
  show "node_step\<^sup>*\<^sup>* n (applyReady m)" using s1 node_step.apply_ready [of m] by (meson converse_rtranclp_into_rtranclp r_into_rtranclp)
qed

lemma fresh_stands: "stands (fresh ''a'') Follower 0 [e0] fmempty 0" "solo (fresh ''a'')"
  using booted_persisted [OF fresh_booted, of "''a''"]
  by (simp_all add: fresh_eq blank_def stands_def solo_def member_ok_def abc_def wait_ok_def pend_ok_def)

section \<open>The lost answer\<close>

text \<open>Two callers wait at indices 2 and 3 when the leadership is lost; the second one is told on channel 1.\<close>

lemma second_told:
  assumes "pending n = fmupd 3 \<lparr>w_term = 1, w_ch = 1\<rparr> (fmupd 2 \<lparr>w_term = 1, w_ch = 0\<rparr> fmempty)" "chans n 1 = None"
  shows "fail_chans e n 1 = Some \<lparr>pr_result = NoBytes, pr_err = Some e\<rparr>"
proof -
  have "keys_sorted (pending n) = [2, 3]" by (rule keys_sorted_eqI) (auto simp: assms(1))
  then show ?thesis using assms by (simp add: fail_chans_def failPending_def drop_pending_chan)
qed

lemma called_twice:
  obtains n1 n2 where "node_step\<^sup>*\<^sup>* (fresh ''a'') n1" "snd (Submit n1 (enqueue ''y'')) = Inr (3, 1)"
    "node_step\<^sup>*\<^sup>* (fst (Submit n1 (enqueue ''y''))) n2" "solo n2" "unmatched n2"
    "stands n2 Leader 3 [e0, \<lparr>Term = 2, Index = 1, Cmd = noopCommand\<rparr>, \<lparr>Term = 3, Index = 2, Cmd = noopCommand\<rparr>] fmempty 2"
    "chans n2 1 = Some \<lparr>pr_result = NoBytes, pr_err = Some ErrLostLeadership\<rparr>"
proof -
  obtain m1 where m1: "node_step\<^sup>*\<^sup>* (fresh ''a'') m1" "stands m1 Leader 1 [e0, e1] fmempty 0" "unmatched m1"
    by (rule elected_again [OF fresh_stands]) simp_all
  have so1: "solo m1" using solo_steps [OF m1(1) fresh_stands(2)] .
  define n1 where "n1 = fst (Submit m1 (enqueue ''x''))"
  have s1: "node_step m1 n1" "unmatched n1" "stands n1 Leader 1 [e0, e1, e2] (fmupd 2 \<lparr>w_term = 1, w_ch = 0\<rparr> fmempty) 1"
    using submitted [OF m1(2) so1 m1(3), of "enqueue ''x''"] by (simp_all add: n1_def numeral_2_eq_2)
  have r1: "node_step\<^sup>*\<^sup>* (fresh ''a'') n1" using m1(1) s1(1) by simp
  have so2: "solo n1" using solo_steps [OF r1 fresh_stands(2)] .
  define m2 where "m2 = fst (Submit n1 (enqueue ''y''))"
  let ?ws = "fmupd 3 \<lparr>w_term = 1, w_ch = 1\<rparr> (fmupd 2 \<lparr>w_term = 1, w_ch = 0\<rparr> fmempty)"
  have s2: "node_step n1 m2" "snd (Submit n1 (enqueue ''y'')) = Inr (3, 1)" "chans m2 = (chans n1)(1 := None)"
    "stands m2 Leader 1 (e0 # e1 # [e2, \<lparr>Term = 1, Index = 3, Cmd = enqueue ''y''\<rparr>]) ?ws 2"
    using submitted [OF s1(3) so2 s1(2), of "enqueue ''y''"] by (simp_all add: m2_def numeral_3_eq_3 numeral_2_eq_2)
  have so3: "solo m2" using solo_steps [OF r_into_rtranclp so2] s2(1) .
  define m3 where "m3 = fst (AppendEntries env0 m2 ae_b2)"
  note d = deposed [OF s2(4) so3, folded m3_def]
  have "pending m2 = ?ws" using s2(4) by (simp add: stands_def)
  then have c3: "chans m3 1 = Some \<lparr>pr_result = NoBytes, pr_err = Some ErrLostLeadership\<rparr>"
    unfolding d(3) using s2(3) by (intro second_told) simp_all
  have so4: "solo m3" using solo_steps [OF r_into_rtranclp so3] d(1) .
  obtain n2 where n2: "node_step\<^sup>*\<^sup>* m3 n2" "unmatched n2" "chans n2 = chans m3"
    "stands n2 Leader 3 [e0, \<lparr>Term = 2, Index = 1, Cmd = noopCommand\<rparr>, \<lparr>Term = 3, Index = 2, Cmd = noopCommand\<rparr>] fmempty 2"
    by (rule elected_again [OF d(2) so4]) (simp_all add: numeral_3_eq_3 numeral_2_eq_2)
  have "node_step\<^sup>*\<^sup>* m2 n2" using d(1) n2(1) by (rule converse_rtranclp_into_rtranclp)
  then show thesis
    using r1 s2(2) n2 c3 solo_steps [OF n2(1) so4] by (intro that [of n1 n2]) (simp_all add: m2_def)
qed

text \<open>
  C26: (safety, Finding)  A caller that gives up takes the waiter of another one.  A server that is leader twice takes a command at
  index 3 in both terms.  The first caller is told that the leadership was lost, but its context is done
  as well, and \<open>Submit\<close> may take that branch: it deletes the second caller's waiter.  Whatever the
  server does from then on, the second caller gets no result, also when its command is applied.
\<close>

theorem cancelled_caller_takes_waiter:
  "\<exists>n1 n2 n3 n4. node_step\<^sup>*\<^sup>* (fresh ''a'') n1 \<and> snd (Submit n1 (enqueue ''y'')) = Inr (3, 1) \<and>
     node_step\<^sup>*\<^sup>* (fst (Submit n1 (enqueue ''y''))) n2 \<and> snd (Submit n2 (enqueue ''z'')) = Inr (3, 2) \<and>
     Submit_wake (fst (Submit n2 (enqueue ''z''))) 3 1 ResultReady \<noteq> None \<and>
     Submit_wake (fst (Submit n2 (enqueue ''z''))) 3 1 (CtxDone ''context canceled'') = Some (n3, NoBytes, Some ''context canceled'') \<and>
     \<not> (\<exists>n. node_step\<^sup>*\<^sup>* n3 n \<and> Submit_wake n 3 2 ResultReady \<noteq> None) \<and>
     node_step\<^sup>*\<^sup>* n3 n4 \<and> lastApplied n4 = 3 \<and> map sID (Queue (sm n4)) = [''z'']"
proof -
  obtain n1 n2 where n: "node_step\<^sup>*\<^sup>* (fresh ''a'') n1" "snd (Submit n1 (enqueue ''y'')) = Inr (3, 1)"
    "node_step\<^sup>*\<^sup>* (fst (Submit n1 (enqueue ''y''))) n2" "solo n2" "unmatched n2"
    "stands n2 Leader 3 [e0, \<lparr>Term = 2, Index = 1, Cmd = noopCommand\<rparr>, \<lparr>Term = 3, Index = 2, Cmd = noopCommand\<rparr>] fmempty 2"
    "chans n2 1 = Some \<lparr>pr_result = NoBytes, pr_err = Some ErrLostLeadership\<rparr>"
    by (rule called_twice) blast
  define m where "m = fst (Submit n2 (enqueue ''z''))"
  let ?z = "\<lparr>Term = 3, Index = 3, Cmd = enqueue ''z''\<rparr>"
  have s: "node_step n2 m" "snd (Submit n2 (enqueue ''z'')) = Inr (3, 2)" "unmatched m" "chans m = (chans n2)(2 := None)"
    "stands m Leader 3 [e0, \<lparr>Term = 2, Index = 1, Cmd = noopCommand\<rparr>, \<lparr>Term = 3, Index = 2, Cmd = noopCommand\<rparr>, ?z]
       (fmupd 3 \<lparr>w_term = 3, w_ch = 2\<rparr> fmempty) 3"
    using submitted [OF n(6,4,5), of "enqueue ''z''"] by (simp_all add: m_def numeral_3_eq_3 numeral_2_eq_2)
  define n3 where "n3 = m\<lparr>pending := fmdrop 3 (pending m)\<rparr>"
  have w: "Submit_wake m 3 1 (CtxDone ''context canceled'') = Some (n3, NoBytes, Some ''context canceled'')"
    by (simp add: Submit_wake_def n3_def)
  then have "node_step\<^sup>*\<^sup>* n2 n3" using s(1) node_step.submit_wake by (meson converse_rtranclp_into_rtranclp r_into_rtranclp)
  then have so: "solo n3" using solo_steps n(4) by blast
  have st: "stands n3 Leader 3 [e0, \<lparr>Term = 2, Index = 1, Cmd = noopCommand\<rparr>, \<lparr>Term = 3, Index = 2, Cmd = noopCommand\<rparr>, ?z] fmempty 3"
    "unmatched n3" using s(3,5) by (simp_all add: n3_def stands_def unmatched_def fmdrop_fmupd_same)
  have "lost 2 n3" using st(1) s(4) by (simp add: lost_def unawaited_def stands_def) (simp add: n3_def)
  then have "Submit_wake x 3 2 ResultReady = None" if "node_step\<^sup>*\<^sup>* n3 x" for x
    using lost_for_good [OF that, of abc "''a''" 2] so by (simp add: solo_def Submit_wake_def lost_def)
  moreover have "Submit_wake m 3 1 ResultReady \<noteq> None" using n(7) s(4) by (simp add: Submit_wake_def)
  moreover obtain n4 where "node_step\<^sup>*\<^sup>* n3 n4" "lastApplied n4 = 3"
      "sm n4 = replay Jukebox_SM New_jukebox [noopCommand, noopCommand, enqueue ''z'']"
    by (rule all_applied [OF st(1) so st(2)]) simp_all
  moreover have "map sID (Queue (replay Jukebox_SM New_jukebox [noopCommand, noopCommand, enqueue ''z''])) = [''z'']"
    using replay_enqueue [of "''z''"] by (simp add: noop_applied)
  ultimately show ?thesis using n(1-3) s(2) w unfolding m_def by (intro exI [of _ n1] exI [of _ n2] exI [of _ n3] exI [of _ n4]) simp
qed

end
