(* ===== verification/Widths.thy ===== *)
theory Widths
  imports Runs
begin

text \<open>
  The types of the model.  A Go \<open>uint64\<close> is a natural number here, with the wrap-around written out
  in the operations; this theory shows that no run of a cluster ever puts a number of \<open>2\<^sup>64\<close> or
  more into a term or an index: not into a server, its waiters or its goroutines, not into a
  message, not into a vote round.
\<close>

section \<open>Well-typed values\<close>

abbreviation fits :: "nat \<Rightarrow> bool" where
  "fits x \<equiv> x < two64"

definition entry64 :: "LogEntry \<Rightarrow> bool" where
  "entry64 e \<longleftrightarrow> fits (Term e) \<and> fits (Index e)"

fun task64 :: "task \<Rightarrow> bool" where
  "task64 (Campaign b li lt) \<longleftrightarrow> fits b \<and> fits li \<and> fits lt"
| "task64 (GatherVotes t li lt pv) \<longleftrightarrow> fits t \<and> fits li \<and> fits lt"
| "task64 _ \<longleftrightarrow> True"

definition log64 :: "('s, 'm) Node \<Rightarrow> bool" where
  "log64 n \<longleftrightarrow> fits (currentTerm n) \<and> entries n \<noteq> [] \<and> list_all entry64 (entries n) \<and> fits (snapshotIndex n) \<and>
     fits (snapshotTerm n) \<and> fits (commitIndex n) \<and> fits (lastApplied n)"

definition maps64 :: "('s, 'm) Node \<Rightarrow> bool" where
  "maps64 n \<longleftrightarrow> (\<forall>q. fits (mget (nextIndex n) q)) \<and> (\<forall>q. fits (mget (matchIndex n) q)) \<and> fits (appliedCount n) \<and>
     (\<forall>i w. fmlookup (pending n) i = Some w \<longrightarrow> fits i \<and> fits (w_term w)) \<and> list_all task64 (goroutines n)"

definition node64 :: "('s, 'm) Node \<Rightarrow> bool" where
  "node64 n \<longleftrightarrow> log64 n \<and> maps64 n"

definition rv64 :: "RequestVoteRequest \<Rightarrow> bool" where
  "rv64 r \<longleftrightarrow> fits (rvTerm r) \<and> fits (LastLogIndex r) \<and> fits (LastLogTerm r)"

definition ae64 :: "AppendEntriesRequest \<Rightarrow> bool" where
  "ae64 r \<longleftrightarrow> fits (aeTerm r) \<and> fits (PrevLogIndex r) \<and> fits (PrevLogTerm r) \<and> list_all entry64 (aeEntries r) \<and> fits (LeaderCommit r)"

definition aer64 :: "AppendEntriesResponse \<Rightarrow> bool" where
  "aer64 r \<longleftrightarrow> fits (aerTerm r) \<and> fits (ConflictIndex r) \<and> fits (ConflictTerm r)"

definition is64 :: "InstallSnapshotRequest \<Rightarrow> bool" where
  "is64 r \<longleftrightarrow> fits (isTerm r) \<and> fits (LastIncludedIndex r) \<and> fits (LastIncludedTerm r)"

fun msg64 :: "msg \<Rightarrow> bool" where
  "msg64 (RV c q rv) \<longleftrightarrow> rv64 rv"
| "msg64 (RVR q c rv resp) \<longleftrightarrow> rv64 rv \<and> fits (rvrTerm resp)"
| "msg64 (AE p q ae) \<longleftrightarrow> ae64 ae"
| "msg64 (AER q p ae resp) \<longleftrightarrow> ae64 ae \<and> aer64 resp"
| "msg64 (IS p q r) \<longleftrightarrow> is64 r"
| "msg64 (ISR q p r resp) \<longleftrightarrow> is64 r \<and> fits (isrTerm resp)"
| "msg64 (ReadAE p q ae) \<longleftrightarrow> ae64 ae"
| "msg64 (ReadAER q p ae resp) \<longleftrightarrow> ae64 ae \<and> aer64 resp"

lemmas defs64 = node64_def log64_def maps64_def
lemmas msg_defs64 = rv64_def ae64_def aer64_def is64_def

section \<open>Reading\<close>

lemma fits_sub64 [simp]: "fits a \<Longrightarrow> fits (sub64 a b)"
  by (auto simp: sub64_def)

lemma fits_1 [simp]: "fits (Suc 0)"
  by (simp add: two64_def)

lemma log64_entry: "log64 n \<Longrightarrow> e \<in> set (entries n) \<Longrightarrow> entry64 e"
  by (simp add: log64_def list_all_iff)

lemma log64_last: "log64 n \<Longrightarrow> fits (lastIndex n) \<and> fits (lastTerm n)"
  using log64_entry [of n "last (entries n)"] by (auto simp: log64_def lastIndex_def lastTerm_def entry64_def)

lemma log64_termAt: "log64 n \<Longrightarrow> termAt n i = Some t \<Longrightarrow> fits t"
  using log64_entry [of n "entries n ! sub64 i (snapshotIndex n)"] by (auto simp: termAt_def Let_def entry64_def split: if_splits)

lemma log64_slice: "log64 n \<Longrightarrow> list_all entry64 (sliceFrom n i)"
  by (auto simp: sliceFrom_def Let_def list_all_iff log64_def dest: in_set_dropD)

lemma log64_first: "log64 n \<Longrightarrow> fits (firstIndexOfTerm n t)"
  using log64_entry [of n] by (auto simp: firstIndexOfTerm_def entry64_def find_Some_iff split: option.split)

lemma log64_lastOf: "log64 n \<Longrightarrow> fits (lastOfTerm n t)"
proof -
  have "fits a \<Longrightarrow> list_all entry64 es \<Longrightarrow> fits (fold (\<lambda>e acc. if Term e = t then Index e else acc) es a)" for es a
    by (induction es arbitrary: a) (auto simp: entry64_def)
  then show "log64 n \<Longrightarrow> fits (lastOfTerm n t)" by (simp add: lastOfTerm_def log64_def)
qed

section \<open>Every operation of a server\<close>

lemma node64_stepDown: "node64 n \<Longrightarrow> fits t \<Longrightarrow> node64 (stepDown t n)"
  by (simp add: stepDown_conv defs64)

lemma node64_heard: "node64 n \<Longrightarrow> fits t \<Longrightarrow> node64 (heard e n t l)"
  using node64_stepDown [of n t] by (simp add: heard_def go_defs defs64)

lemma node64_RequestVote:
  assumes "node64 n" "rv64 rv"
  shows "node64 (fst (RequestVote e n rv))" "fits (rvrTerm (snd (RequestVote e n rv)))"
proof -
  have "fits (max (currentTerm n) (rvTerm rv))" using assms by (simp add: defs64 rv64_def)
  then show "node64 (fst (RequestVote e n rv))" "fits (rvrTerm (snd (RequestVote e n rv)))"
    using assms by (simp_all add: defs64 RequestVote_def go_defs Let_def)
qed

lemma node64_advance: "node64 n \<Longrightarrow> node64 (advanceCommitLocked n)"
  using commitScan_Some [of n "lastIndex n"] log64_last [of n]
  by (auto simp: advanceCommitLocked_def signalApply_def defs64 split: option.split dest: le_less_trans)

lemma node64_own: "node64 n \<Longrightarrow> node64 (fst (appendOwn n c)) \<and> entry64 (snd (appendOwn n c))"
  by (simp add: appendOwn_def persistAppend_def case_prod_beta defs64 entry64_def Let_def)

lemma node64_Propose: "node64 n \<Longrightarrow> node64 (fst (Propose n c))"
  using node64_advance [of "fst (appendOwn n c)"] node64_own [of n c]
  by (simp add: Propose_def case_prod_beta triggerReplication_def) (simp add: defs64)

lemma node64_set:
  "node64 n \<Longrightarrow> fits v \<Longrightarrow> node64 (n\<lparr>nextIndex := (nextIndex n)(p \<mapsto> v)\<rparr>)"
  "node64 n \<Longrightarrow> fits v \<Longrightarrow> node64 (n\<lparr>matchIndex := (matchIndex n)(p \<mapsto> v)\<rparr>)"
  "node64 n \<Longrightarrow> node64 (n\<lparr>triggerCh := t\<rparr>)"
  by (simp_all add: defs64)

lemma node64_append_reply:
  assumes "node64 n" "ae64 req" "aer64 resp"
  shows "node64 (sendAppendEntries_reply n p req resp)"
proof -
  have "log64 n" using assms(1) by (simp add: node64_def)
  then have "fits (nextIndexAfterConflict n resp)" using log64_lastOf [of n] assms(3) by (auto simp: nextIndexAfterConflict_def aer64_def)
  then have next_ok: "node64 (n\<lparr>nextIndex := (nextIndex n)(p \<mapsto> nextIndexAfterConflict n resp)\<rparr>)" using node64_set(1) assms(1) by blast
  have peer: "node64 m \<Longrightarrow> node64 (triggerPeer m p)" for m :: "('a, 'b) Node"
    by (simp add: triggerPeer_def node64_set(3) split: option.split)
  have "node64 (stepDown (aerTerm resp) n)" using node64_stepDown assms(1,3) by (auto simp: aer64_def)
  then show ?thesis
    unfolding sendAppendEntries_reply_def Let_def
    using assms(1) next_ok node64_set(1) [OF next_ok, of 1 p] node64_advance [OF node64_set(1) [OF node64_set(2) [OF assms(1) add64_lt] add64_lt]]
    by (simp add: peer)
qed

lemma node64_snapshot_reply:
  assumes "node64 n" "is64 req" "fits (isrTerm resp)"
  shows "node64 (sendSnapshot_reply n p req resp)"
  using assms node64_stepDown [OF assms(1,3)] node64_set(1) [OF node64_set(2) [OF assms(1)] add64_lt]
  by (simp add: sendSnapshot_reply_def is64_def)

lemma node64_read_reply: "node64 n \<Longrightarrow> aer64 resp \<Longrightarrow> node64 (fst (confirmLeadership_reply n t resp))"
  by (simp add: confirmLeadership_reply_def node64_stepDown aer64_def)

text \<open>The merge of a follower only takes entries of the request.\<close>

lemma node64_mergeEntry:
  assumes "node64 (fst acc)" "entry64 e"
  shows "node64 (fst (mergeEntry e acc))"
proof -
  have sub: "list_all entry64 (take k (entries (fst acc)))" for k
    using assms(1) by (auto simp: defs64 list_all_iff dest: in_set_takeD)
  then show ?thesis using assms
    by (simp add: mergeEntry_def persist_conv case_prod_beta Let_def defs64 split: option.split)
qed

lemma node64_fold: "node64 (fst acc) \<Longrightarrow> list_all entry64 es \<Longrightarrow> node64 (fst (fold mergeEntry es acc))"
  by (induction es arbitrary: acc) (simp_all add: node64_mergeEntry)

lemma node64_mergeEntries: "node64 n \<Longrightarrow> list_all entry64 es \<Longrightarrow> node64 (mergeEntries n es)"
  using node64_fold [of "(n, [])" es]
  by (simp add: mergeEntries_def case_prod_beta persist_conv Let_def) (simp add: defs64)

lemma node64_commitTo: "node64 n \<Longrightarrow> fits c \<Longrightarrow> node64 (commitTo n c)"
  using log64_last [of n] by (simp add: commitTo_conv defs64 min_def)

lemma node64_AppendEntries:
  assumes "node64 n" "ae64 req"
  shows "node64 (fst (AppendEntries e n req))" "aer64 (snd (AppendEntries e n req))"
proof -
  define h where "h = heard e n (aeTerm req) (aeLeaderId req)"
  have h: "node64 h" using node64_heard [OF assms(1)] assms(2) by (simp add: h_def ae64_def)
  have l: "log64 h" "log64 n" using h assms(1) by (simp_all add: node64_def)
  have c: "node64 (commitTo (mergeEntries h (aeEntries req)) (LeaderCommit req))"
    using h assms(2) by (simp add: ae64_def node64_commitTo node64_mergeEntries)
  have t: "fits (currentTerm n)" "fits (aeTerm req)" using l assms(2) by (simp_all add: log64_def ae64_def)
  have ct: "fits (case termAt n i of None \<Rightarrow> 0 | Some t \<Rightarrow> t)" for i using log64_termAt [OF l(2)] by (auto split: option.split)
  show "node64 (fst (AppendEntries e n req))" using assms(1) h c by (simp add: AppendEntries_conv h_def [symmetric] Let_def)
  show "aer64 (snd (AppendEntries e n req))"
    using t ct log64_first [OF l(2)] by (simp add: AppendEntries_conv h_def [symmetric] Let_def aer64_def)
qed

lemma node64_adopt:
  assumes "node64 n" "is64 req"
  shows "node64 (adoptSnapshot n req)"
proof -
  have "list_all entry64 (sliceFrom n i)" for i using log64_slice assms(1) by (auto simp: node64_def)
  then show ?thesis using assms
    by (simp add: adoptSnapshot_def case_prod_beta persist_conv Let_def) (simp add: defs64 is64_def entry64_def)
qed

lemma node64_InstallSnapshot:
  assumes "node64 n" "is64 req"
  shows "node64 (fst (InstallSnapshot e n req))" "fits (isrTerm (snd (InstallSnapshot e n req)))"
proof -
  define h where "h = heard e n (isTerm req) (isLeaderId req)"
  have h: "node64 h" using node64_heard [OF assms(1)] assms(2) by (simp add: h_def is64_def)
  have m: "node64 (h\<lparr>sm := m\<rparr>)" for m using h by (simp add: defs64)
  have t: "fits (currentTerm n)" "fits (isTerm req)" using assms by (simp_all add: defs64 is64_def)
  show "node64 (fst (InstallSnapshot e n req))"
    using assms h m node64_adopt [OF m assms(2)] by (simp add: InstallSnapshot_conv h_def [symmetric] Let_def split: prod.split option.split)
  show "fits (isrTerm (snd (InstallSnapshot e n req)))"
    using t by (simp add: InstallSnapshot_conv h_def [symmetric] Let_def split: prod.split option.split)
qed

lemma node64_becomeLeader:
  assumes "node64 n"
  shows "node64 (becomeLeaderLocked n)"
proof -
  have l: "node64 (n\<lparr>role := Leader, leaderID := nid n,
      nextIndex := (\<lambda>p. if p \<in> set (peers n) then Some (add64 (lastIndex n) 1) else None),
      matchIndex := (\<lambda>p. if p \<in> set (peers n) then Some 0 else None),
      triggerCh := (\<lambda>p. if p \<in> set (peers n) then Some False else None),
      leaderCtx := Some (nextCtx n), nextCtx := Suc (nextCtx n)\<rparr>)" (is "node64 ?l")
    using assms by (simp add: defs64 mget_def)
  have g: "node64 m \<Longrightarrow> node64 (triggerReplication (m\<lparr>goroutines := goroutines m @ map (ReplicationLoop c) ps\<rparr>))" for m :: "('a, 'b) Node" and c ps
    by (auto simp: triggerReplication_def defs64 list_all_iff)
  define a where "a = fst (appendOwn ?l noopCommand)"
  have "becomeLeaderLocked n = (if role n = Leader then n else
      triggerReplication ((advanceCommitLocked a)\<lparr>goroutines := goroutines (advanceCommitLocked a) @
        map (ReplicationLoop (nextCtx n)) (peers (advanceCommitLocked a))\<rparr>))"
    by (simp add: becomeLeaderLocked_def Let_def a_def case_prod_beta del: One_nat_def)
  moreover have "node64 (advanceCommitLocked a)" unfolding a_def using node64_advance node64_own [OF l] by blast
  ultimately show ?thesis using assms g by simp
qed

lemma node64_startReal:
  assumes "node64 n" "fits li" "fits lt"
  shows "node64 (startRealElectionLocked e n li lt)"
proof -
  have e: "node64 (electing e n)" using assms(1) by (simp add: electing_def go_defs defs64)
  moreover have "node64 ((electing e n)\<lparr>goroutines := goroutines n @ [GatherVotes (add64 (currentTerm n) 1) li lt False]\<rparr>)"
    using e assms by (simp add: defs64)
  ultimately show ?thesis by (simp add: startRealElection_conv node64_becomeLeader)
qed

lemma node64_tick:
  assumes "node64 n"
  shows "node64 (electionTick e n)"
proof -
  have c: "node64 (canvassing e n)" using assms by (simp add: canvassing_def go_defs defs64)
  have l: "fits (lastIndex n)" "fits (lastTerm n)" using log64_last assms by (auto simp: node64_def)
  have "node64 ((canvassing e n)\<lparr>goroutines := goroutines n @ [Campaign (currentTerm n) (lastIndex n) (lastTerm n)]\<rparr>)"
    using c assms l by (simp add: defs64)
  then show ?thesis using assms c l by (simp add: electionTick_def beginCampaign_conv node64_startReal)
qed

lemma node64_vote_reply: "node64 n \<Longrightarrow> fits (rvrTerm resp) \<Longrightarrow> node64 (fst (gatherVotes_reply n r t pv resp))"
  by (simp add: gatherVotes_reply_def Let_def node64_stepDown node64_becomeLeader)

lemma node64_finish: "node64 n \<Longrightarrow> fits li \<Longrightarrow> fits lt \<Longrightarrow> node64 (campaign_finish e n b li lt w)"
  by (simp add: campaign_finish_def node64_startReal)

lemma node64_Submit:
  assumes "node64 n"
  shows "node64 (fst (Submit n c))"
proof -
  let ?a = "appendOwn n c"
  have o: "node64 (fst ?a)" "entry64 (snd ?a)" using node64_own [OF assms] by auto
  have "node64 ((fst ?a)\<lparr>nextChan := k, chans := f, pending := fmupd (Index (snd ?a)) \<lparr>w_term = Term (snd ?a), w_ch = j\<rparr> (pending (fst ?a))\<rparr>)" for k f j
    using o by (auto simp: defs64 entry64_def)
  from node64_advance [OF this] show ?thesis
    using assms by (simp add: Submit_def case_prod_beta Let_def triggerReplication_def) (simp add: defs64)
qed

lemma node64_wake: "Submit_wake n i ch wk = Some (n', r) \<Longrightarrow> node64 n \<Longrightarrow> node64 n'"
  by (auto simp: Submit_wake_def defs64 split: submitWake.splits option.splits if_splits)

lemma node64_applyOne: "node64 n \<Longrightarrow> lastApplied n < commitIndex n \<Longrightarrow> node64 (applyOne n)"
  by (simp add: applyOne_def deliver_def chan_send_def case_prod_beta Let_def defs64 split: option.split)

lemma node64_applyAll: "node64 n \<Longrightarrow> node64 (applyAll n)"
proof (induction n rule: applyAll.induct)
  case (1 n)
  then show ?case using node64_applyOne [of n] by (subst applyAll.simps) simp
qed

lemma node64_snapshot:
  assumes "node64 n"
  shows "node64 (maybeSnapshotLocked n)"
proof -
  have d: "node64 (n\<lparr>disk := d\<rparr>)" for d using assms by (simp add: defs64)
  show ?thesis
  proof (cases "termAt n (lastApplied n)")
    case None
    then show ?thesis using assms by (simp add: maybeSnapshotLocked_def Let_def)
  next
    case (Some t)
    let ?i = "lastApplied n" and ?data = "sm_Snapshot (sm_if n) (sm n)"
    obtain d1 err where s: "SaveSnapshot (store_if n) (disk n) \<lparr>snapIndex = ?i, snapTerm = t, snapData = ?data\<rparr> = (d1, err)" by fastforce
    have t: "fits t" "fits ?i" using log64_termAt [OF _ Some] assms by (simp_all add: defs64)
    define m where "m = persistTruncatePrefix (n\<lparr>disk := d1\<rparr>) ?i"
    have m: "node64 m" using d by (simp add: m_def persist_conv)
    define kept where "kept = sliceFrom m (add64 ?i 1)"
    have k: "list_all entry64 kept" unfolding kept_def using m by (intro log64_slice) (simp add: node64_def)
    have "node64 (m\<lparr>entries := \<lparr>Term = t, Index = ?i, Cmd = NoBytes\<rparr> # kept, snapshotIndex := ?i, snapshotTerm := t, snapshotData := ?data\<rparr>)"
      using m t k by (simp add: defs64 entry64_def)
    then show ?thesis using assms d Some s
      by (simp add: maybeSnapshotLocked_def Let_def m_def [symmetric] kept_def [symmetric] del: One_nat_def split: option.split)
  qed
qed

lemma node64_applyReady: "node64 n \<Longrightarrow> node64 (applyReady n)"
  by (simp add: applyReady_def Let_def node64_applyAll node64_snapshot)

section \<open>Requests and new servers\<close>

lemma taskRound64: "task64 tk \<Longrightarrow> taskRound n tk = Some r \<Longrightarrow> rv64 (rReq r)"
  by (cases tk) (auto simp: taskRound_def gatherVotes_request_def rv64_def)

lemma sendAppendEntries64:
  assumes "node64 n" "sendAppendEntries n q = SendEntries ae"
  shows "ae64 ae"
proof -
  have l: "log64 n" "fits (mget (nextIndex n) q)" using assms(1) by (simp_all add: defs64)
  show ?thesis using assms(2) l log64_termAt [OF l(1)] log64_slice [OF l(1)]
    by (auto simp: sendAppendEntries_def Let_def ae64_def log64_def split: if_splits option.splits)
qed

lemma sendSnapshot64: "node64 n \<Longrightarrow> sendSnapshot n t = Some r \<Longrightarrow> is64 r"
  by (auto simp: sendSnapshot_def is64_def defs64 split: if_splits)

lemma confirm_request64:
  assumes "node64 n" "c \<le> commitIndex n" "confirmLeadership_request n t c q = Some ae"
  shows "ae64 ae"
proof -
  have l: "log64 n" "fits (mget (nextIndex n) q)" "fits c" "fits (currentTerm n)" using assms(1,2) by (simp_all add: defs64)
  show ?thesis using assms(3) l log64_termAt [OF l(1)]
    by (auto simp: confirmLeadership_request_def Let_def ae64_def split: if_splits option.splits)
qed

lemma New_maps:
  assumes "New c d m = Inr n" "cfgStorage c = Some S" "cfgStateMachine c = Some M"
  shows "nextIndex n = Map.empty" "matchIndex n = Map.empty" "appliedCount n = 0" "pending n = fmempty" "goroutines n = []"
proof -
  obtain M' where "cfgStateMachine c = Some M'" and "loadFromStorage (new_node (withDefaults c) S M' d m) = (n, None)"
    using assms(1,2) by (rule New_Inr)
  then have load: "loadFromStorage (new_node (withDefaults c) S M d m) = (n, None)" using assms(3) by simp
  have "\<exists>a b i t dt m' es ci la. n = (new_node (withDefaults c) S M d m)\<lparr>currentTerm := a, votedFor := b, snapshotIndex := i,
      snapshotTerm := t, snapshotData := dt, sm := m', entries := es, commitIndex := ci, lastApplied := la\<rparr>"
    using load by (auto simp: loadFromStorage_def Let_def split: prod.splits option.splits) blast+
  then show "nextIndex n = Map.empty" "matchIndex n = Map.empty" "appliedCount n = 0" "pending n = fmempty" "goroutines n = []"
    by (auto simp: new_node_def)
qed

lemma startNode_maps:
  assumes "startNode opts ids e p d = Some n"
  shows "maps64 n"
proof -
  obtain n0 where n0: "New (nodeConfig opts ids p) d New_jukebox = Inr n0" "n = Start e n0" using assms by (rule startNode_New)
  have "nextIndex n0 = Map.empty" "matchIndex n0 = Map.empty" "appliedCount n0 = 0" "pending n0 = fmempty" "goroutines n0 = []"
    using New_maps [OF n0(1)] by (simp_all add: nodeConfig_def)
  then show ?thesis by (simp add: n0(2) Start_def go_defs maps64_def mget_def Let_def)
qed

lemma node64_restart:
  assumes "startNode opts ids e p (disk n) = Some n'" "persisted n" "node64 n"
  shows "node64 n'"
  using startNode_votes [OF assms(1,2)] startNode_maps [OF assms(1)] assms(3) by (simp add: node64_def log64_def)

lemma node64_boot:
  assumes "startNode opts ids e p NewMemStore = Some n"
  shows "node64 n"
proof -
  obtain n0 where n0: "New (nodeConfig opts ids p) NewMemStore New_jukebox = Inr n0" "n = Start e n0" using assms by (rule startNode_New)
  have "log64 n0" using n0(1)
    by (auto simp: New_def loadFromStorage_def nodeConfig_def Let_def mem_defs NewMemStore_def log64_def entry64_def)
  then have "log64 n" by (simp add: n0(2) Start_def go_defs log64_def Let_def)
  then show ?thesis using startNode_maps [OF assms] by (simp add: node64_def)
qed

section \<open>Runs of a cluster\<close>

definition widths :: "nodeid list \<Rightarrow> sys \<Rightarrow> bool" where
  "widths ids s \<longleftrightarrow> (\<forall>p\<in>set ids. node64 (nodes s p)) \<and> (\<forall>m\<in>net s. msg64 m) \<and> (\<forall>p\<in>set ids. \<forall>r\<in>set (rounds s p). rv64 (rReq r))"

lemma widthsD:
  assumes "widths ids s"
  shows "p \<in> set ids \<Longrightarrow> node64 (nodes s p)" "m \<in> net s \<Longrightarrow> msg64 m" "p \<in> set ids \<Longrightarrow> r \<in> set (rounds s p) \<Longrightarrow> rv64 (rReq r)"
  using assms unfolding widths_def by blast+

text \<open>One server takes a step.\<close>

lemma widths_node:
  assumes w: "widths ids s" and s': "nodes s' = (nodes s)(p := n')" "node64 n'"
    and msgs: "\<And>m. m \<in> net s' \<Longrightarrow> m \<in> net s \<or> msg64 m"
    and rs: "\<And>q r. q \<in> set ids \<Longrightarrow> r \<in> set (rounds s' q) \<Longrightarrow> rv64 (rReq r)"
  shows "widths ids s'"
proof -
  have "\<forall>q\<in>set ids. node64 (nodes s' q)" using widthsD(1) [OF w] s' by simp
  moreover have "\<forall>m\<in>net s'. msg64 m" using widthsD(2) [OF w] msgs by blast
  moreover have "\<forall>q\<in>set ids. \<forall>r\<in>set (rounds s' q). rv64 (rReq r)" using rs by blast
  ultimately show ?thesis unfolding widths_def by blast
qed

lemma widths_step:
  assumes step: "sys_step reads opts ids s s'" and w: "widths ids s" and ok: "base_ok ids s"
  shows "widths ids s'"
  using step
proof (cases rule: sys_step.cases)
  note D = widthsD [OF w]
  note node = widths_node [OF w]
  {
    case (tick p e)
    then show ?thesis using D(3) by (intro node [where p = p and n' = "electionTick e (nodes s p)"]) (auto intro: node64_tick D(1))
  next
    case (spawn p g1 tk g2 r)
    have n: "node64 (nodes s p)" using D(1) spawn(2) .
    then have "task64 tk" "node64 ((nodes s p)\<lparr>goroutines := g1 @ g2\<rparr>)" using spawn(4) by (simp_all add: defs64)
    then have "rv64 (rReq r)" using taskRound64 spawn(5) by blast
    then show ?thesis using spawn D(3) \<open>node64 (_\<lparr>goroutines := _\<rparr>)\<close>
      by (intro node [where p = p and n' = "(nodes s p)\<lparr>goroutines := g1 @ g2\<rparr>"]) (auto split: if_splits)
  next
    case (deliver_rv p c rv e n' resp)
    then have "rv64 rv" using D(2) by fastforce
    then have "node64 n'" "fits (rvrTerm resp)" using node64_RequestVote [OF D(1) [OF deliver_rv(2)], of rv e] deliver_rv(5) by simp_all
    then show ?thesis using deliver_rv D(3) \<open>rv64 rv\<close> by (intro node [where p = p and n' = n']) auto
  next
    case (deliver_rvr c p rv resp r1 r r2 n' cnt)
    then have "fits (rvrTerm resp)" using D(2) by fastforce
    then have "node64 n'" using node64_vote_reply [OF D(1) [OF deliver_rvr(2)], of resp] deliver_rvr(9) by (metis fst_conv)
    then show ?thesis using deliver_rvr D(3) by (intro node [where p = c and n' = n']) (auto split: if_splits)
  next
    case (rv_failed c r1 r r2 p)
    have "rv64 (rReq x)" if "q \<in> set ids" "x \<in> set (rounds s' q)" for q x
      using that D(3) [OF that(1)] rv_failed by (auto split: if_splits)
    then show ?thesis using w rv_failed(1) unfolding widths_def by simp
  next
    case (campaign_done p r1 r r2 b e)
    have "rv64 (rReq r)" using D(3) campaign_done(2,6) by simp
    then have "node64 (campaign_finish e (nodes s p) b (LastLogIndex (rReq r)) (LastLogTerm (rReq r)) x)" for x
      using D(1) campaign_done(2) by (intro node64_finish) (auto simp: rv64_def)
    then show ?thesis using campaign_done D(3)
      by (intro node [where p = p and n' = "campaign_finish e (nodes s p) b (LastLogIndex (rReq r)) (LastLogTerm (rReq r))
           (gatherVotes_result (nodes s p) (rCount r))"]) (auto split: if_splits)
  next
    case (send_entries p q ae)
    then show ?thesis using w sendAppendEntries64 [OF D(1)] by (auto simp: widths_def)
  next
    case (deliver_ae q p ae e n' resp)
    then have "ae64 ae" using D(2) by fastforce
    then have "node64 n'" "aer64 resp" using node64_AppendEntries [OF D(1) [OF deliver_ae(2)], of ae e] deliver_ae(5) by simp_all
    then show ?thesis using deliver_ae D(3) \<open>ae64 ae\<close> by (intro node [where p = q and n' = n']) auto
  next
    case (deliver_aer p q ae resp)
    then have "ae64 ae" "aer64 resp" using D(2) by fastforce+
    then show ?thesis using deliver_aer D(3) node64_append_reply [OF D(1) [OF deliver_aer(2)]]
      by (intro node [where p = p and n' = "sendAppendEntries_reply (nodes s p) q ae resp"]) auto
  next
    case (send_snapshot p q t "is")
    then show ?thesis using w sendSnapshot64 [OF D(1)] by (auto simp: widths_def)
  next
    case (deliver_is q p "is" e n' resp)
    then have "is64 is" using D(2) by fastforce
    then have "node64 n'" "fits (isrTerm resp)" using node64_InstallSnapshot [OF D(1) [OF deliver_is(2)], of "is" e] deliver_is(5) by simp_all
    then show ?thesis using deliver_is D(3) \<open>is64 is\<close> by (intro node [where p = q and n' = n']) auto
  next
    case (deliver_isr p q "is" resp)
    then have "is64 is" "fits (isrTerm resp)" using D(2) by fastforce+
    then show ?thesis using deliver_isr D(3) node64_snapshot_reply [OF D(1) [OF deliver_isr(2)]]
      by (intro node [where p = p and n' = "sendSnapshot_reply (nodes s p) q is resp"]) auto
  next
    case (propose p c)
    then show ?thesis using D(3) by (intro node [where p = p and n' = "fst (Propose (nodes s p) c)"]) (auto intro: node64_Propose D(1))
  next
    case (submit p c)
    then show ?thesis using D(3) by (intro node [where p = p and n' = "fst (Submit (nodes s p) c)"]) (auto intro: node64_Submit D(1))
  next
    case (wake p i ch wk n' res)
    then show ?thesis using D(3) by (intro node [where p = p and n' = n']) (auto intro: node64_wake D(1))
  next
    case (apply_ready p)
    have "node64 ((nodes s p)\<lparr>applyCh := False\<rparr>)" using D(1) [OF apply_ready(2)] by (simp add: defs64)
    then show ?thesis using apply_ready D(3)
      by (intro node [where p = p and n' = "applyReady ((nodes s p)\<lparr>applyCh := False\<rparr>)"]) (auto intro: node64_applyReady)
  next
    case (crash p)
    then show ?thesis using w by (auto simp: widths_def)
  next
    case (restart p e n')
    have "persisted (nodes s p)" using base_member [OF ok restart(2)] by (simp add: member_ok_def)
    then have "node64 n'" using node64_restart [OF restart(4)] D(1) restart(2) by blast
    then show ?thesis using restart D(3) by (intro node [where p = p and n' = n']) auto
  next
    case (read_send p q c t ae)
    then show ?thesis using w confirm_request64 [OF D(1)] by (auto simp: widths_def)
  next
    case (read_deliver q p ae e n' resp)
    then have "ae64 ae" using D(2) by fastforce
    then have "node64 n'" "aer64 resp" using node64_AppendEntries [OF D(1) [OF read_deliver(2)], of ae e] read_deliver(5) by simp_all
    then show ?thesis using read_deliver D(3) \<open>ae64 ae\<close> by (intro node [where p = q and n' = n']) auto
  next
    case (read_reply p q ae resp)
    then have "aer64 resp" using D(2) by fastforce
    then show ?thesis using read_reply D(3) node64_read_reply [OF D(1) [OF read_reply(2)]]
      by (intro node [where p = p and n' = "fst (confirmLeadership_reply (nodes s p) (aeTerm ae) resp)"]) auto
  }
qed

lemma widths_initial: "initial opts ids s \<Longrightarrow> widths ids s"
  unfolding initial_def widths_def using node64_boot by auto



end
