(* ===== verification/Bolt.thy ===== *)
theory Bolt
  imports Store
begin

text \<open>
  The bbolt-backed store, \<open>src/internal/store/bolt.go\<close>.  The database library and the
  protobuf codec are not part of the repository: they are arguments of the definitions (the
  record \<open>Bolt\<close> and the functions \<open>pbMarshal\<close> and \<open>pbUnmarshal\<close>), and what the code relies on is
  the predicate \<open>bolt_spec\<close>: buckets are ordered maps from keys to values, an update either takes
  effect as a whole or reports an error and changes nothing, and unmarshalling undoes
  marshalling.  Under it the store simulates the in-memory store.

  A byte slice is a list of octets, or the text of a document (\<open>bytes\<close>).  A panic of the
  big-endian decoder on a short slice is an error value of its own.
\<close>

section \<open>Octets\<close>

type_synonym octets = "nat list"

datatype slice = U8 octets | Text bytes

definition ascii :: "string \<Rightarrow> octets" where
  "ascii s = map of_char s"

definition chars :: "octets \<Rightarrow> string" where
  "chars os = map char_of os"

lemma chars_ascii [simp]: "chars (ascii s) = s"
  by (simp add: chars_def ascii_def comp_def)

text \<open>\<open>binary.BigEndian\<close>: \<open>PutUint64\<close> writes the digits to base 256, the highest first.\<close>

fun be_bytes :: "nat \<Rightarrow> nat \<Rightarrow> octets" where
  "be_bytes 0 v = []"
| "be_bytes (Suc k) v = be_bytes k (v div 256) @ [v mod 256]"

definition u64 :: "uint64 \<Rightarrow> octets" where
  "u64 v = be_bytes 8 v"

definition be_value :: "octets \<Rightarrow> nat" where
  "be_value os = foldl (\<lambda>a d. a * 256 + d) 0 os"

definition Uint64 :: "octets \<Rightarrow> uint64 option" where
  "Uint64 os = (if length os < 8 then None else Some (be_value (take 8 os)))"

lemma length_be_bytes [simp]: "length (be_bytes k v) = k"
  by (induction k arbitrary: v) auto

lemma be_value_snoc [simp]: "be_value (os @ [d]) = be_value os * 256 + d"
  by (simp add: be_value_def)

lemma be_value_be_bytes: "v < 256 ^ k \<Longrightarrow> be_value (be_bytes k v) = v"
proof (induction k arbitrary: v)
  case (Suc k)
  then have "v div 256 < 256 ^ k" by (simp add: less_mult_imp_div_less mult.commute)
  then show ?case using Suc.IH [of "v div 256"] by simp
qed (simp add: be_value_def)

lemma two64_256: "two64 = 256 ^ 8"
  by (simp add: two64_def)

lemma Uint64_u64 [simp]: "v < two64 \<Longrightarrow> Uint64 (u64 v) = Some v"
  by (simp add: Uint64_def u64_def be_value_be_bytes two64_256)

lemma u64_inj: "a < two64 \<Longrightarrow> b < two64 \<Longrightarrow> u64 a = u64 b \<longleftrightarrow> a = b"
  by (metis Uint64_u64 option.inject)

lemma less_snoc:
  fixes xs ys :: octets
  assumes "length xs = length ys"
  shows "xs @ [d] < ys @ [e] \<longleftrightarrow> xs < ys \<or> xs = ys \<and> d < e"
  using assms by (induction xs ys rule: list_induct2) auto

lemma be_bytes_less:
  "a < 256 ^ k \<Longrightarrow> b < 256 ^ k \<Longrightarrow> be_bytes k a < be_bytes k b \<longleftrightarrow> a < b"
proof (induction k arbitrary: a b)
  case (Suc k)
  have lt: "a div 256 < 256 ^ k" "b div 256 < 256 ^ k"
    using Suc.prems by (simp_all add: less_mult_imp_div_less mult.commute)
  then have eq: "be_bytes k (a div 256) = be_bytes k (b div 256) \<longleftrightarrow> a div 256 = b div 256"
    by (metis be_value_be_bytes)
  have "a < b \<longleftrightarrow> a div 256 < b div 256 \<or> a div 256 = b div 256 \<and> a mod 256 < b mod 256"
  proof (cases "a div 256" "b div 256" rule: linorder_cases)
    case less
    then show ?thesis using div_le_mono [of b a 256] by linarith
  next
    case equal
    then show ?thesis using div_mult_mod_eq [of a 256] div_mult_mod_eq [of b 256] by linarith
  next
    case greater
    then show ?thesis using div_le_mono [of a b 256] by linarith
  qed
  then show ?case using Suc.IH [OF lt] eq by (simp add: less_snoc)
qed simp

lemma u64_less: "a < two64 \<Longrightarrow> b < two64 \<Longrightarrow> u64 a < u64 b \<longleftrightarrow> a < b"
  by (simp add: u64_def be_bytes_less two64_256)

lemma u64_le: "a < two64 \<Longrightarrow> b < two64 \<Longrightarrow> u64 a \<le> u64 b \<longleftrightarrow> a \<le> b"
  by (meson linorder_not_less u64_less)

section \<open>The database interface\<close>

record ('db, 'tx) Bolt =
  bOpen :: "string \<Rightarrow> string + 'db"
  bClose :: "'db \<Rightarrow> 'db \<times> error"
  bUpdate :: "'db \<Rightarrow> ('tx \<Rightarrow> 'tx \<times> error) \<Rightarrow> 'db \<times> error"
  bBegin :: "'db \<Rightarrow> string + 'tx"
  bCreate :: "'tx \<Rightarrow> octets \<Rightarrow> 'tx \<times> error"
  bPut :: "'tx \<Rightarrow> octets \<Rightarrow> octets \<Rightarrow> slice \<Rightarrow> 'tx \<times> error"
  bGet :: "'tx \<Rightarrow> octets \<Rightarrow> octets \<Rightarrow> slice option"
  bDelete :: "'tx \<Rightarrow> octets \<Rightarrow> octets \<Rightarrow> 'tx \<times> error"
  bFirst :: "'tx \<Rightarrow> octets \<Rightarrow> (octets \<times> slice) list"
  bSeek :: "'tx \<Rightarrow> octets \<Rightarrow> octets \<Rightarrow> (octets \<times> slice) list"

text \<open>
  A cursor is the list of the pairs it visits from \<open>First\<close> or \<open>Seek\<close> on.  A read-only
  transaction is the state \<open>bBegin\<close> gives (an error when the database is closed).
\<close>

definition bView :: "('db, 'tx) Bolt \<Rightarrow> 'db \<Rightarrow> 'a \<Rightarrow> ('tx \<Rightarrow> 'a \<times> error) \<Rightarrow> 'a \<times> error" where
  "bView B db zero f = (case bBegin B db of Inl err \<Rightarrow> (zero, Some err) | Inr tx \<Rightarrow> f tx)"

text \<open>Running writes one after the other until one of them fails.\<close>

definition andThen :: "'tx \<times> error \<Rightarrow> ('tx \<Rightarrow> 'tx \<times> error) \<Rightarrow> 'tx \<times> error" where
  "andThen r f = (case r of (tx, Some err) \<Rightarrow> (tx, Some err) | (tx, None) \<Rightarrow> f tx)"

fun each :: "('x \<Rightarrow> 'tx \<Rightarrow> 'tx \<times> error) \<Rightarrow> 'x list \<Rightarrow> 'tx \<Rightarrow> 'tx \<times> error" where
  "each f [] tx = (tx, None)"
| "each f (x # xs) tx = andThen (f x tx) (each f xs)"

section \<open>Operations\<close>

definition bucketMeta :: octets where "bucketMeta = ascii ''meta''"
definition bucketLog :: octets where "bucketLog = ascii ''log''"
definition bucketSnap :: octets where "bucketSnap = ascii ''snap''"
definition keyTerm :: octets where "keyTerm = ascii ''term''"
definition keyVotedFor :: octets where "keyVotedFor = ascii ''votedFor''"
definition keySnapIndex :: octets where "keySnapIndex = ascii ''snapIndex''"
definition keySnapTerm :: octets where "keySnapTerm = ascii ''snapTerm''"
definition keySnapData :: octets where "keySnapData = ascii ''snapData''"

lemmas key_defs = bucketMeta_def bucketLog_def bucketSnap_def keyTerm_def keyVotedFor_def keySnapIndex_def keySnapTerm_def keySnapData_def

definition shortSlice :: error where
  "shortSlice = Some ''panic: index out of range''"

text \<open>Decoding a value into a field; \<open>None\<close> is a missing key, which leaves the field zero.\<close>

definition getUint64 :: "slice option \<Rightarrow> uint64 \<times> error" where
  "getUint64 v =
     (case v of
        None \<Rightarrow> (0, None)
      | Some (U8 os) \<Rightarrow> (case Uint64 os of None \<Rightarrow> (0, shortSlice) | Some i \<Rightarrow> (i, None))
      | Some (Text t) \<Rightarrow> (0, shortSlice))"

definition getString :: "slice option \<Rightarrow> string" where
  "getString v = (case v of Some (U8 os) \<Rightarrow> chars os | _ \<Rightarrow> '''')"

definition getData :: "slice option \<Rightarrow> bytes" where
  "getData v = (case v of Some (Text t) \<Rightarrow> t | _ \<Rightarrow> NoBytes)"

definition bolt_OpenBolt :: "('db, 'tx) Bolt \<Rightarrow> string \<Rightarrow> string + 'db" where
  "bolt_OpenBolt B path =
     (case bOpen B path of
        Inl err \<Rightarrow> Inl err
      | Inr db \<Rightarrow>
          (case bUpdate B db (each (\<lambda>b tx. bCreate B tx b) [bucketMeta, bucketLog, bucketSnap]) of
             (db, Some err) \<Rightarrow> Inl err
           | (db, None) \<Rightarrow> Inr db))"

definition bolt_SaveHardState :: "('db, 'tx) Bolt \<Rightarrow> 'db \<Rightarrow> HardState \<Rightarrow> 'db \<times> error" where
  "bolt_SaveHardState B db hs =
     bUpdate B db (\<lambda>tx. andThen (bPut B tx bucketMeta keyTerm (U8 (u64 (hsTerm hs))))
       (\<lambda>tx. bPut B tx bucketMeta keyVotedFor (U8 (ascii (VotedFor hs)))))"

definition bolt_LoadHardState :: "('db, 'tx) Bolt \<Rightarrow> 'db \<Rightarrow> HardState \<times> error" where
  "bolt_LoadHardState B db =
     bView B db \<lparr>hsTerm = 0, VotedFor = ''''\<rparr> (\<lambda>tx.
       let (t, err) = getUint64 (bGet B tx bucketMeta keyTerm)
       in (\<lparr>hsTerm = t, VotedFor = getString (bGet B tx bucketMeta keyVotedFor)\<rparr>, err))"

definition bolt_Append :: "('db, 'tx) Bolt \<Rightarrow> (LogEntry \<Rightarrow> slice \<times> error) \<Rightarrow> 'db \<Rightarrow> LogEntry list \<Rightarrow> 'db \<times> error" where
  "bolt_Append B pbMarshal db es =
     (if es = [] then (db, None)
      else bUpdate B db (each (\<lambda>e tx. case pbMarshal e of
             (d, Some err) \<Rightarrow> (tx, Some err)
           | (d, None) \<Rightarrow> bPut B tx bucketLog (u64 (Index e)) d) es))"

definition bolt_TruncateSuffix :: "('db, 'tx) Bolt \<Rightarrow> 'db \<Rightarrow> uint64 \<Rightarrow> 'db \<times> error" where
  "bolt_TruncateSuffix B db idx =
     bUpdate B db (\<lambda>tx. each (\<lambda>k tx. bDelete B tx bucketLog k) (map fst (bSeek B tx bucketLog (u64 idx))) tx)"

fun prefixKeys :: "uint64 \<Rightarrow> (octets \<times> slice) list \<Rightarrow> octets list option" where
  "prefixKeys idx [] = Some []"
| "prefixKeys idx ((k, v) # kvs) =
     (case Uint64 k of
        None \<Rightarrow> None
      | Some i \<Rightarrow> if idx < i then Some [] else map_option ((#) k) (prefixKeys idx kvs))"

definition bolt_TruncatePrefix :: "('db, 'tx) Bolt \<Rightarrow> 'db \<Rightarrow> uint64 \<Rightarrow> 'db \<times> error" where
  "bolt_TruncatePrefix B db idx =
     bUpdate B db (\<lambda>tx.
       case prefixKeys idx (bFirst B tx bucketLog) of
         None \<Rightarrow> (tx, shortSlice)
       | Some ks \<Rightarrow> each (\<lambda>k tx. bDelete B tx bucketLog k) ks tx)"

fun decodeAll :: "(slice \<Rightarrow> LogEntry \<times> error) \<Rightarrow> slice list \<Rightarrow> LogEntry list \<times> error" where
  "decodeAll pbUnmarshal [] = ([], None)"
| "decodeAll pbUnmarshal (v # vs) =
     (case pbUnmarshal v of
        (e, Some err) \<Rightarrow> ([], Some (''unmarshal log entry: '' @ err))
      | (e, None) \<Rightarrow> let (es, err) = decodeAll pbUnmarshal vs in (e # es, err))"

definition bolt_AllEntries :: "('db, 'tx) Bolt \<Rightarrow> (slice \<Rightarrow> LogEntry \<times> error) \<Rightarrow> 'db \<Rightarrow> LogEntry list \<times> error" where
  "bolt_AllEntries B pbUnmarshal db =
     bView B db [] (\<lambda>tx. decodeAll pbUnmarshal (map snd (bFirst B tx bucketLog)))"

definition bolt_SaveSnapshot :: "('db, 'tx) Bolt \<Rightarrow> 'db \<Rightarrow> Snapshot \<Rightarrow> 'db \<times> error" where
  "bolt_SaveSnapshot B db p =
     bUpdate B db (\<lambda>tx. andThen (andThen (bPut B tx bucketSnap keySnapIndex (U8 (u64 (snapIndex p))))
       (\<lambda>tx. bPut B tx bucketSnap keySnapTerm (U8 (u64 (snapTerm p)))))
       (\<lambda>tx. bPut B tx bucketSnap keySnapData (Text (snapData p))))"

definition bolt_LoadSnapshot :: "('db, 'tx) Bolt \<Rightarrow> 'db \<Rightarrow> Snapshot \<times> error" where
  "bolt_LoadSnapshot B db =
     bView B db \<lparr>snapIndex = 0, snapTerm = 0, snapData = NoBytes\<rparr> (\<lambda>tx.
       let (i, err1) = getUint64 (bGet B tx bucketSnap keySnapIndex);
           (t, err2) = getUint64 (bGet B tx bucketSnap keySnapTerm)
       in (\<lparr>snapIndex = i, snapTerm = t, snapData = getData (bGet B tx bucketSnap keySnapData)\<rparr>,
           if err1 = None then err2 else err1))"

definition bolt_Close :: "('db, 'tx) Bolt \<Rightarrow> 'db \<Rightarrow> 'db \<times> error" where
  "bolt_Close B db = bClose B db"

section \<open>What the code relies on\<close>

definition bolt_spec :: "('db, 'tx) Bolt \<Rightarrow> ('tx \<Rightarrow> octets \<Rightarrow> (octets, slice) fmap) \<Rightarrow> bool" where
  "bolt_spec B tree \<longleftrightarrow>
     (\<forall>tx b k. bGet B tx b k = fmlookup (tree tx b) k) \<and>
     (\<forall>tx b k v tx'. bPut B tx b k v = (tx', None) \<longrightarrow> tree tx' = (tree tx)(b := fmupd k v (tree tx b))) \<and>
     (\<forall>tx b k tx'. bDelete B tx b k = (tx', None) \<longrightarrow> tree tx' = (tree tx)(b := fmdrop k (tree tx b))) \<and>
     (\<forall>tx b. bFirst B tx b = items_sorted (tree tx b)) \<and>
     (\<forall>tx b k. bSeek B tx b k = filter (\<lambda>kv. k \<le> fst kv) (items_sorted (tree tx b))) \<and>
     (\<forall>db f db'. bUpdate B db f = (db', None) \<longrightarrow>
        (\<exists>tx tx' tx''. bBegin B db = Inr tx \<and> f tx = (tx', None) \<and> bBegin B db' = Inr tx'' \<and> tree tx'' = tree tx')) \<and>
     (\<forall>db f db' err. bUpdate B db f = (db', Some err) \<longrightarrow> db' = db)"

definition codec_spec :: "(LogEntry \<Rightarrow> slice \<times> error) \<Rightarrow> (slice \<Rightarrow> LogEntry \<times> error) \<Rightarrow> bool" where
  "codec_spec m u \<longleftrightarrow> (\<forall>e d. m e = (d, None) \<longrightarrow> u d = (e, None))"

lemma bolt_specD:
  assumes "bolt_spec B tree"
  shows "bGet B tx b k = fmlookup (tree tx b) k"
    "bPut B tx b k v = (tx', None) \<Longrightarrow> tree tx' = (tree tx)(b := fmupd k v (tree tx b))"
    "bDelete B tx b k = (tx', None) \<Longrightarrow> tree tx' = (tree tx)(b := fmdrop k (tree tx b))"
    "bFirst B tx b = items_sorted (tree tx b)"
    "bSeek B tx b k = filter (\<lambda>kv. k \<le> fst kv) (items_sorted (tree tx b))"
  using assms by (auto simp: bolt_spec_def)

lemma bolt_update:
  assumes "bolt_spec B tree" "bUpdate B db f = (db', None)"
  obtains tx tx' tx'' where "bBegin B db = Inr tx" "f tx = (tx', None)" "bBegin B db' = Inr tx''" "tree tx'' = tree tx'"
  using assms unfolding bolt_spec_def by metis

lemma andThen_None: "andThen r f = (tx', None) \<longleftrightarrow> (\<exists>tx. r = (tx, None) \<and> f tx = (tx', None))"
  by (auto simp: andThen_def split: prod.splits option.splits)

section \<open>The simulation\<close>

text \<open>The log bucket holds the marshalled entries of a log, under the big-endian form of their indexes.\<close>

definition log_rel :: "(LogEntry \<Rightarrow> slice \<times> error) \<Rightarrow> (octets, slice) fmap \<Rightarrow> (uint64, LogEntry) fmap \<Rightarrow> bool" where
  "log_rel m L M \<longleftrightarrow> (\<forall>k. fmlookup L k \<noteq> None \<longrightarrow> (\<exists>i<two64. k = u64 i)) \<and>
     (\<forall>i. fmlookup M i \<noteq> None \<longrightarrow> i < two64) \<and>
     (\<forall>i<two64. rel_option (\<lambda>v e. m e = (v, None)) (fmlookup L (u64 i)) (fmlookup M i))"

definition tree_rel :: "(LogEntry \<Rightarrow> slice \<times> error) \<Rightarrow> (octets \<Rightarrow> (octets, slice) fmap) \<Rightarrow> MemStore \<Rightarrow> bool" where
  "tree_rel m t ms \<longleftrightarrow>
     getUint64 (fmlookup (t bucketMeta) keyTerm) = (hsTerm (ms_hs ms), None) \<and>
     getString (fmlookup (t bucketMeta) keyVotedFor) = VotedFor (ms_hs ms) \<and>
     getUint64 (fmlookup (t bucketSnap) keySnapIndex) = (snapIndex (ms_snap ms), None) \<and>
     getUint64 (fmlookup (t bucketSnap) keySnapTerm) = (snapTerm (ms_snap ms), None) \<and>
     getData (fmlookup (t bucketSnap) keySnapData) = snapData (ms_snap ms) \<and>
     log_rel m (t bucketLog) (ms_log ms)"

definition bolt_rel :: "('db, 'tx) Bolt \<Rightarrow> ('tx \<Rightarrow> octets \<Rightarrow> (octets, slice) fmap) \<Rightarrow> (LogEntry \<Rightarrow> slice \<times> error) \<Rightarrow> 'db \<Rightarrow> MemStore \<Rightarrow> bool" where
  "bolt_rel B tree m db ms \<longleftrightarrow> (\<exists>tx. bBegin B db = Inr tx \<and> tree_rel m (tree tx) ms)"

lemma log_rel_upd:
  assumes "log_rel m L M" "m e = (v, None)" "Index e < two64"
  shows "log_rel m (fmupd (u64 (Index e)) v L) (fmupd (Index e) e M)"
  using assms by (auto simp: log_rel_def u64_inj)

lemma log_rel_filter:
  assumes "log_rel m L M" "\<And>i. i < two64 \<Longrightarrow> Q (u64 i) = P i"
  shows "log_rel m (fmfilter Q L) (fmfilter P M)"
  using assms by (auto simp: log_rel_def split: if_splits)

lemma log_rel_keys:
  assumes "log_rel m L M"
  shows "keys_sorted L = map u64 (keys_sorted M)" "i \<in> set (keys_sorted M) \<Longrightarrow> i < two64"
proof -
  have bound: "i < two64" if "i |\<in>| fmdom M" for i using that assms by (auto simp: log_rel_def fmlookup_dom_iff)
  then show "i \<in> set (keys_sorted M) \<Longrightarrow> i < two64" by simp
  have sorted: "sorted (map u64 ks)" if "sorted ks" "\<forall>i\<in>set ks. i < two64" for ks
    using that by (induction ks) (auto simp: u64_le)
  show "keys_sorted L = map u64 (keys_sorted M)"
  proof (rule keys_sorted_eqI)
    show "sorted (map u64 (keys_sorted M))" by (rule sorted) (auto intro: bound)
    show "distinct (map u64 (keys_sorted M))"
      by (auto simp: distinct_map inj_on_def u64_inj bound)
    have "k |\<in>| fmdom L \<longleftrightarrow> (\<exists>i. i |\<in>| fmdom M \<and> k = u64 i)" for k
    proof
      assume "k |\<in>| fmdom L"
      then obtain i v where i: "i < two64" "k = u64 i" "fmlookup L (u64 i) = Some v" using assms by (auto simp: log_rel_def fmlookup_dom_iff)
      then have "rel_option (\<lambda>v e. m e = (v, None)) (Some v) (fmlookup M i)" using assms unfolding log_rel_def by metis
      then show "\<exists>i. i |\<in>| fmdom M \<and> k = u64 i" using i by (cases "fmlookup M i") (auto intro: fmdomI)
    next
      assume "\<exists>i. i |\<in>| fmdom M \<and> k = u64 i"
      then obtain i e where i: "k = u64 i" "fmlookup M i = Some e" "i < two64" using bound by (auto simp: fmlookup_dom_iff)
      then have "rel_option (\<lambda>v e. m e = (v, None)) (fmlookup L (u64 i)) (Some e)" using assms unfolding log_rel_def by metis
      then show "k |\<in>| fmdom L" using i by (cases "fmlookup L (u64 i)") (auto intro: fmdomI)
    qed
    then show "set (map u64 (keys_sorted M)) = fset (fmdom L)" by auto
  qed
qed

lemma log_rel_items:
  assumes "log_rel m L M" "codec_spec m u"
  shows "decodeAll u (map snd (items_sorted L)) = (mem_list M, None)"
proof -
  have val: "u (the (fmlookup L (u64 i))) = (the (fmlookup M i), None)" if i: "i \<in> set (keys_sorted M)" for i
  proof -
    have "i < two64" using log_rel_keys(2) [OF assms(1) i] .
    moreover obtain e where "fmlookup M i = Some e" using i by (auto simp: fmlookup_dom_iff)
    ultimately have "rel_option (\<lambda>v e. m e = (v, None)) (fmlookup L (u64 i)) (Some e)" using assms(1) unfolding log_rel_def by metis
    then show ?thesis using \<open>fmlookup M i = Some e\<close> assms(2) by (cases "fmlookup L (u64 i)") (auto simp: codec_spec_def)
  qed
  have "decodeAll u (map (\<lambda>i. the (fmlookup L (u64 i))) is) = (map (\<lambda>i. the (fmlookup M i)) is, None)" if "set is \<subseteq> set (keys_sorted M)" for "is"
    using that by (induction "is") (auto simp: val)
  from this [OF order.refl] show ?thesis by (simp add: items_sorted_def log_rel_keys(1) [OF assms(1)] comp_def)
qed

lemma each_put:
  assumes B: "bolt_spec B tree"
    and "each (\<lambda>e tx. case m e of (d, Some err) \<Rightarrow> (tx, Some err) | (d, None) \<Rightarrow> bPut B tx bucketLog (u64 (Index e)) d) es tx = (tx', None)"
    and "\<forall>e\<in>set es. Index e < two64" "log_rel m (tree tx bucketLog) M"
  shows "log_rel m (tree tx' bucketLog) (fold (\<lambda>e. fmupd (Index e) e) es M) \<and> (\<forall>b. b \<noteq> bucketLog \<longrightarrow> tree tx' b = tree tx b)"
  using assms(2-)
proof (induction es arbitrary: tx M)
  case (Cons e es)
  obtain tx1 d where tx1: "m e = (d, None)" "bPut B tx bucketLog (u64 (Index e)) d = (tx1, None)"
    "each (\<lambda>e tx. case m e of (d, Some err) \<Rightarrow> (tx, Some err) | (d, None) \<Rightarrow> bPut B tx bucketLog (u64 (Index e)) d) es tx1 = (tx', None)"
    using Cons.prems(1) by (auto simp: andThen_None split: prod.splits option.splits)
  have t1: "tree tx1 = (tree tx)(bucketLog := fmupd (u64 (Index e)) d (tree tx bucketLog))" using bolt_specD(2) [OF B tx1(2)] .
  then have "log_rel m (tree tx1 bucketLog) (fmupd (Index e) e M)" using log_rel_upd [OF Cons.prems(3) tx1(1)] Cons.prems(2) by simp
  then show ?case using Cons.IH [OF tx1(3)] Cons.prems(2) t1 by simp
qed simp

lemma each_delete:
  assumes B: "bolt_spec B tree" and "each (\<lambda>k tx. bDelete B tx bucketLog k) ks tx = (tx', None)"
  shows "tree tx' = (tree tx)(bucketLog := fmfilter (\<lambda>k. k \<notin> set ks) (tree tx bucketLog))"
  using assms(2)
proof (induction ks arbitrary: tx)
  case (Cons k ks)
  obtain tx1 where tx1: "bDelete B tx bucketLog k = (tx1, None)" "each (\<lambda>k tx. bDelete B tx bucketLog k) ks tx1 = (tx', None)"
    using Cons.prems by (auto simp: andThen_None)
  have "fmfilter (\<lambda>x. x \<notin> set ks) (fmdrop k (tree tx bucketLog)) = fmfilter (\<lambda>x. x \<notin> set (k # ks)) (tree tx bucketLog)"
    by (rule fmap_ext) simp
  then show ?case using Cons.IH [OF tx1(2)] bolt_specD(3) [OF B tx1(1)] by (auto simp: fun_eq_iff cong del: fmfilter_cong)
next
  case Nil
  have "fmfilter (\<lambda>_. True) (tree tx bucketLog) = tree tx bucketLog" by (rule fmap_ext) simp
  then show ?case using Nil by simp
qed

lemma fmfilter_dom_cong:
  "(\<And>k. fmlookup m k \<noteq> None \<Longrightarrow> P k = Q k) \<Longrightarrow> fmfilter P m = fmfilter Q m"
  by (rule fmap_ext) (auto simp: fmlookup_filter)

lemma prefixKeys_sorted:
  assumes "sorted ks" "\<forall>i\<in>set ks. i < two64"
  shows "prefixKeys idx (map (\<lambda>k. (u64 k, f k)) ks) = Some (map u64 (filter (\<lambda>i. i \<le> idx) ks))"
  using assms
proof (induction ks)
  case (Cons k ks)
  show ?case
  proof (cases "idx < k")
    case True
    then have "filter (\<lambda>i. i \<le> idx) (k # ks) = []" using Cons.prems(1) by (auto simp: filter_empty_conv)
    then show ?thesis using True Cons.prems(2) by simp
  qed (use Cons in simp)
qed simp

lemma tree_rel_log:
  assumes "tree_rel m t ms" "log_rel m L M" "t' = t(bucketLog := L)"
  shows "tree_rel m t' (ms\<lparr>ms_log := M\<rparr>)"
  using assms by (auto simp: tree_rel_def key_defs ascii_def)

lemma bolt_step:
  assumes "bolt_spec B tree" "bUpdate B db f = (db', None)" "bBegin B db = Inr tx" "\<And>tx'. f tx = (tx', None) \<Longrightarrow> tree_rel m (tree tx') ms'"
  shows "bolt_rel B tree m db' ms'"
  using bolt_update [OF assms(1,2)] assms(3,4) by (auto simp: bolt_rel_def) (metis sum.inject(2))

lemma tree_rel_log_rel: "tree_rel m t ms \<Longrightarrow> log_rel m (t bucketLog) (ms_log ms)"
  by (simp add: tree_rel_def)

lemma log_rel_items_keys:
  assumes "log_rel m L M"
  shows "items_sorted L = map (\<lambda>i. (u64 i, the (fmlookup L (u64 i)))) (keys_sorted M)"
    "i < two64 \<Longrightarrow> fmlookup L (u64 i) \<noteq> None \<longleftrightarrow> i \<in> set (keys_sorted M)"
proof -
  show "items_sorted L = map (\<lambda>i. (u64 i, the (fmlookup L (u64 i)))) (keys_sorted M)"
    by (simp add: items_sorted_def log_rel_keys(1) [OF assms])
  show "fmlookup L (u64 i) \<noteq> None \<longleftrightarrow> i \<in> set (keys_sorted M)" if "i < two64"
    using that assms by (auto simp: log_rel_def fmlookup_dom_iff) (metis option.rel_distinct(1) option.rel_distinct(2) not_Some_eq)+
qed

text \<open>Deleting a set of keys that is characterised by a predicate on the indexes.\<close>

lemma tree_rel_delete:
  assumes B: "bolt_spec B tree" and t: "tree_rel m (tree tx) ms" and d: "each (\<lambda>k tx. bDelete B tx bucketLog k) ks tx = (tx', None)"
    and ks: "\<And>i. i < two64 \<Longrightarrow> i \<in> set (keys_sorted (ms_log ms)) \<Longrightarrow> (u64 i \<notin> set ks) = P i"
  shows "tree_rel m (tree tx') (ms\<lparr>ms_log := fmfilter P (ms_log ms)\<rparr>)"
proof (rule tree_rel_log [OF t _ each_delete [OF B d]])
  note lr = tree_rel_log_rel [OF t]
  have "fmfilter (\<lambda>k. k \<notin> set ks) (tree tx bucketLog) = fmfilter (\<lambda>k. P (the (Uint64 k))) (tree tx bucketLog)"
  proof (rule fmfilter_dom_cong)
    fix k assume k: "fmlookup (tree tx bucketLog) k \<noteq> None"
    then obtain i where i: "i < two64" "k = u64 i" using lr unfolding log_rel_def by blast
    with k have "i \<in> set (keys_sorted (ms_log ms))" using log_rel_items_keys(2) [OF lr i(1)] by simp
    with i ks show "(k \<notin> set ks) = P (the (Uint64 k))" by simp
  qed
  then show "log_rel m (fmfilter (\<lambda>k. k \<notin> set ks) (tree tx bucketLog)) (fmfilter P (ms_log ms))"
    using log_rel_filter [OF lr, of "\<lambda>k. P (the (Uint64 k))" P] by simp
qed

lemma sim_SaveHardState:
  assumes B: "bolt_spec B tree" and tx: "bBegin B db = Inr tx" "tree_rel m (tree tx) ms"
    and h: "hsTerm hs < two64" "bolt_SaveHardState B db hs = (db', None)"
  shows "bolt_rel B tree m db' (fst (mem_SaveHardState ms hs))"
proof (rule bolt_step [OF B h(2) [unfolded bolt_SaveHardState_def] tx(1)])
  fix tx'
  assume "andThen (bPut B tx bucketMeta keyTerm (U8 (u64 (hsTerm hs)))) (\<lambda>tx. bPut B tx bucketMeta keyVotedFor (U8 (ascii (VotedFor hs)))) = (tx', None)"
  then have "tree tx' = (tree tx)(bucketMeta := fmupd keyVotedFor (U8 (ascii (VotedFor hs))) (fmupd keyTerm (U8 (u64 (hsTerm hs))) (tree tx bucketMeta)))"
    by (auto simp: andThen_None dest!: bolt_specD(2) [OF B])
  then show "tree_rel m (tree tx') (fst (mem_SaveHardState ms hs))"
    using tx(2) h(1) by (simp add: tree_rel_def mem_SaveHardState_def key_defs ascii_def getUint64_def getString_def) (simp add: chars_def comp_def)
qed

lemma sim_Append:
  assumes B: "bolt_spec B tree" and tx: "bBegin B db = Inr tx" "tree_rel m (tree tx) ms"
    and h: "\<forall>e\<in>set es. Index e < two64" "bolt_Append B m db es = (db', None)"
  shows "bolt_rel B tree m db' (fst (mem_Append ms es))"
proof (cases "es = []")
  case False
  then have u: "bUpdate B db (each (\<lambda>e tx. case m e of (d, Some err) \<Rightarrow> (tx, Some err) | (d, None) \<Rightarrow> bPut B tx bucketLog (u64 (Index e)) d) es) = (db', None)"
    using h(2) by (simp add: bolt_Append_def)
  show ?thesis
  proof (rule bolt_step [OF B u tx(1)])
    fix tx'
    assume "each (\<lambda>e tx. case m e of (d, Some err) \<Rightarrow> (tx, Some err) | (d, None) \<Rightarrow> bPut B tx bucketLog (u64 (Index e)) d) es tx = (tx', None)"
    note p = each_put [OF B this h(1) tree_rel_log_rel [OF tx(2)]]
    then have "tree tx' = (tree tx)(bucketLog := tree tx' bucketLog)" by auto
    then show "tree_rel m (tree tx') (fst (mem_Append ms es))"
      using tree_rel_log [OF tx(2) conjunct1 [OF p]] by (simp add: mem_Append_def)
  qed
next
  case True
  then show ?thesis using h(2) tx by (simp add: bolt_Append_def mem_Append_def bolt_rel_def)
qed

lemma sim_TruncateSuffix:
  assumes B: "bolt_spec B tree" and tx: "bBegin B db = Inr tx" "tree_rel m (tree tx) ms"
    and h: "idx < two64" "bolt_TruncateSuffix B db idx = (db', None)"
  shows "bolt_rel B tree m db' (fst (mem_TruncateSuffix ms idx))"
  unfolding mem_TruncateSuffix_def fst_conv
proof (rule bolt_step [OF B h(2) [unfolded bolt_TruncateSuffix_def] tx(1)], erule tree_rel_delete [OF B tx(2)])
  note lr = tree_rel_log_rel [OF tx(2)]
  fix i assume i: "i < two64" "i \<in> set (keys_sorted (ms_log ms))"
  then show "(u64 i \<notin> set (map fst (bSeek B tx bucketLog (u64 idx)))) = (\<not> idx \<le> i)"
    using h(1) log_rel_keys(2) [OF lr] by (auto simp: bolt_specD(5) [OF B] log_rel_items_keys(1) [OF lr] u64_inj u64_le image_iff)
qed

lemma sim_TruncatePrefix:
  assumes B: "bolt_spec B tree" and tx: "bBegin B db = Inr tx" "tree_rel m (tree tx) ms"
    and h: "bolt_TruncatePrefix B db idx = (db', None)"
  shows "bolt_rel B tree m db' (fst (mem_TruncatePrefix ms idx))"
  unfolding mem_TruncatePrefix_def fst_conv
proof (rule bolt_step [OF B h [unfolded bolt_TruncatePrefix_def] tx(1)])
  note lr = tree_rel_log_rel [OF tx(2)]
  fix tx'
  have ks: "prefixKeys idx (bFirst B tx bucketLog) = Some (map u64 (filter (\<lambda>i. i \<le> idx) (keys_sorted (ms_log ms))))"
    unfolding bolt_specD(4) [OF B] log_rel_items_keys(1) [OF lr] by (rule prefixKeys_sorted) (auto dest: log_rel_keys(2) [OF lr, simplified])
  assume "(case prefixKeys idx (bFirst B tx bucketLog) of None \<Rightarrow> (tx, shortSlice) | Some ks \<Rightarrow> each (\<lambda>k tx. bDelete B tx bucketLog k) ks tx) = (tx', None)"
  then have "each (\<lambda>k tx. bDelete B tx bucketLog k) (map u64 (filter (\<lambda>i. i \<le> idx) (keys_sorted (ms_log ms)))) tx = (tx', None)"
    by (simp add: ks)
  then show "tree_rel m (tree tx') (ms\<lparr>ms_log := fmfilter (\<lambda>k. \<not> k \<le> idx) (ms_log ms)\<rparr>)"
  proof (rule tree_rel_delete [OF B tx(2)])
    fix i assume i: "i < two64" "i \<in> set (keys_sorted (ms_log ms))"
    then show "(u64 i \<notin> set (map u64 (filter (\<lambda>i. i \<le> idx) (keys_sorted (ms_log ms))))) = (\<not> i \<le> idx)"
      using log_rel_keys(2) [OF lr] by (auto simp: u64_inj image_iff)
  qed
qed

lemma sim_SaveSnapshot:
  assumes B: "bolt_spec B tree" and tx: "bBegin B db = Inr tx" "tree_rel m (tree tx) ms"
    and h: "snapIndex p < two64" "snapTerm p < two64" "bolt_SaveSnapshot B db p = (db', None)"
  shows "bolt_rel B tree m db' (fst (mem_SaveSnapshot ms p))"
proof (rule bolt_step [OF B h(3) [unfolded bolt_SaveSnapshot_def] tx(1)])
  fix tx'
  assume "andThen (andThen (bPut B tx bucketSnap keySnapIndex (U8 (u64 (snapIndex p)))) (\<lambda>tx. bPut B tx bucketSnap keySnapTerm (U8 (u64 (snapTerm p)))))
     (\<lambda>tx. bPut B tx bucketSnap keySnapData (Text (snapData p))) = (tx', None)"
  then have "tree tx' = (tree tx)(bucketSnap := fmupd keySnapData (Text (snapData p)) (fmupd keySnapTerm (U8 (u64 (snapTerm p)))
      (fmupd keySnapIndex (U8 (u64 (snapIndex p))) (tree tx bucketSnap))))"
    by (auto simp: andThen_None dest!: bolt_specD(2) [OF B])
  then show "tree_rel m (tree tx') (fst (mem_SaveSnapshot ms p))"
    using tx(2) h(1,2) by (simp add: tree_rel_def mem_SaveSnapshot_def key_defs ascii_def getUint64_def getData_def)
qed

text \<open>
  The writes of the Raft core as commands to a store, so that the two stores can be run side by
  side.
\<close>

datatype storeOp =
    OpHardState HardState
  | OpAppend "LogEntry list"
  | OpSuffix uint64
  | OpPrefix uint64
  | OpSnapshot Snapshot

fun bolt_run :: "('db, 'tx) Bolt \<Rightarrow> (LogEntry \<Rightarrow> slice \<times> error) \<Rightarrow> 'db \<Rightarrow> storeOp \<Rightarrow> 'db \<times> error" where
  "bolt_run B m db (OpHardState hs) = bolt_SaveHardState B db hs"
| "bolt_run B m db (OpAppend es) = bolt_Append B m db es"
| "bolt_run B m db (OpSuffix i) = bolt_TruncateSuffix B db i"
| "bolt_run B m db (OpPrefix i) = bolt_TruncatePrefix B db i"
| "bolt_run B m db (OpSnapshot p) = bolt_SaveSnapshot B db p"

fun mem_run :: "MemStore \<Rightarrow> storeOp \<Rightarrow> MemStore" where
  "mem_run ms (OpHardState hs) = fst (mem_SaveHardState ms hs)"
| "mem_run ms (OpAppend es) = fst (mem_Append ms es)"
| "mem_run ms (OpSuffix i) = fst (mem_TruncateSuffix ms i)"
| "mem_run ms (OpPrefix i) = fst (mem_TruncatePrefix ms i)"
| "mem_run ms (OpSnapshot p) = fst (mem_SaveSnapshot ms p)"

fun op_range :: "storeOp \<Rightarrow> bool" where
  "op_range (OpHardState hs) \<longleftrightarrow> hsTerm hs < two64"
| "op_range (OpAppend es) \<longleftrightarrow> (\<forall>e\<in>set es. Index e < two64)"
| "op_range (OpSuffix i) \<longleftrightarrow> i < two64"
| "op_range (OpPrefix i) \<longleftrightarrow> i < two64"
| "op_range (OpSnapshot p) \<longleftrightarrow> snapIndex p < two64 \<and> snapTerm p < two64"

lemma bolt_rolled_back: "bolt_spec B tree \<Longrightarrow> bUpdate B db f = (db', Some err) \<Longrightarrow> db' = db"
  unfolding bolt_spec_def by blast

lemma bolt_run_sim:
  assumes "bolt_spec B tree" "bolt_rel B tree m db ms" "op_range x" "bolt_run B m db x = (db', err)"
  shows "bolt_rel B tree m db' (if err = None then mem_run ms x else ms)"
proof (cases err)
  case None
  obtain tx where tx: "bBegin B db = Inr tx" "tree_rel m (tree tx) ms" using assms(2) by (auto simp: bolt_rel_def)
  show ?thesis
    using assms(3,4) None sim_SaveHardState [OF assms(1) tx] sim_Append [OF assms(1) tx] sim_TruncateSuffix [OF assms(1) tx]
      sim_TruncatePrefix [OF assms(1) tx] sim_SaveSnapshot [OF assms(1) tx]
    by (cases x) auto
next
  case (Some e)
  then have "db' = db"
    using assms(4) bolt_rolled_back [OF assms(1)]
    by (cases x) (auto simp: bolt_SaveHardState_def bolt_Append_def bolt_TruncateSuffix_def bolt_TruncatePrefix_def bolt_SaveSnapshot_def split: if_splits)
  then show ?thesis using assms(2) Some by simp
qed

lemma bolt_rel_loads:
  assumes B: "bolt_spec B tree" and u: "codec_spec m u" and rel: "bolt_rel B tree m db ms"
  shows "bolt_LoadHardState B db = mem_LoadHardState ms" "bolt_LoadSnapshot B db = mem_LoadSnapshot ms"
    "bolt_AllEntries B u db = mem_AllEntries ms"
proof -
  obtain tx where tx: "bBegin B db = Inr tx" "tree_rel m (tree tx) ms" using rel by (auto simp: bolt_rel_def)
  show "bolt_LoadHardState B db = mem_LoadHardState ms" "bolt_LoadSnapshot B db = mem_LoadSnapshot ms"
    using tx by (simp_all add: bolt_LoadHardState_def bolt_LoadSnapshot_def bView_def bolt_specD(1) [OF B] tree_rel_def
        mem_LoadHardState_def mem_LoadSnapshot_def)
  show "bolt_AllEntries B u db = mem_AllEntries ms"
    using tx(1) log_rel_items [OF tree_rel_log_rel [OF tx(2)] u] by (simp add: bolt_AllEntries_def bView_def bolt_specD(4) [OF B] mem_AllEntries_def)
qed

text \<open>Running a sequence of writes; a failed one is logged and skipped by the caller.\<close>

fun bolt_runs :: "('db, 'tx) Bolt \<Rightarrow> (LogEntry \<Rightarrow> slice \<times> error) \<Rightarrow> 'db \<Rightarrow> storeOp list \<Rightarrow> 'db \<times> storeOp list" where
  "bolt_runs B m db [] = (db, [])"
| "bolt_runs B m db (x # xs) =
     (let (db, err) = bolt_run B m db x; (db, done) = bolt_runs B m db xs
      in (db, if err = None then x # done else done))"

text \<open>
  C31: The bbolt store refines the in-memory store.  After any sequence of writes, whichever of
  them fail, the three load methods return exactly what the in-memory store returns after the
  writes that succeeded: hard state, snapshot and the log in index order.
\<close>

theorem bolt_refines_mem:
  assumes "bolt_spec B tree" "codec_spec m u" "bolt_rel B tree m db ms" "\<forall>x\<in>set xs. op_range x" "bolt_runs B m db xs = (db', done)"
  shows "bolt_LoadHardState B db' = mem_LoadHardState (foldl mem_run ms done) \<and>
    bolt_LoadSnapshot B db' = mem_LoadSnapshot (foldl mem_run ms done) \<and>
    bolt_AllEntries B u db' = mem_AllEntries (foldl mem_run ms done)"
proof -
  have "bolt_rel B tree m db' (foldl mem_run ms done)" using assms(3-)
  proof (induction xs arbitrary: db ms "done")
    case (Cons x xs)
    obtain db1 err where x: "bolt_run B m db x = (db1, err)" by force
    obtain d2 where xs: "bolt_runs B m db1 xs = (db', d2)" "done = (if err = None then x # d2 else d2)"
      using Cons.prems(3) x by (auto split: prod.splits)
    have "bolt_rel B tree m db1 (if err = None then mem_run ms x else ms)" using bolt_run_sim [OF assms(1) Cons.prems(1) _ x] Cons.prems(2) by simp
    from Cons.IH [OF this _ xs(1)] show ?case using Cons.prems(2) xs(2) by (auto split: if_splits)
  qed simp
  then show ?thesis using bolt_rel_loads [OF assms(1,2)] by blast
qed

text \<open>
  C32: The big-endian keys of the log bucket are in the order of the indexes they stand for and
  decode to them, over the whole range of a 64-bit index; a cursor therefore visits the log in
  index order.
\<close>

theorem u64_keys_in_order:
  assumes "a < two64" "b < two64"
  shows "(u64 a < u64 b \<longleftrightarrow> a < b) \<and> (u64 a = u64 b \<longleftrightarrow> a = b) \<and> Uint64 (u64 a) = Some a"
  using assms by (simp add: u64_less u64_inj)

theorem u64_keys_in_order_witness: "u64 255 < u64 256 \<and> Uint64 (u64 (two64 - 1)) = Some (two64 - 1)"
  using u64_keys_in_order [of 255 256] u64_keys_in_order [of "two64 - 1" 0] by (simp add: two64_def)

section \<open>A database that satisfies the hypotheses\<close>

type_synonym map_db = "octets \<Rightarrow> (octets, slice) fmap"

definition mapDB :: "(map_db, map_db) Bolt" where
  "mapDB = \<lparr>bOpen = (\<lambda>path. Inr (\<lambda>_. fmempty)), bClose = (\<lambda>db. (db, None)),
     bUpdate = (\<lambda>db f. case f db of (tx, None) \<Rightarrow> (tx, None) | (tx, Some err) \<Rightarrow> (db, Some err)),
     bBegin = Inr, bCreate = (\<lambda>tx b. (tx, None)),
     bPut = (\<lambda>tx b k v. if k = [] then (tx, Some ''key required'') else (tx(b := fmupd k v (tx b)), None)),
     bGet = (\<lambda>tx b k. fmlookup (tx b) k), bDelete = (\<lambda>tx b k. (tx(b := fmdrop k (tx b)), None)),
     bFirst = (\<lambda>tx b. items_sorted (tx b)), bSeek = (\<lambda>tx b k. filter (\<lambda>kv. k \<le> fst kv) (items_sorted (tx b)))\<rparr>"

lemma mapDB_spec: "bolt_spec mapDB (\<lambda>tx. tx)"
  by (auto simp: bolt_spec_def mapDB_def split: prod.splits option.splits if_splits)

definition entry_marshal :: "LogEntry \<Rightarrow> slice \<times> error" where
  "entry_marshal e = (Text (JsonText (JArr [JInt (int (Term e)), JInt (int (Index e)), JB64 (Cmd e)])), None)"

fun entry_unmarshal :: "slice \<Rightarrow> LogEntry \<times> error" where
  "entry_unmarshal (Text (JsonText (JArr [JInt t, JInt i, JB64 c]))) = (\<lparr>Term = nat t, Index = nat i, Cmd = c\<rparr>, None)"
| "entry_unmarshal v = (\<lparr>Term = 0, Index = 0, Cmd = NoBytes\<rparr>, Some ''proto: cannot parse'')"

lemma entry_codec: "codec_spec entry_marshal entry_unmarshal"
  by (auto simp: codec_spec_def entry_marshal_def)

lemma mapDB_empty: "bolt_rel mapDB (\<lambda>tx. tx) m (\<lambda>_. fmempty) NewMemStore"
  by (simp add: bolt_rel_def mapDB_def tree_rel_def log_rel_def getUint64_def getString_def getData_def NewMemStore_def)

abbreviation demo_ops :: "storeOp list" where
  "demo_ops \<equiv> [OpHardState \<lparr>hsTerm = 7, VotedFor = ''b''\<rparr>, OpAppend [\<lparr>Term = 1, Index = 1, Cmd = NoBytes\<rparr>, \<lparr>Term = 1, Index = 300, Cmd = NoBytes\<rparr>]]"

theorem bolt_refines_mem_witness:
  "bolt_LoadHardState mapDB (fst (bolt_runs mapDB entry_marshal (\<lambda>_. fmempty) demo_ops)) = (\<lparr>hsTerm = 7, VotedFor = ''b''\<rparr>, None) \<and>
   bolt_AllEntries mapDB entry_unmarshal (fst (bolt_runs mapDB entry_marshal (\<lambda>_. fmempty) demo_ops)) =
     mem_AllEntries (foldl mem_run NewMemStore demo_ops)"
proof -
  have put: "k \<noteq> [] \<Longrightarrow> snd (bPut mapDB tx b k v) = None" for tx b k v by (simp add: mapDB_def)
  have upd: "snd (f db) = None \<Longrightarrow> snd (bUpdate mapDB db f) = None" for db f
    by (cases "f db") (simp add: mapDB_def)
  have "length (u64 i) = 8" for i by (simp add: u64_def)
  then have keys: "u64 i \<noteq> []" for i by (metis list.size(3) zero_neq_numeral)
  have keys2: "keyTerm \<noteq> []" "keyVotedFor \<noteq> []" by (simp_all add: key_defs ascii_def)
  have both: "snd (andThen r f) = None" if "snd r = None" "\<And>tx. snd (f tx) = None" for r :: "map_db \<times> error" and f
    using that by (cases r) (simp add: andThen_def)
  have hs: "snd (bolt_run mapDB entry_marshal db (OpHardState hs)) = None" for db hs
    by (simp add: bolt_SaveHardState_def upd both put keys2)
  have ap: "snd (bolt_run mapDB entry_marshal db (OpAppend es)) = None" for db es
  proof -
    have "snd (each (\<lambda>e tx. case entry_marshal e of (d, Some err) \<Rightarrow> (tx, Some err) | (d, None) \<Rightarrow> bPut mapDB tx bucketLog (u64 (Index e)) d) es tx) = None" for tx
      by (induction es arbitrary: tx) (simp_all add: both put keys entry_marshal_def)
    then show ?thesis by (simp add: bolt_Append_def upd)
  qed
  have runs: "bolt_runs mapDB entry_marshal db demo_ops = (fst (bolt_runs mapDB entry_marshal db demo_ops), demo_ops)" for db
    using hs ap by (simp add: case_prod_beta del: bolt_run.simps)
  have "\<forall>x\<in>set demo_ops. op_range x" by (simp add: two64_def)
  from bolt_refines_mem [OF mapDB_spec entry_codec mapDB_empty this runs]
  show ?thesis by (simp add: mem_LoadHardState_def mem_SaveHardState_def mem_Append_def del: bolt_runs.simps)
qed

end
