(* ===== verification/Server.thy ===== *)
theory Server
  imports Samples ReadIndex
begin

text \<open>
  The HTTP front end of a node, \<open>src/internal/server/server.go\<close>, with the JSON bodies it reads
  and writes.  A handler that releases control (to wait for a command to be applied, to forward
  a request) is split there; it looks at the node more than once, so each part takes the node
  as it then is.  Forwarding goes through the HTTP client of the standard library: \<open>http\<close> maps
  method, URL and body to the response, \<open>None\<close> when the request fails.  The body of a request is
  what \<open>io.ReadAll\<close> returned, at most a megabyte of it.
\<close>

section \<open>Results on the wire\<close>

text \<open>\<open>skipVotes\<close> is an \<open>int\<close> in the program and never negative.\<close>

definition zero_result :: Result where
  "zero_result = \<lparr>rOK = False, rError = '''', rNowPlaying = None, rQueue = [], rSkipVotes = 0\<rparr>"

definition dec_votes :: "json \<Rightarrow> nat \<Rightarrow> nat \<times> error" where
  "dec_votes j v = (case dec_int j (int v) of (i, e) \<Rightarrow> (nat i, e))"

definition result_field :: "string \<Rightarrow> Result decoder" where
  "result_field k j r =
     (if key_is ''ok'' k then into rOK rOK_update dec_bool j r
      else if key_is ''error'' k then into rError rError_update dec_string j r
      else if key_is ''nowPlaying'' k then into rNowPlaying rNowPlaying_update (dec_ptr zero_song dec_song) j r
      else if key_is ''queue'' k then into rQueue rQueue_update (dec_slice ''[]*jukebox.Song'' zero_song dec_song) j r
      else if key_is ''skipVotes'' k then into rSkipVotes rSkipVotes_update dec_votes j r
      else (r, None))"

definition unmarshal_result :: "bytes \<Rightarrow> Result \<times> error" where
  "unmarshal_result b = unmarshal (dec_struct ''jukebox.Result'' result_field) b zero_result"

lemma result_keys:
  "\<not> key_is ''ok'' ''error''" "\<not> key_is ''ok'' ''nowPlaying''" "\<not> key_is ''ok'' ''queue''" "\<not> key_is ''ok'' ''skipVotes''"
  "\<not> key_is ''error'' ''nowPlaying''" "\<not> key_is ''error'' ''queue''" "\<not> key_is ''error'' ''skipVotes''"
  "\<not> key_is ''nowPlaying'' ''queue''" "\<not> key_is ''nowPlaying'' ''skipVotes''" "\<not> key_is ''queue'' ''skipVotes''"
  by (simp_all add: key_is_def lower_char_def)

lemma result_roundtrip:
  assumes "int (rSkipVotes r) < 2 ^ 63"
  shows "unmarshal_result (marshal_result r) = (r, None)"
proof -
  let ?a1 = "zero_result\<lparr>rOK := rOK r\<rparr>"
  let ?a2 = "?a1\<lparr>rError := rError r\<rparr>"
  let ?a3 = "?a2\<lparr>rNowPlaying := rNowPlaying r\<rparr>"
  let ?a4 = "?a3\<lparr>rQueue := rQueue r\<rparr>"
  let ?a5 = "?a4\<lparr>rSkipVotes := rSkipVotes r\<rparr>"
  note f = result_field_def into_def result_keys zero_result_def
  have steps:
    "result_field ''ok'' (JBool (rOK r)) zero_result = (?a1, None)"
    "result_field ''error'' (JStr (rError r)) ?a1 = (?a2, None)"
    "result_field ''nowPlaying'' (enc_song_ptr (rNowPlaying r)) ?a2 = (?a3, None)"
    "result_field ''queue'' (JArr (map enc_song (rQueue r))) ?a3 = (?a4, None)"
    "result_field ''skipVotes'' (JInt (int (rSkipVotes r))) ?a4 = (?a5, None)"
    using assms by (simp_all add: f dec_song_ptr dec_slice_map dec_song_enc_song dec_votes_def)
  have empties: "rError r = '''' \<longrightarrow> ?a2 = ?a1" "rNowPlaying r = None \<longrightarrow> ?a3 = ?a2" "rQueue r = [] \<longrightarrow> ?a4 = ?a3" "rSkipVotes r = 0 \<longrightarrow> ?a5 = ?a4"
    by (simp_all add: zero_result_def)
  note omit = dec_members_omitempty [where f = result_field]
  have last: "dec_members result_field (omitempty (rSkipVotes r = 0) ''skipVotes'' (JInt (int (rSkipVotes r)))) ?a4 = (?a5, None)"
    using omit [where ms = "[]", OF steps(5) empties(4)] by simp
  have "dec_struct ''jukebox.Result'' result_field (case marshal_result r of JsonText j \<Rightarrow> j) zero_result = (?a5, None)"
    unfolding marshal_result_def dec_struct_def bytes.case json.case append_Cons append_Nil
    unfolding dec_members_ok [where f = result_field, OF steps(1)] omit [OF steps(2) empties(1)]
      omit [OF steps(3) empties(2)] omit [OF steps(4) empties(3)] last ..
  then show ?thesis by (simp add: unmarshal_result_def unmarshal_def marshal_result_def zero_result_def)
qed

section \<open>Requests\<close>

record requestBody =
  bTitle :: string
  bAddedBy :: string
  bSongID :: string
  bToIndex :: int
  bVoter :: string
  bClientID :: string
  bSeq :: uint64

definition zero_body :: requestBody where
  "zero_body = \<lparr>bTitle = '''', bAddedBy = '''', bSongID = '''', bToIndex = 0, bVoter = '''', bClientID = '''', bSeq = 0\<rparr>"

definition body_field :: "string \<Rightarrow> requestBody decoder" where
  "body_field k j b =
     (if key_is ''title'' k then into bTitle bTitle_update dec_string j b
      else if key_is ''addedBy'' k then into bAddedBy bAddedBy_update dec_string j b
      else if key_is ''songId'' k then into bSongID bSongID_update dec_string j b
      else if key_is ''toIndex'' k then into bToIndex bToIndex_update dec_int j b
      else if key_is ''voter'' k then into bVoter bVoter_update dec_string j b
      else if key_is ''clientId'' k then into bClientID bClientID_update dec_string j b
      else if key_is ''seq'' k then into bSeq bSeq_update dec_uint64 j b
      else (b, None))"

definition unmarshal_body :: "bytes \<Rightarrow> requestBody \<times> error" where
  "unmarshal_body raw = unmarshal (dec_struct ''server.requestBody'' body_field) raw zero_body"

text \<open>\<open>itoa\<close> fills its buffer from the right; \<open>b\<close> is what is written already.\<close>

function itoa_loop :: "nat \<Rightarrow> string \<Rightarrow> string" where
  "itoa_loop v b = (if 0 < v then itoa_loop (v div 10) (char_of (48 + v mod 10) # b) else b)"
  by pat_completeness auto
termination
  by (relation "measure fst") auto

declare itoa_loop.simps [simp del]

definition itoa :: "uint64 \<Rightarrow> string" where
  "itoa v = (if v = 0 then ''0'' else itoa_loop v [])"

definition opCommand :: "string \<Rightarrow> requestBody \<Rightarrow> Command" where
  "opCommand op b =
     (let cmd = \<lparr>cOp = op, cClientID = bClientID b, cSeq = bSeq b, cSong = None, cSongID = bSongID b,
                 cToIndex = bToIndex b, cVoter = bVoter b\<rparr>
      in if op = OpEnqueue then
           let i = (if bSongID b = '''' then bClientID b @ ''-'' @ itoa (bSeq b) else bSongID b)
           in cmd\<lparr>cSong := Some \<lparr>sID = i, sTitle = bTitle b, sAddedBy = bAddedBy b\<rparr>\<rparr>
         else cmd)"

section \<open>Responses\<close>

record response =
  rspCode :: nat
  rspBody :: bytes

definition writeJSON :: "nat \<Rightarrow> json \<Rightarrow> response" where
  "writeJSON code j = \<lparr>rspCode = code, rspBody = JsonText j\<rparr>"

definition errorJSON :: "nat \<Rightarrow> string \<Rightarrow> response" where
  "errorJSON code msg = writeJSON code (JObj [(''error'', JStr msg)])"

definition writeResult :: "Result \<Rightarrow> response" where
  "writeResult r = \<lparr>rspCode = 200, rspBody = marshal_result r\<rparr>"

record Server =
  peerHTTP :: "nodeid \<rightharpoonup> string"
  hasShutdown :: bool

type_synonym httpClient = "string \<Rightarrow> string \<Rightarrow> bytes \<Rightarrow> response option"

definition leaderURL :: "Server \<Rightarrow> ('s, 'm) Node \<Rightarrow> string" where
  "leaderURL sv n = (case peerHTTP sv (LeaderID n) of None \<Rightarrow> '''' | Some u \<Rightarrow> u)"

text \<open>\<open>forward\<close> and \<open>forwardGet\<close>: \<open>None\<close> is \<open>return false\<close>; otherwise the leader's response is copied.\<close>

definition forward :: "httpClient \<Rightarrow> Server \<Rightarrow> ('s, 'm) Node \<Rightarrow> string \<Rightarrow> bytes \<Rightarrow> response option" where
  "forward http sv n path body =
     (if leaderURL sv n = '''' then None else http ''POST'' (leaderURL sv n @ path) body)"

definition forwardGet :: "httpClient \<Rightarrow> Server \<Rightarrow> ('s, 'm) Node \<Rightarrow> string \<Rightarrow> response option" where
  "forwardGet http sv n path =
     (if leaderURL sv n = '''' then None else http ''GET'' (leaderURL sv n @ path) NoBytes)"

section \<open>Writes\<close>

text \<open>
  \<open>opHandler\<close> up to the submission: either it has answered, or it goes on with a command.  The
  node is only read.
\<close>

definition opHandler_check ::
    "httpClient \<Rightarrow> Server \<Rightarrow> string \<Rightarrow> ('s, 'm) Node \<Rightarrow> string \<Rightarrow> string \<Rightarrow> bytes \<Rightarrow> response + Command" where
  "opHandler_check http sv op n meth path raw =
     (if meth \<noteq> ''POST'' then Inl (errorJSON 405 ''POST required'')
      else if \<not> IsLeader n then
        (case forward http sv n path raw of
           Some r \<Rightarrow> Inl r
         | None \<Rightarrow> Inl (errorJSON 503 ''no leader available''))
      else case (if raw \<noteq> NoBytes then unmarshal_body raw else (zero_body, None)) of
        (body, Some err) \<Rightarrow> Inl (errorJSON 400 ''invalid JSON'')
      | (body, None) \<Rightarrow> Inr (opCommand op body))"

text \<open>What it does with the outcome of \<open>Submit\<close>; \<open>n\<close> is the node at that time.\<close>

definition opHandler_reply ::
    "httpClient \<Rightarrow> Server \<Rightarrow> ('s, 'm) Node \<Rightarrow> string \<Rightarrow> bytes \<Rightarrow> bytes \<Rightarrow> error \<Rightarrow> response" where
  "opHandler_reply http sv n path raw res err =
     (case err of
        Some m \<Rightarrow>
          (case (if m = ErrNotLeader then forward http sv n path raw else None) of
             Some r \<Rightarrow> r
           | None \<Rightarrow> errorJSON 503 m)
      | None \<Rightarrow> writeResult (fst (unmarshal_result res)))"

section \<open>Reads and the rest\<close>

definition handleQueue ::
    "httpClient \<Rightarrow> Server \<Rightarrow> ('s, State) Node \<Rightarrow> string \<Rightarrow> string + uint64 \<Rightarrow> ('s, State) Node \<Rightarrow> response" where
  "handleQueue http sv n path readRes n' =
     (if \<not> IsLeader n then
        (case forwardGet http sv n path of Some r \<Rightarrow> r | None \<Rightarrow> errorJSON 503 ''no leader available'')
      else case readRes of
        Inl err \<Rightarrow> (case forwardGet http sv n' path of Some r \<Rightarrow> r | None \<Rightarrow> errorJSON 503 err)
      | Inr idx \<Rightarrow> writeResult (View (sm n')))"

definition enc_status :: "Status \<Rightarrow> string \<Rightarrow> json" where
  "enc_status st leaderHTTP = JObj [(''id'', JStr (stID st)), (''term'', JInt (int (stTerm st))), (''role'', JStr (stRole st)),
     (''leaderId'', JStr (stLeaderID st)), (''commitIndex'', JInt (int (stCommitIndex st))),
     (''lastApplied'', JInt (int (stLastApplied st))), (''lastIndex'', JInt (int (stLastIndex st))),
     (''logSize'', JInt (stLogSize st)), (''snapshotIndex'', JInt (int (stSnapshotIdx st))), (''leaderHttp'', JStr leaderHTTP)]"

definition handleStatus :: "Server \<Rightarrow> ('s, 'm) Node \<Rightarrow> response" where
  "handleStatus sv n =
     (let st = NodeStatus n
      in writeJSON 200 (enc_status st (case peerHTTP sv (stLeaderID st) of None \<Rightarrow> '''' | Some u \<Rightarrow> u)))"

text \<open>The second component tells whether the shutdown callback is scheduled.\<close>

definition handleKill :: "Server \<Rightarrow> response \<times> bool" where
  "handleKill sv = (writeJSON 200 (JObj [(''status'', JStr ''shutting down'')]), hasShutdown sv)"

datatype endpoint = EpStatus | EpQueue | EpOp string | EpKill | EpStatic | EpPreflight

text \<open>The routes of \<open>Handler\<close>, behind \<open>withCORS\<close>, which answers \<open>OPTIONS\<close> itself with 204.\<close>

definition Handler_route :: "string \<Rightarrow> string \<Rightarrow> endpoint" where
  "Handler_route meth path =
     (if meth = ''OPTIONS'' then EpPreflight
      else if path = ''/api/status'' then EpStatus
      else if path = ''/api/queue'' then EpQueue
      else if path = ''/api/enqueue'' then EpOp OpEnqueue
      else if path = ''/api/play-next'' then EpOp OpPlayNext
      else if path = ''/api/vote-skip'' then EpOp OpVoteSkip
      else if path = ''/api/reorder'' then EpOp OpReorder
      else if path = ''/api/admin/kill'' then EpKill
      else EpStatic)"

section \<open>Generated song ids\<close>

definition dec_value :: "string \<Rightarrow> nat" where
  "dec_value s = foldl (\<lambda>a c. a * 10 + (of_char c - 48)) 0 s"

definition digit :: "char \<Rightarrow> bool" where
  "digit c \<longleftrightarrow> 48 \<le> (of_char c :: nat) \<and> (of_char c :: nat) < 58"

lemma digit_of: "digit (char_of (48 + v mod 10 :: nat))" "(of_char (char_of (48 + v mod 10 :: nat)) :: nat) = 48 + v mod 10"
proof -
  have "v mod 10 < 10" by simp
  then have "48 + v mod 10 < 256" by linarith
  then show o: "(of_char (char_of (48 + v mod 10 :: nat)) :: nat) = 48 + v mod 10" by (simp add: of_char_of)
  show "digit (char_of (48 + v mod 10 :: nat))" unfolding digit_def o by simp
qed

lemma foldl_dec: "foldl (\<lambda>a c. a * 10 + (of_char c - 48)) k s = k * 10 ^ length s + dec_value s"
proof (induction s arbitrary: k)
  case (Cons c s)
  show ?case using Cons.IH [of "k * 10 + (of_char c - 48)"] Cons.IH [of "of_char c - 48"]
    by (simp add: dec_value_def algebra_simps)
qed (simp add: dec_value_def)

lemma itoa_loop_value:
  "dec_value (itoa_loop v b) = v * 10 ^ length b + dec_value b \<and> (list_all digit b \<longrightarrow> list_all digit (itoa_loop v b)) \<and>
     (0 < v \<or> b \<noteq> [] \<longrightarrow> itoa_loop v b \<noteq> [])"
proof (induction v b rule: itoa_loop.induct)
  case (1 v b)
  show ?case
  proof (cases "0 < v")
    case True
    let ?c = "char_of (48 + v mod 10) :: char"
    have "dec_value (?c # b) = (v mod 10) * 10 ^ length b + dec_value b"
      using foldl_dec [of "v mod 10" b] digit_of(2) [of v] by (simp add: dec_value_def)
    moreover have "v = v div 10 * 10 + v mod 10" by simp
    then have "v * 10 ^ length b = v div 10 * 10 ^ Suc (length b) + (v mod 10) * 10 ^ length b"
      by (metis add_mult_distrib mult.assoc power_Suc)
    ultimately show ?thesis using 1 [OF True] True digit_of(1) [of v] by (subst (1 2 3) itoa_loop.simps) simp
  next
    case False
    then show ?thesis by (subst (1 2 3) itoa_loop.simps) simp
  qed
qed

lemma itoa_value: "dec_value (itoa v) = v" "list_all digit (itoa v)" "itoa v \<noteq> []"
proof -
  have z: "digit (CHR ''0'')" by (simp add: digit_def)
  show "dec_value (itoa v) = v" "list_all digit (itoa v)" "itoa v \<noteq> []"
    using itoa_loop_value [of v "[]"] z by (auto simp: itoa_def dec_value_def)
qed

lemma split_last_dash:
  assumes "a @ ''-'' @ x = b @ ''-'' @ y" "list_all digit x" "list_all digit y"
  shows "a = b \<and> x = y"
proof -
  have dash: "\<not> digit (CHR ''-'')" by (simp add: digit_def)
  have tw: "takeWhile digit (rev (a @ ''-'' @ x)) = rev x" if "list_all digit x" for a x
    using that dash by (simp add: takeWhile_append list_all_iff)
  have "rev x = rev y" using tw [OF assms(2), of a] tw [OF assms(3), of b] assms(1) by metis
  then show ?thesis using assms(1) by simp
qed

text \<open>
  C35: The ids the server generates for songs are unique: requests that name no song id and differ
  in client or in sequence number enqueue songs with different ids, because the decimal form
  \<open>itoa\<close> writes is faithful and contains no dash.
\<close>

theorem generated_ids_unique:
  assumes "bSongID b = ''''" "bSongID b' = ''''" "(bClientID b, bSeq b) \<noteq> (bClientID b', bSeq b')"
  shows "map_option sID (cSong (opCommand OpEnqueue b)) \<noteq> map_option sID (cSong (opCommand OpEnqueue b'))"
proof
  assume "map_option sID (cSong (opCommand OpEnqueue b)) = map_option sID (cSong (opCommand OpEnqueue b'))"
  then have "bClientID b @ ''-'' @ itoa (bSeq b) = bClientID b' @ ''-'' @ itoa (bSeq b')"
    using assms(1,2) by (simp add: opCommand_def Let_def)
  then have "bClientID b = bClientID b' \<and> itoa (bSeq b) = itoa (bSeq b')" by (rule split_last_dash [OF _ itoa_value(2) itoa_value(2)])
  moreover from this have "bSeq b = bSeq b'" using itoa_value(1) by metis
  ultimately show False using assms(3) by simp
qed

theorem generated_ids_unique_witness:
  "map_option sID (cSong (opCommand OpEnqueue (zero_body\<lparr>bClientID := ''c'', bSeq := 1\<rparr>))) \<noteq>
   map_option sID (cSong (opCommand OpEnqueue (zero_body\<lparr>bClientID := ''c'', bSeq := 11\<rparr>)))"
  by (rule generated_ids_unique) (simp_all add: zero_body_def)

section \<open>Refused requests\<close>



end
