(* ===== verification/Client.thy ===== *)
theory Client
  imports Server
begin

text \<open>
  The client library, \<open>src/internal/client/client.go\<close>: session numbers, the retry loops and the
  decoding of responses.  The HTTP client of the standard library is an argument: \<open>http k m u b\<close>
  is what the \<open>k\<close>-th attempt with method \<open>m\<close>, URL \<open>u\<close> and body \<open>b\<close> gives, an error or a
  response; \<open>ctx k\<close> is the context's error before that attempt.  A loop also returns the requests
  it sent.  Together with the server and the jukebox this gives: however often an operation is
  retried, it takes effect once.
\<close>

record Client =
  addrs :: "string list"
  clientID :: string
  seqNo :: uint64

definition New_client :: "string list \<Rightarrow> nat \<Rightarrow> Client" where
  "New_client as r63 = \<lparr>addrs = as, clientID = ''client-'' @ itoa r63, seqNo = 0\<rparr>"

definition nextSeq :: "Client \<Rightarrow> Client \<times> uint64" where
  "nextSeq c = (let s = add64 (seqNo c) 1 in (c\<lparr>seqNo := s\<rparr>, s))"

record opRequest =
  qTitle :: string
  qAddedBy :: string
  qSongID :: string
  qToIndex :: int
  qVoter :: string
  qClientID :: string
  qSeq :: uint64

definition zero_request :: opRequest where
  "zero_request = \<lparr>qTitle = '''', qAddedBy = '''', qSongID = '''', qToIndex = 0, qVoter = '''', qClientID = '''', qSeq = 0\<rparr>"

definition marshal_request :: "opRequest \<Rightarrow> bytes" where
  "marshal_request q = JsonText (JObj (
     omitempty (qTitle q = '''') ''title'' (JStr (qTitle q)) @
     omitempty (qAddedBy q = '''') ''addedBy'' (JStr (qAddedBy q)) @
     omitempty (qSongID q = '''') ''songId'' (JStr (qSongID q)) @
     omitempty (qToIndex q = 0) ''toIndex'' (JInt (qToIndex q)) @
     omitempty (qVoter q = '''') ''voter'' (JStr (qVoter q)) @
     [(''clientId'', JStr (qClientID q)), (''seq'', JInt (int (qSeq q)))]))"

definition decode :: "response \<Rightarrow> Result option" where
  "decode rsp =
     (if rspCode rsp \<noteq> 200 then None
      else case unmarshal_result (rspBody rsp) of (r, Some err) \<Rightarrow> None | (r, None) \<Rightarrow> Some r)"

definition backoff :: "nat \<Rightarrow> int" where
  "backoff attempt = (let d = int (20 * (attempt + 1)) * Millisecond in if 300 * Millisecond < d then 300 * Millisecond else d)"

section \<open>The retry loops\<close>

type_synonym attemptHttp = "nat \<Rightarrow> string \<Rightarrow> string \<Rightarrow> bytes \<Rightarrow> string + response"

type_synonym sent = "(string \<times> string \<times> bytes) list"

text \<open>One attempt: the decoded result, or the error to remember.\<close>

definition attempt_result :: "string + response \<Rightarrow> string + Result" where
  "attempt_result a =
     (case a of
        Inl err \<Rightarrow> Inl err
      | Inr rsp \<Rightarrow> (case decode rsp of Some r \<Rightarrow> Inr r | None \<Rightarrow> Inl (''status '' @ itoa (rspCode rsp))))"

text \<open>
  The loop of \<open>do\<close> and \<open>Queue\<close> from attempt \<open>k\<close> on, with \<open>fuel\<close> attempts left.  Indexing an empty
  address list divides by zero.
\<close>

fun retry :: "Client \<Rightarrow> attemptHttp \<Rightarrow> (nat \<Rightarrow> error) \<Rightarrow> string \<Rightarrow> string \<Rightarrow> bytes \<Rightarrow> nat \<Rightarrow> nat \<Rightarrow> string \<Rightarrow> (string + Result) \<times> sent" where
  "retry c http ctx meth path body 0 k lastErr = (Inl lastErr, [])"
| "retry c http ctx meth path body (Suc fuel) k lastErr =
     (case ctx k of
        Some err \<Rightarrow> (Inl err, [])
      | None \<Rightarrow>
          if addrs c = [] then (Inl ''panic: integer divide by zero'', [])
          else
            let url = addrs c ! (k mod length (addrs c)) @ path in
            case attempt_result (http k meth url body) of
              Inr r \<Rightarrow> (Inr r, [(meth, url, body)])
            | Inl err \<Rightarrow>
                let (res, sent) = retry c http ctx meth path body fuel (Suc k) err
                in (res, (meth, url, body) # sent))"

definition client_do :: "Client \<Rightarrow> attemptHttp \<Rightarrow> (nat \<Rightarrow> error) \<Rightarrow> string \<Rightarrow> opRequest \<Rightarrow> Client \<times> (string + Result) \<times> sent" where
  "client_do c http ctx path q =
     (let (c, s) = nextSeq c;
          q = q\<lparr>qClientID := clientID c, qSeq := s\<rparr>
      in (c, retry c http ctx ''POST'' path (marshal_request q) 20 0 ''''))"

definition client_Queue :: "Client \<Rightarrow> attemptHttp \<Rightarrow> (nat \<Rightarrow> error) \<Rightarrow> (string + Result) \<times> sent" where
  "client_Queue c http ctx = retry c http ctx ''GET'' ''/api/queue'' NoBytes 10 0 ''''"

definition client_Enqueue :: "Client \<Rightarrow> attemptHttp \<Rightarrow> (nat \<Rightarrow> error) \<Rightarrow> string \<Rightarrow> string \<Rightarrow> Client \<times> (string + Result) \<times> sent" where
  "client_Enqueue c http ctx title addedBy = client_do c http ctx ''/api/enqueue'' (zero_request\<lparr>qTitle := title, qAddedBy := addedBy\<rparr>)"

definition client_PlayNext :: "Client \<Rightarrow> attemptHttp \<Rightarrow> (nat \<Rightarrow> error) \<Rightarrow> Client \<times> (string + Result) \<times> sent" where
  "client_PlayNext c http ctx = client_do c http ctx ''/api/play-next'' zero_request"

definition client_VoteSkip :: "Client \<Rightarrow> attemptHttp \<Rightarrow> (nat \<Rightarrow> error) \<Rightarrow> string \<Rightarrow> Client \<times> (string + Result) \<times> sent" where
  "client_VoteSkip c http ctx voter = client_do c http ctx ''/api/vote-skip'' (zero_request\<lparr>qVoter := voter\<rparr>)"

definition client_Reorder :: "Client \<Rightarrow> attemptHttp \<Rightarrow> (nat \<Rightarrow> error) \<Rightarrow> string \<Rightarrow> int \<Rightarrow> Client \<times> (string + Result) \<times> sent" where
  "client_Reorder c http ctx songID toIndex = client_do c http ctx ''/api/reorder'' (zero_request\<lparr>qSongID := songID, qToIndex := toIndex\<rparr>)"

section \<open>What a retry loop sends and returns\<close>

lemma attempt_ok:
  "attempt_result a = Inr r \<longleftrightarrow> (\<exists>rsp. a = Inr rsp \<and> rspCode rsp = 200 \<and> unmarshal_result (rspBody rsp) = (r, None))"
  by (auto simp: attempt_result_def decode_def split: sum.splits option.splits prod.splits if_splits)

lemma retry_sent:
  "length (snd (retry c http ctx meth path body fuel k lastErr)) \<le> fuel \<and>
   (\<forall>i<length (snd (retry c http ctx meth path body fuel k lastErr)).
      snd (retry c http ctx meth path body fuel k lastErr) ! i = (meth, addrs c ! ((k + i) mod length (addrs c)) @ path, body))"
proof (induction fuel arbitrary: k lastErr)
  case (Suc fuel)
  show ?case
  proof (cases "attempt_result (http k meth (addrs c ! (k mod length (addrs c)) @ path) body)")
    case (Inl err)
    then show ?thesis using Suc.IH [of "Suc k" err]
      by (auto simp: Let_def case_prod_beta nth_Cons split: option.split nat.split)
  qed (auto simp: Let_def split: option.split)
qed simp

lemma retry_result:
  assumes "fst (retry c http ctx meth path body fuel k lastErr) = Inr r"
  shows "\<exists>i. length (snd (retry c http ctx meth path body fuel k lastErr)) = Suc i \<and>
     attempt_result (http (k + i) meth (addrs c ! ((k + i) mod length (addrs c)) @ path) body) = Inr r"
  using assms
proof (induction fuel arbitrary: k lastErr)
  case (Suc fuel)
  have ok: "ctx k = None" "addrs c \<noteq> []" using Suc.prems by (auto split: option.splits if_splits)
  show ?case
  proof (cases "attempt_result (http k meth (addrs c ! (k mod length (addrs c)) @ path) body)")
    case (Inl err)
    then show ?thesis using Suc.IH [of "Suc k" err] Suc.prems ok by (auto simp: Let_def case_prod_beta)
  next
    case (Inr r')
    then show ?thesis using Suc.prems ok by (auto simp: Let_def)
  qed
qed simp

section \<open>Requests arrive as they were sent\<close>

lemma body_keys:
  "\<not> key_is ''title'' ''addedBy''" "\<not> key_is ''title'' ''songId''" "\<not> key_is ''title'' ''toIndex''" "\<not> key_is ''title'' ''voter''"
  "\<not> key_is ''title'' ''clientId''" "\<not> key_is ''title'' ''seq''" "\<not> key_is ''addedBy'' ''songId''" "\<not> key_is ''addedBy'' ''toIndex''"
  "\<not> key_is ''addedBy'' ''voter''" "\<not> key_is ''addedBy'' ''clientId''" "\<not> key_is ''addedBy'' ''seq''" "\<not> key_is ''songId'' ''toIndex''"
  "\<not> key_is ''songId'' ''voter''" "\<not> key_is ''songId'' ''clientId''" "\<not> key_is ''songId'' ''seq''" "\<not> key_is ''toIndex'' ''voter''"
  "\<not> key_is ''toIndex'' ''clientId''" "\<not> key_is ''toIndex'' ''seq''" "\<not> key_is ''voter'' ''clientId''" "\<not> key_is ''voter'' ''seq''"
  "\<not> key_is ''clientId'' ''seq''"
  by (simp_all add: key_is_def lower_char_def)

definition body_of :: "opRequest \<Rightarrow> requestBody" where
  "body_of q = \<lparr>bTitle = qTitle q, bAddedBy = qAddedBy q, bSongID = qSongID q, bToIndex = qToIndex q, bVoter = qVoter q,
     bClientID = qClientID q, bSeq = qSeq q\<rparr>"

definition request_ok :: "opRequest \<Rightarrow> bool" where
  "request_ok q \<longleftrightarrow> - (2 ^ 63) \<le> qToIndex q \<and> qToIndex q < 2 ^ 63 \<and> qSeq q < two64"

lemma unmarshal_request:
  assumes "request_ok q"
  shows "unmarshal_body (marshal_request q) = (body_of q, None)"
proof -
  let ?a1 = "zero_body\<lparr>bTitle := qTitle q\<rparr>"
  let ?a2 = "?a1\<lparr>bAddedBy := qAddedBy q\<rparr>"
  let ?a3 = "?a2\<lparr>bSongID := qSongID q\<rparr>"
  let ?a4 = "?a3\<lparr>bToIndex := qToIndex q\<rparr>"
  let ?a5 = "?a4\<lparr>bVoter := qVoter q\<rparr>"
  let ?a6 = "?a5\<lparr>bClientID := qClientID q\<rparr>"
  let ?a7 = "?a6\<lparr>bSeq := qSeq q\<rparr>"
  note f = body_field_def into_def body_keys zero_body_def
  have steps:
    "body_field ''title'' (JStr (qTitle q)) zero_body = (?a1, None)"
    "body_field ''addedBy'' (JStr (qAddedBy q)) ?a1 = (?a2, None)"
    "body_field ''songId'' (JStr (qSongID q)) ?a2 = (?a3, None)"
    "body_field ''toIndex'' (JInt (qToIndex q)) ?a3 = (?a4, None)"
    "body_field ''voter'' (JStr (qVoter q)) ?a4 = (?a5, None)"
    "body_field ''clientId'' (JStr (qClientID q)) ?a5 = (?a6, None)"
    "body_field ''seq'' (JInt (int (qSeq q))) ?a6 = (?a7, None)"
    using assms by (simp_all add: f request_ok_def)
  have empties: "qTitle q = '''' \<longrightarrow> ?a1 = zero_body" "qAddedBy q = '''' \<longrightarrow> ?a2 = ?a1" "qSongID q = '''' \<longrightarrow> ?a3 = ?a2"
    "qToIndex q = 0 \<longrightarrow> ?a4 = ?a3" "qVoter q = '''' \<longrightarrow> ?a5 = ?a4"
    by (simp_all add: zero_body_def)
  note omit = dec_members_omitempty [where f = body_field]
  have "dec_struct ''server.requestBody'' body_field (case marshal_request q of JsonText j \<Rightarrow> j) zero_body = (?a7, None)"
    unfolding marshal_request_def dec_struct_def bytes.case json.case
    unfolding omit [OF steps(1) empties(1)] omit [OF steps(2) empties(2)] omit [OF steps(3) empties(3)]
      omit [OF steps(4) empties(4)] omit [OF steps(5) empties(5)]
      dec_members_ok [where f = body_field, OF steps(6)] dec_members_ok [where f = body_field, OF steps(7)] by simp
  then show ?thesis by (simp add: unmarshal_body_def unmarshal_def marshal_request_def body_of_def zero_body_def)
qed

section \<open>Retries take effect once\<close>

definition stamped :: "Client \<Rightarrow> opRequest \<Rightarrow> opRequest" where
  "stamped c q = q\<lparr>qClientID := clientID c, qSeq := add64 (seqNo c) 1\<rparr>"

lemma client_do_eq:
  "client_do c http ctx path q =
     (c\<lparr>seqNo := add64 (seqNo c) 1\<rparr>, retry (c\<lparr>seqNo := add64 (seqNo c) 1\<rparr>) http ctx ''POST'' path (marshal_request (stamped c q)) 20 0 '''')"
  by (simp add: client_do_def nextSeq_def stamped_def Let_def)

lemma client_do_requests:
  assumes "client_do c http ctx path q = (c', res, sent)" "(m, u, raw) \<in> set sent"
  shows "m = ''POST'' \<and> raw = marshal_request (stamped c q)"
proof -
  from assms(2) obtain i where i: "i < length sent" "sent ! i = (m, u, raw)" by (auto simp: in_set_conv_nth)
  from assms(1) have "snd (retry c' http ctx ''POST'' path (marshal_request (stamped c q)) 20 0 '''') = sent"
    by (auto simp: client_do_eq)
  with retry_sent [of c' http ctx "''POST''" path "marshal_request (stamped c q)" 20 0 "''''"] i show ?thesis by auto
qed



text \<open>\<open>keep_first b log\<close>: the log without the later copies of \<open>b\<close>.\<close>

fun keep_first :: "'a \<Rightarrow> 'a list \<Rightarrow> 'a list" where
  "keep_first b [] = []"
| "keep_first b (x # xs) = (if x = b then x # removeAll b xs else x # keep_first b xs)"

lemma count_keep_first: "count_list (keep_first b xs) b \<le> 1"
  by (induction xs) auto

lemma run_removeAll:
  assumes "wf_state st" "unmarshal_command b = (c, None)" "session c" "covered st c"
  shows "run st (removeAll b log) = run st log"
  using assms(1,4)
proof (induction log arbitrary: st)
  case (Cons x log)
  have step: "run (fst (Apply st x)) (removeAll b log) = run (fst (Apply st x)) log"
    using Cons by (intro Cons.IH wf_Apply covered_stays)
  show ?case
  proof (cases "x = b")
    case True
    obtain r where "cached st c = Some r" using covered_cached Cons.prems assms(3) by blast
    then have "fst (Apply st b) = st" using assms(2) by (simp add: Apply_cached)
    with True step show ?thesis by simp
  qed (use step in simp)
qed simp

lemma run_keep_first:
  assumes "wf_state st" "unmarshal_command b = (c, None)" "session c"
  shows "run st (keep_first b log) = run st log"
  using assms(1)
proof (induction log arbitrary: st)
  case (Cons x log)
  have "run (fst (Apply st b)) (removeAll b log) = run (fst (Apply st b)) log"
    using Cons.prems assms by (intro run_removeAll wf_Apply covered_Apply)
  moreover have "run (fst (Apply st x)) (keep_first b log) = run (fst (Apply st x)) log"
    using Cons by (intro Cons.IH wf_Apply)
  ultimately show ?case by simp
qed simp

lemma server_command:
  assumes "opHandler_check http sv op n m path (marshal_request q) = Inr cmd" "request_ok q"
  shows "cmd = opCommand op (body_of q)"
proof -
  have "marshal_request q \<noteq> NoBytes" by (simp add: marshal_request_def)
  with assms show ?thesis by (simp add: opHandler_check_def unmarshal_request split: if_splits option.splits)
qed

lemma opCommand_roundtrip:
  assumes "request_ok q"
  shows "unmarshal_command (Encode (opCommand op (body_of q))) = (opCommand op (body_of q), None)"
  using assms by (intro unmarshal_Encode) (simp_all add: opCommand_def body_of_def request_ok_def Let_def)

text \<open>
  C29: However often an operation of the client is retried, through whichever servers, it takes
  effect once: every server that accepts one of its requests submits the same command, and a
  log with any number of copies of that command leads to the same jukebox as the log with only
  the first copy.
\<close>

theorem client_op_takes_effect_once:
  assumes "client_do c http ctx path q = (c', res, sent)" "wf_state st"
    and "clientID c \<noteq> ''''" "seqNo c + 1 < two64" "- (2 ^ 63) \<le> qToIndex q" "qToIndex q < 2 ^ 63"
  shows "\<exists>b. (\<forall>(m, u, raw)\<in>set sent. \<forall>h sv n cmd. opHandler_check h sv op n m path raw = Inr cmd \<longrightarrow> Encode cmd = b) \<and>
     (\<forall>log. run st log = run st (keep_first b log) \<and> count_list (keep_first b log) b \<le> 1)"
proof (intro exI conjI ballI allI impI; clarify?)
  let ?cmd = "opCommand op (body_of (stamped c q))"
  have ok: "request_ok (stamped c q)" using assms(5,6) by (simp add: request_ok_def stamped_def)
  have ses: "session ?cmd" using assms(3,4) by (simp add: session_def opCommand_def body_of_def stamped_def Let_def add64_def)
  show "Encode cmd = Encode ?cmd"
    if "(m, u, raw) \<in> set sent" "opHandler_check h sv op n m path raw = Inr cmd" for m u raw h sv cmd and n :: "('a, 'b) Node"
    using that client_do_requests [OF assms(1) that(1)] server_command [OF _ ok] by metis
  show "run st log = run st (keep_first (Encode ?cmd) log)" for log
    using run_keep_first [OF assms(2) opCommand_roundtrip [OF ok] ses] by simp
  show "count_list (keep_first (Encode ?cmd) log) (Encode ?cmd) \<le> 1" for log by (rule count_keep_first)
qed

theorem client_op_takes_effect_once_witness:
  "\<exists>b. \<forall>log. run New_jukebox log = run New_jukebox (keep_first b log) \<and> count_list (keep_first b log) b \<le> 1"
proof -
  let ?x = "client_do (New_client [''u''] 7) (\<lambda>k m u b. Inl ''refused'') (\<lambda>k. None) ''/api/play-next'' zero_request"
  have x: "?x = (fst ?x, fst (snd ?x), snd (snd ?x))" by (simp only: prod.collapse)
  have h: "clientID (New_client [''u''] 7) \<noteq> ''''" "seqNo (New_client [''u''] 7) + 1 < two64"
      "- (2 ^ 63) \<le> qToIndex zero_request" "qToIndex zero_request < 2 ^ 63"
    by (simp_all add: New_client_def zero_request_def two64_def)
  show ?thesis using client_op_takes_effect_once [OF x wf_New h] by blast
qed

end
