(* ===== verification/SimNet.thy ===== *)
theory SimNet
  imports Complex_Main RaftPb
begin

text \<open>
  The simulated network, \<open>src/internal/transport/sim.go\<close>: its fault controls, the decision
  whether a message gets through (\<open>canDeliver\<close>, \<open>prepare\<close>), and the three RPCs of an endpoint.
  The random draws are inputs (\<open>netEnv\<close>), and so is what the timer of a delayed message
  reports.  A handler is a value of type \<open>'h\<close> (in the program a pointer to a node); calling it
  is the argument \<open>call\<close>, which may change the world of type \<open>'w\<close>.  Probabilities are only
  compared, so a \<open>float64\<close> is a real number.
\<close>

definition ErrUnreachable :: string where
  "ErrUnreachable = ''transport: peer unreachable''"

record 'h Network =
  nw_nodes :: "nodeid \<rightharpoonup> 'h"
  isolated :: "nodeid \<Rightarrow> bool"
  grp :: "nodeid \<rightharpoonup> nat"
  dropRate :: real
  dupRate :: real
  minDelay :: int
  maxDelay :: int
  delivered :: uint64
  dropped :: uint64

definition NewNetwork :: "'h Network" where
  "NewNetwork = \<lparr>nw_nodes = Map.empty, isolated = (\<lambda>_. False), grp = Map.empty, dropRate = 0, dupRate = 0,
     minDelay = 0, maxDelay = 0, delivered = 0, dropped = 0\<rparr>"

section \<open>Fault controls\<close>

definition Register :: "nodeid \<Rightarrow> 'h \<Rightarrow> 'h Network \<Rightarrow> 'h Network" where
  "Register i h nw = nw\<lparr>nw_nodes := (nw_nodes nw)(i \<mapsto> h)\<rparr>"

definition Deregister :: "nodeid \<Rightarrow> 'h Network \<Rightarrow> 'h Network" where
  "Deregister i nw = nw\<lparr>nw_nodes := (nw_nodes nw)(i := None)\<rparr>"

definition SetDropRate :: "real \<Rightarrow> 'h Network \<Rightarrow> 'h Network" where
  "SetDropRate p nw = nw\<lparr>dropRate := p\<rparr>"

definition SetDuplicateRate :: "real \<Rightarrow> 'h Network \<Rightarrow> 'h Network" where
  "SetDuplicateRate p nw = nw\<lparr>dupRate := p\<rparr>"

definition SetLatency :: "int \<Rightarrow> int \<Rightarrow> 'h Network \<Rightarrow> 'h Network" where
  "SetLatency lo hi nw = nw\<lparr>minDelay := lo, maxDelay := hi\<rparr>"

definition Isolate :: "nodeid \<Rightarrow> 'h Network \<Rightarrow> 'h Network" where
  "Isolate i nw = nw\<lparr>isolated := (isolated nw)(i := True)\<rparr>"

definition Rejoin :: "nodeid \<Rightarrow> 'h Network \<Rightarrow> 'h Network" where
  "Rejoin i nw = nw\<lparr>isolated := (isolated nw)(i := False)\<rparr>"

text \<open>The loops over the groups: a node listed twice belongs to the last group that lists it.\<close>

fun groupLoop :: "nat \<Rightarrow> nodeid list list \<Rightarrow> (nodeid \<rightharpoonup> nat) \<Rightarrow> (nodeid \<rightharpoonup> nat)" where
  "groupLoop gi [] m = m"
| "groupLoop gi (g # gs) m = groupLoop (gi + 1) gs (fold (\<lambda>i m. m(i \<mapsto> gi + 1)) g m)"

definition Partition :: "nodeid list list \<Rightarrow> 'h Network \<Rightarrow> 'h Network" where
  "Partition groups nw = nw\<lparr>grp := groupLoop 0 groups Map.empty\<rparr>"

definition Heal :: "'h Network \<Rightarrow> 'h Network" where
  "Heal nw = nw\<lparr>grp := Map.empty, isolated := (\<lambda>_. False)\<rparr>"

definition Stats :: "'h Network \<Rightarrow> uint64 \<times> uint64" where
  "Stats nw = (delivered nw, dropped nw)"

section \<open>Delivering\<close>

record netEnv =
  dropDraw :: real
  delayDraw :: int
  dupDraw :: real

definition canDeliver :: "netEnv \<Rightarrow> 'h Network \<Rightarrow> nodeid \<Rightarrow> nodeid \<Rightarrow> bool" where
  "canDeliver e nw from to =
     (if isolated nw from \<or> isolated nw to then False
      else if mget (grp nw) from \<noteq> mget (grp nw) to then False
      else if 0 < dropRate nw \<and> dropDraw e < dropRate nw then False
      else True)"

definition prepare :: "netEnv \<Rightarrow> 'h Network \<Rightarrow> nodeid \<Rightarrow> nodeid \<Rightarrow> 'h Network \<times> ('h \<times> int \<times> bool) option" where
  "prepare e nw from to =
     (if \<not> canDeliver e nw from to then (nw\<lparr>dropped := add64 (dropped nw) 1\<rparr>, None)
      else case nw_nodes nw to of
        None \<Rightarrow> (nw\<lparr>dropped := add64 (dropped nw) 1\<rparr>, None)
      | Some h \<Rightarrow>
          let delay = (if minDelay nw < maxDelay nw then minDelay nw + delayDraw e mod (maxDelay nw - minDelay nw)
                       else minDelay nw);
              dup = (0 < dupRate nw \<and> dupDraw e < dupRate nw)
          in (nw\<lparr>delivered := add64 (delivered nw) 1\<rparr>, Some (h, delay, dup)))"

text \<open>\<open>ctxErr\<close> is the context's error when it ends before the timer fires.\<close>

definition netSleep :: "error \<Rightarrow> int \<Rightarrow> bool" where
  "netSleep ctxErr d = (if d \<le> 0 then True else ctxErr = None)"

type_synonym ('h, 'w, 'q, 'r) handlerCall = "'h \<Rightarrow> 'w \<Rightarrow> 'q \<Rightarrow> 'w \<times> 'r option \<times> error"

definition Endpoint_RequestVote ::
    "('h, 'w, RequestVoteRequest, RequestVoteResponse) handlerCall \<Rightarrow> netEnv \<Rightarrow> error \<Rightarrow> 'h Network \<Rightarrow> 'w \<Rightarrow> nodeid \<Rightarrow> nodeid \<Rightarrow>
     RequestVoteRequest \<Rightarrow> 'h Network \<times> 'w \<times> RequestVoteResponse option \<times> error" where
  "Endpoint_RequestVote call e ctxErr nw w me target req =
     (case prepare e nw me target of
        (nw, None) \<Rightarrow> (nw, w, None, Some ErrUnreachable)
      | (nw, Some (h, delay, dup)) \<Rightarrow>
          if \<not> netSleep ctxErr delay then (nw, w, None, ctxErr) else (nw, call h w req))"

definition Endpoint_AppendEntries ::
    "('h, 'w, AppendEntriesRequest, AppendEntriesResponse) handlerCall \<Rightarrow> netEnv \<Rightarrow> error \<Rightarrow> 'h Network \<Rightarrow> 'w \<Rightarrow> nodeid \<Rightarrow> nodeid \<Rightarrow>
     AppendEntriesRequest \<Rightarrow> 'h Network \<times> 'w \<times> AppendEntriesResponse option \<times> error" where
  "Endpoint_AppendEntries call e ctxErr nw w me target req =
     (case prepare e nw me target of
        (nw, None) \<Rightarrow> (nw, w, None, Some ErrUnreachable)
      | (nw, Some (h, delay, dup)) \<Rightarrow>
          if \<not> netSleep ctxErr delay then (nw, w, None, ctxErr)
          else
            let (w, resp, err) = call h w req;
                w = (if dup \<and> err = None then fst (call h w req) else w)
            in (nw, w, resp, err))"

definition Endpoint_InstallSnapshot ::
    "('h, 'w, InstallSnapshotRequest, InstallSnapshotResponse) handlerCall \<Rightarrow> netEnv \<Rightarrow> error \<Rightarrow> 'h Network \<Rightarrow> 'w \<Rightarrow> nodeid \<Rightarrow> nodeid \<Rightarrow>
     InstallSnapshotRequest \<Rightarrow> 'h Network \<times> 'w \<times> InstallSnapshotResponse option \<times> error" where
  "Endpoint_InstallSnapshot call e ctxErr nw w me target req =
     (case prepare e nw me target of
        (nw, None) \<Rightarrow> (nw, w, None, Some ErrUnreachable)
      | (nw, Some (h, delay, dup)) \<Rightarrow>
          if \<not> netSleep ctxErr delay then (nw, w, None, ctxErr) else (nw, call h w req))"

section \<open>Partitions\<close>

lemma fold_group: "fold (\<lambda>i m. m(i \<mapsto> v)) g m = (\<lambda>i. if i \<in> set g then Some v else m i)"
  by (induction g arbitrary: m) (auto simp: fun_eq_iff)

lemma groupLoop_other: "\<forall>g\<in>set gs. i \<notin> set g \<Longrightarrow> groupLoop gi gs m i = m i"
  by (induction gs arbitrary: gi m) (auto simp: fold_group)

lemma groupLoop_member:
  assumes "k < length gs" "i \<in> set (gs ! k)" "\<forall>j<length gs. j \<noteq> k \<longrightarrow> i \<notin> set (gs ! j)"
  shows "groupLoop gi gs m i = Some (gi + k + 1)"
  using assms
proof (induction gs arbitrary: gi m k)
  case (Cons g gs)
  show ?case
  proof (cases k)
    case 0
    then have "\<forall>h\<in>set gs. i \<notin> set h" using Cons.prems(3) by (force simp: in_set_conv_nth)
    then show ?thesis using Cons.prems(2) 0 by (simp add: groupLoop_other fold_group)
  next
    case (Suc k')
    then have "\<forall>j<length gs. j \<noteq> k' \<longrightarrow> i \<notin> set (gs ! j)" using Cons.prems(3) by (metis Suc_less_eq length_Cons nat.inject nth_Cons_Suc)
    then show ?thesis using Cons.IH [of k' "gi + 1"] Cons.prems Suc by simp
  qed
qed simp

text \<open>The group number \<open>Partition\<close> gives a node; a node of no group is in the default group 0.\<close>

definition side :: "nodeid list list \<Rightarrow> nodeid \<Rightarrow> nat" where
  "side groups i = (case find_index (\<lambda>g. i \<in> set g) groups of None \<Rightarrow> 0 | Some k \<Rightarrow> k + 1)"

definition disjoint_groups :: "nodeid list list \<Rightarrow> bool" where
  "disjoint_groups groups \<longleftrightarrow> (\<forall>i j. i < length groups \<and> j < length groups \<and> i \<noteq> j \<longrightarrow> set (groups ! i) \<inter> set (groups ! j) = {})"

lemma Partition_side:
  assumes "disjoint_groups groups"
  shows "mget (grp (Partition groups nw)) i = side groups i"
proof (cases "find_index (\<lambda>g. i \<in> set g) groups")
  case None
  then have "\<forall>g\<in>set groups. i \<notin> set g" by (simp add: find_index_None)
  then show ?thesis using None by (simp add: side_def Partition_def mget_def groupLoop_other)
next
  case (Some k)
  then have k: "k < length groups" "i \<in> set (groups ! k)" using find_index_Some by fastforce+
  then have "\<forall>j<length groups. j \<noteq> k \<longrightarrow> i \<notin> set (groups ! j)" using assms by (fastforce simp: disjoint_groups_def)
  then show ?thesis using groupLoop_member [OF k] Some by (simp add: side_def Partition_def mget_def)
qed

lemma prepare_None:
  "\<not> canDeliver e nw from to \<Longrightarrow> prepare e nw from to = (nw\<lparr>dropped := add64 (dropped nw) 1\<rparr>, None)"
  by (simp add: prepare_def)

text \<open>
  C36: A partition separates the groups: as long as it is in place no RPC crosses it, whatever the
  random draws are; the call fails with \<open>ErrUnreachable\<close> and no handler runs.  Inside a group, with
  no isolation and no drop rate, every message to a registered node is prepared for delivery.
\<close>

theorem Partition_separates:
  assumes "disjoint_groups groups"
  shows "(side groups p \<noteq> side groups q \<longrightarrow>
      snd (Endpoint_RequestVote callRV e ctx (Partition groups nw) w p q rv) = (w, None, Some ErrUnreachable) \<and>
      snd (Endpoint_AppendEntries callAE e ctx (Partition groups nw) w p q ae) = (w, None, Some ErrUnreachable) \<and>
      snd (Endpoint_InstallSnapshot callIS e ctx (Partition groups nw) w p q isq) = (w, None, Some ErrUnreachable)) \<and>
    (side groups p = side groups q \<and> \<not> isolated nw p \<and> \<not> isolated nw q \<and> dropRate nw \<le> 0 \<and> nw_nodes nw q = Some h \<longrightarrow>
      (\<exists>delay dup. snd (prepare e (Partition groups nw) p q) = Some (h, delay, dup)))"
proof -
  have can: "canDeliver e (Partition groups nw) p q \<longleftrightarrow> \<not> isolated nw p \<and> \<not> isolated nw q \<and> side groups p = side groups q \<and>
      \<not> (0 < dropRate nw \<and> dropDraw e < dropRate nw)"
    using Partition_side [OF assms] by (simp add: canDeliver_def) (simp add: Partition_def)
  have nodes: "nw_nodes (Partition groups nw) = nw_nodes nw" by (simp add: Partition_def)
  show ?thesis
    using can nodes by (auto simp: Endpoint_RequestVote_def Endpoint_AppendEntries_def Endpoint_InstallSnapshot_def prepare_None)
      (simp_all add: prepare_def Let_def nodes)
qed

theorem Partition_separates_witness:
  "snd (Endpoint_RequestVote (\<lambda>h (w::nat) (rv::RequestVoteRequest). (Suc w, None, None)) \<lparr>dropDraw = 0, delayDraw = 0, dupDraw = 0\<rparr> None
      (Partition [[''a''], [''b'', ''c'']] (Register ''b'' () NewNetwork)) 0 ''a'' ''b'' \<lparr>rvTerm = 1, CandidateId = ''a'', LastLogIndex = 0, LastLogTerm = 0, PreVote = False\<rparr>)
   = (0, None, Some ErrUnreachable)"
proof -
  have d: "disjoint_groups [[''a''], [''b'', ''c'']]" by (auto simp: disjoint_groups_def nth_Cons split: nat.splits)
  have "side [[''a''], [''b'', ''c'']] ''a'' \<noteq> side [[''a''], [''b'', ''c'']] ''b''" by (simp add: side_def)
  then show ?thesis by (rule conjunct1 [OF mp [OF conjunct1 [OF Partition_separates [OF d]]]])
qed

end
