(* ===== verification/Faults.thy ===== *)
theory Faults
  imports SimNet
begin

text \<open>
  Fault injection of the chaos harness, \<open>src/chaos/faults.go\<close>, over the simulated network and the
  running nodes of \<open>src/internal/cluster/cluster.go\<close>: one fault at a time is applied, held, and
  undone.  The random draws, the leader found and the outcome of the sleeps are inputs of a
  round; \<open>newNode\<close> is the handler a restart registers.
\<close>

section \<open>Crash and restart\<close>

record 'h simCluster =
  Net :: "'h Network"
  alive :: "nodeid \<Rightarrow> bool"

definition Crash :: "nodeid \<Rightarrow> ('h, 'z) simCluster_scheme \<Rightarrow> ('h, 'z) simCluster_scheme" where
  "Crash i c =
     (let was = alive c i; c = c\<lparr>alive := (alive c)(i := False)\<rparr> in
      if \<not> was then c else c\<lparr>Net := Deregister i (Net c)\<rparr>)"

definition Restart :: "(nodeid \<Rightarrow> 'h) \<Rightarrow> nodeid \<Rightarrow> ('h, 'z) simCluster_scheme \<Rightarrow> ('h, 'z) simCluster_scheme" where
  "Restart newNode i c =
     (if alive c i then c
      else c\<lparr>alive := (alive c)(i := True), Net := Register i (newNode i) (Net c)\<rparr>)"

section \<open>A round of faults\<close>

record faultDraws =
  dStop :: bool
  dKind :: nat
  dLeader :: "nodeid option"
  dIntn :: nat
  dPerm :: "nat list"
  dVictim :: nat
  dFloat :: real
  dSleep :: bool
  dPause :: bool

text \<open>\<open>rng.Intn(maxMinority)\<close> gives \<open>dIntn\<close> and \<open>rng.Perm(n)\<close> gives \<open>dPerm\<close>.\<close>

definition maxMinority :: "nat \<Rightarrow> nat" where
  "maxMinority n = (let m = (n - 1) div 2 in if m < 1 then 1 else m)"

definition pickMinority :: "faultDraws \<Rightarrow> nodeid list \<Rightarrow> nodeid list" where
  "pickMinority d ids = map (\<lambda>i. ids ! (dPerm d ! i)) [0..<1 + dIntn d]"

text \<open>What the draws can be.\<close>

definition draws_ok :: "nodeid list \<Rightarrow> faultDraws \<Rightarrow> bool" where
  "draws_ok ids d \<longleftrightarrow> dKind d < 4 \<and> dIntn d < maxMinority (length ids) \<and> distinct (dPerm d) \<and> set (dPerm d) = {..<length ids} \<and>
     dVictim d < length ids \<and> 0 \<le> dFloat d \<and> dFloat d < 1"

text \<open>The first half of a round: the fault is in place, and whether it counts.\<close>

definition injectFault :: "faultDraws \<Rightarrow> nodeid list \<Rightarrow> 'h simCluster \<Rightarrow> 'h simCluster \<times> bool" where
  "injectFault d ids c =
     (if dKind d = 0 then
        (case dLeader d of None \<Rightarrow> (c, False) | Some l \<Rightarrow> (c\<lparr>Net := Isolate l (Net c)\<rparr>, True))
      else if dKind d = 1 then (c\<lparr>Net := Partition [pickMinority d ids] (Net c)\<rparr>, True)
      else if dKind d = 2 then (Crash (ids ! dVictim d) c, True)
      else if dKind d = 3 then (c\<lparr>Net := SetDropRate (15 / 100 + dFloat d * (2 / 10)) (Net c)\<rparr>, True)
      else (c, False))"

definition undoFault :: "(nodeid \<Rightarrow> 'h) \<Rightarrow> faultDraws \<Rightarrow> nodeid list \<Rightarrow> 'h simCluster \<Rightarrow> 'h simCluster" where
  "undoFault newNode d ids c =
     (if dKind d = 0 then (case dLeader d of None \<Rightarrow> c | Some l \<Rightarrow> c\<lparr>Net := Rejoin l (Net c)\<rparr>)
      else if dKind d = 1 then c\<lparr>Net := Heal (Net c)\<rparr>
      else if dKind d = 2 then Restart newNode (ids ! dVictim d) c
      else if dKind d = 3 then c\<lparr>Net := SetDropRate 0 (Net c)\<rparr>
      else c)"

text \<open>
  The loop, over the draws of its rounds.  A sleep that is stopped returns at once, after the
  fault was undone; a round that injects nothing sleeps only at its end.
\<close>

fun runFaults :: "(nodeid \<Rightarrow> 'h) \<Rightarrow> nodeid list \<Rightarrow> faultDraws list \<Rightarrow> 'h simCluster \<Rightarrow> int \<Rightarrow> 'h simCluster \<times> int" where
  "runFaults newNode ids [] c count = (c, count)"
| "runFaults newNode ids (d # ds) c count =
     (if dStop d then (c, count)
      else
        let (c, hit) = injectFault d ids c;
            count = (if hit then count + 1 else count);
            c = undoFault newNode d ids c
        in if hit \<and> \<not> dSleep d then (c, count)
           else if \<not> dPause d then (c, count)
           else runFaults newNode ids ds c count)"

section \<open>Faults are undone, and leave a majority connected\<close>

definition calm_cluster :: "nodeid list \<Rightarrow> 'h simCluster \<Rightarrow> bool" where
  "calm_cluster ids c \<longleftrightarrow> (\<forall>p. \<not> isolated (Net c) p) \<and> grp (Net c) = Map.empty \<and> dropRate (Net c) = 0 \<and>
     (\<forall>p\<in>set ids. alive c p \<and> nw_nodes (Net c) p \<noteq> None)"

lemma undo_inject:
  assumes "calm_cluster ids c" "draws_ok ids d"
  shows "calm_cluster ids (undoFault newNode d ids (fst (injectFault d ids c)))"
proof -
  have "ids ! dVictim d \<in> set ids" using assms(2) by (simp add: draws_ok_def)
  then show ?thesis using assms
    by (auto simp: calm_cluster_def draws_ok_def undoFault_def injectFault_def Isolate_def Rejoin_def Partition_def Heal_def
        Crash_def Restart_def Deregister_def Register_def SetDropRate_def Let_def split: option.split)
qed

text \<open>
  \<open>majority_linked\<close>: more than half of the servers run, are registered, and reach each other with
  every message that the drop rate spares.
\<close>

definition majority_linked :: "nodeid list \<Rightarrow> 'h simCluster \<Rightarrow> bool" where
  "majority_linked ids c \<longleftrightarrow> (\<exists>M\<subseteq>set ids. length ids < 2 * card M \<and>
     (\<forall>p\<in>M. alive c p \<and> nw_nodes (Net c) p \<noteq> None) \<and>
     (\<forall>p\<in>M. \<forall>q\<in>M. \<forall>e. dropRate (Net c) \<le> dropDraw e \<longrightarrow> canDeliver e (Net c) p q))"

lemma majority_linkedI:
  assumes "distinct ids" "finite X" "2 * card X < length ids"
    and "\<And>p. p \<in> set ids - X \<Longrightarrow> alive c p \<and> nw_nodes (Net c) p \<noteq> None \<and> \<not> isolated (Net c) p \<and> mget (grp (Net c)) p = 0"
  shows "majority_linked ids c"
proof -
  have "card (set ids - X) \<ge> card (set ids) - card X" by (simp add: assms(2) diff_card_le_card_Diff)
  moreover have "card (set ids) = length ids" using assms(1) by (rule distinct_card)
  ultimately have "length ids < 2 * card (set ids - X)" using assms(3) by linarith
  then show ?thesis unfolding majority_linked_def
    using assms(4) by (intro exI [of _ "set ids - X"]) (auto simp: canDeliver_def)
qed

lemma minority_small: "3 \<le> n \<Longrightarrow> 2 * maxMinority n < n"
  by (auto simp: maxMinority_def Let_def)

lemma card_pickMinority: "card (set (pickMinority d ids)) \<le> 1 + dIntn d"
proof -
  have "card (set (pickMinority d ids)) \<le> length (pickMinority d ids)" by (rule card_length)
  then show ?thesis by (simp add: pickMinority_def)
qed

text \<open>The servers a fault touches, and the rest, which it does not.\<close>

definition victims :: "faultDraws \<Rightarrow> nodeid list \<Rightarrow> nodeid list" where
  "victims d ids =
     (if dKind d = 0 then (case dLeader d of None \<Rightarrow> [] | Some l \<Rightarrow> [l])
      else if dKind d = 1 then pickMinority d ids else if dKind d = 2 then [ids ! dVictim d] else [])"

lemma victims_few:
  assumes "3 \<le> length ids" "draws_ok ids d"
  shows "2 * card (set (victims d ids)) < length ids"
proof (cases "dKind d = 1")
  case True
  have "2 * (1 + dIntn d) < length ids"
    using assms minority_small [of "length ids"] by (simp add: draws_ok_def)
  then show ?thesis using True card_pickMinority [of d ids] by (simp add: victims_def)
next
  case False
  then have "length (victims d ids) \<le> 1" by (cases "dLeader d") (simp_all add: victims_def)
  then show ?thesis using assms(1) card_length [of "victims d ids"] by linarith
qed

lemma inject_others:
  assumes "calm_cluster ids c" "p \<in> set ids" "p \<notin> set (victims d ids)"
  shows "alive (fst (injectFault d ids c)) p \<and> nw_nodes (Net (fst (injectFault d ids c))) p \<noteq> None \<and>
     \<not> isolated (Net (fst (injectFault d ids c))) p \<and> mget (grp (Net (fst (injectFault d ids c)))) p = 0"
proof -
  have c: "alive c p" "nw_nodes (Net c) p \<noteq> None" "\<not> isolated (Net c) p" "grp (Net c) = Map.empty"
    using assms(1,2) by (simp_all add: calm_cluster_def)
  consider "dKind d = 0" | "dKind d = 1" | "dKind d = 2" | "dKind d = 3" | "dKind d > 3" by linarith
  then show ?thesis
  proof cases
    case 1
    then show ?thesis using c assms(3) by (cases "dLeader d") (auto simp: injectFault_def victims_def Isolate_def mget_def)
  next
    case 2
    then show ?thesis using c assms(3) by (simp add: injectFault_def victims_def Partition_def mget_def fold_group)
  next
    case 3
    then show ?thesis using c assms(3) by (simp add: injectFault_def victims_def Crash_def Deregister_def Let_def mget_def)
  qed (use c in \<open>simp_all add: injectFault_def SetDropRate_def mget_def\<close>)
qed

lemma fault_majority:
  assumes "distinct ids" "3 \<le> length ids" "calm_cluster ids c" "draws_ok ids d"
  shows "majority_linked ids (fst (injectFault d ids c))"
  by (rule majority_linkedI [OF assms(1) finite_set victims_few [OF assms(2,4)]]) (use inject_others [OF assms(3)] in blast)

lemma runFaults_calm:
  assumes "calm_cluster ids c" "\<forall>d\<in>set ds. draws_ok ids d"
  shows "calm_cluster ids (fst (runFaults newNode ids ds c n))"
  using assms
proof (induction ds arbitrary: c n)
  case (Cons d ds)
  have "calm_cluster ids (undoFault newNode d ids (fst (injectFault d ids c)))"
    using Cons.prems by (intro undo_inject) auto
  then show ?case using Cons by (simp add: Let_def case_prod_beta)
qed simp

text \<open>
  C37: The fault injector of the chaos harness keeps its promises on at least three servers: while
  any single fault is in place a majority of them runs and can talk to each other, and whenever
  the injector stops, in a round or between rounds, every fault has been undone and every server
  runs again.
\<close>

theorem faults_leave_majority:
  assumes "distinct ids" "3 \<le> length ids" "calm_cluster ids c" "\<forall>d\<in>set ds. draws_ok ids d"
  shows "calm_cluster ids (fst (runFaults newNode ids ds c n)) \<and>
     (\<forall>d. draws_ok ids d \<longrightarrow> majority_linked ids (fst (injectFault d ids (fst (runFaults newNode ids ds c n)))))"
  using runFaults_calm [OF assms(3,4)] fault_majority [OF assms(1,2)] by blast

theorem faults_leave_majority_witness:
  "calm_cluster [''a'', ''b'', ''c''] (fst (runFaults (\<lambda>i. ()) [''a'', ''b'', ''c'']
     [\<lparr>dStop = False, dKind = 2, dLeader = None, dIntn = 0, dPerm = [1, 0, 2], dVictim = 1, dFloat = 0, dSleep = True, dPause = True\<rparr>]
     \<lparr>Net = NewNetwork\<lparr>nw_nodes := (\<lambda>i. Some ())\<rparr>, alive = (\<lambda>i. True)\<rparr> 0))"
  by (rule faults_leave_majority [THEN conjunct1])
    (auto simp: calm_cluster_def NewNetwork_def draws_ok_def maxMinority_def)

end
