(* ===== verification/SimCluster.thy ===== *)
theory SimCluster
  imports Faults Runs
begin

text \<open>
  The in-process cluster of \<open>src/internal/cluster/cluster.go\<close> with its real nodes: the network and
  the running flags of \<open>Faults\<close>, extended by the node objects.  A node carries its store
  (\<open>stores\<close>) and its jukebox (\<open>sms\<close>), which outlive a crash; \<open>alive\<close> tells whether \<open>nodes[id]\<close> is
  set.  The handler registered under a name is the node of that name.  The observers read the
  nodes one after the other: their argument is the cluster as they see it, each node at its own
  moment.  The polling loops take the list of what their rounds observe before the deadline.
\<close>

section \<open>Nodes of a cluster\<close>

type_synonym jnode = "(MemStore, State) Node"

record SimCluster = "nodeid simCluster" +
  scIds :: "nodeid list"
  scOpts :: Options
  scNodes :: "nodeid \<rightharpoonup> jnode"

text \<open>\<open>startNode\<close> with the store of that name; \<open>None\<close> is its panic, also when there is no store.\<close>

definition startMember :: "env \<Rightarrow> MemStore option \<Rightarrow> nodeid \<Rightarrow> SimCluster \<Rightarrow> SimCluster option" where
  "startMember e st i c =
     (case st of None \<Rightarrow> None
      | Some d \<Rightarrow>
          (case startNode (scOpts c) (scIds c) e i d of None \<Rightarrow> None
           | Some n \<Rightarrow> Some (c\<lparr>scNodes := (scNodes c)(i \<mapsto> n), alive := (alive c)(i := True), Net := Register i i (Net c)\<rparr>)))"

fun startAll :: "(nodeid \<Rightarrow> env) \<Rightarrow> nodeid list \<Rightarrow> SimCluster \<Rightarrow> SimCluster option" where
  "startAll es [] c = Some c"
| "startAll es (i # is) c =
     (case startMember (es i) (Some NewMemStore) i c of None \<Rightarrow> None | Some c \<Rightarrow> startAll es is c)"

definition NewCluster :: "(nodeid \<Rightarrow> env) \<Rightarrow> nodeid list \<Rightarrow> Options \<Rightarrow> SimCluster option" where
  "NewCluster es is opts =
     startAll es is \<lparr>Net = NewNetwork, alive = (\<lambda>_. False), scIds = is, scOpts = opts, scNodes = Map.empty\<rparr>"

definition NodeOf :: "SimCluster \<Rightarrow> nodeid \<Rightarrow> jnode option" where
  "NodeOf c i = (if alive c i then scNodes c i else None)"

definition StateMachineOf :: "SimCluster \<Rightarrow> nodeid \<Rightarrow> State option" where
  "StateMachineOf c i = map_option sm (scNodes c i)"

definition CrashNode :: "nodeid \<Rightarrow> SimCluster \<Rightarrow> SimCluster" where
  "CrashNode i c =
     (let n = NodeOf c i; c = Crash i c in
      case n of None \<Rightarrow> c | Some n \<Rightarrow> c\<lparr>scNodes := (scNodes c)(i \<mapsto> Stop n)\<rparr>)"

definition RestartNode :: "env \<Rightarrow> nodeid \<Rightarrow> SimCluster \<Rightarrow> SimCluster option" where
  "RestartNode e i c = (if alive c i then Some c else startMember e (map_option disk (scNodes c i)) i c)"

text \<open>\<open>StopAll\<close> forgets the nodes and stops them; they stay registered with the network.\<close>

definition StopAll :: "SimCluster \<Rightarrow> SimCluster" where
  "StopAll c = fold (\<lambda>i c. case NodeOf c i of None \<Rightarrow> c
     | Some n \<Rightarrow> c\<lparr>alive := (alive c)(i := False), scNodes := (scNodes c)(i \<mapsto> Stop n)\<rparr>) (scIds c) c"

text \<open>What the lifecycle operations change.\<close>

lemma startMember_fields:
  assumes "startMember e st i c = Some c'"
  shows "scIds c' = scIds c" "isolated (Net c') = isolated (Net c)" "grp (Net c') = grp (Net c)" "dropRate (Net c') = dropRate (Net c)"
    "alive c' = (alive c)(i := True)" "\<exists>n. scNodes c' = (scNodes c)(i \<mapsto> n)"
  using assms by (auto simp: startMember_def Register_def split: option.splits)

lemma startAll_fields:
  assumes "startAll es is c = Some c'"
  shows "scIds c' = scIds c \<and> isolated (Net c') = isolated (Net c) \<and> grp (Net c') = grp (Net c) \<and> dropRate (Net c') = dropRate (Net c) \<and>
    (\<forall>i. alive c' i = (alive c i \<or> i \<in> set is)) \<and> (\<forall>i. scNodes c' i \<noteq> None \<longleftrightarrow> scNodes c i \<noteq> None \<or> i \<in> set is)"
  using assms
proof (induction "is" arbitrary: c)
  case (Cons i "is")
  then obtain c1 where c1: "startMember (es i) (Some NewMemStore) i c = Some c1" "startAll es is c1 = Some c'"
    by (auto split: option.splits)
  show ?case using Cons.IH [OF c1(2)] startMember_fields [OF c1(1)] by auto
qed simp

lemma CrashNode_fields:
  "scIds (CrashNode i c) = scIds c" "isolated (Net (CrashNode i c)) = isolated (Net c)" "grp (Net (CrashNode i c)) = grp (Net c)"
  "dropRate (Net (CrashNode i c)) = dropRate (Net c)" "alive (CrashNode i c) = (alive c)(i := False)"
  "scNodes c j \<noteq> None \<Longrightarrow> scNodes (CrashNode i c) j \<noteq> None"
  by (auto simp: CrashNode_def Crash_def Deregister_def NodeOf_def Let_def split: option.splits)

lemma startAll_succeeds: "\<exists>c'. startAll es is c = Some c'"
proof (induction "is" arbitrary: c)
  case (Cons i "is")
  have "\<exists>n. startNode (scOpts c) (scIds c) (es i) i NewMemStore = Some n"
    by (simp add: startNode_def New_def loadFromStorage_def nodeConfig_def withDefaults_def Let_def mem_defs NewMemStore_def)
  then show ?case using Cons.IH by (auto simp: startMember_def)
qed simp

section \<open>Who leads\<close>

definition claims :: "SimCluster \<Rightarrow> nodeid \<Rightarrow> bool" where
  "claims c i = (case NodeOf c i of None \<Rightarrow> False | Some n \<Rightarrow> IsLeader n)"

definition LeaderOf :: "SimCluster \<Rightarrow> nodeid option" where
  "LeaderOf c = (let leaders = filter (claims c) (scIds c) in if length leaders = 1 then Some (hd leaders) else None)"

definition leaderCandidates :: "SimCluster \<Rightarrow> nodeid list" where
  "leaderCandidates c = filter (claims c) (scIds c)"

definition leaderStable :: "jnode \<Rightarrow> SimCluster \<Rightarrow> bool" where
  "leaderStable leader c =
     (let term = stTerm (NodeStatus leader);
          agree = length (filter (\<lambda>i. case NodeOf c i of None \<Rightarrow> False | Some n \<Rightarrow> stTerm (NodeStatus n) = term) (scIds c))
      in length (scIds c) div 2 + 1 \<le> agree)"

text \<open>One round of \<open>WaitForLeader\<close>: what \<open>Leader\<close> saw, the leader it found when its term is read, what \<open>leaderStable\<close> saw.\<close>

record leaderPoll =
  pSeen :: SimCluster
  pLeader :: jnode
  pLater :: SimCluster

fun WaitForLeader :: "leaderPoll list \<Rightarrow> nodeid option" where
  "WaitForLeader [] = None"
| "WaitForLeader (o1 # os) =
     (case LeaderOf (pSeen o1) of
        None \<Rightarrow> WaitForLeader os
      | Some l \<Rightarrow> if leaderStable (pLeader o1) (pLater o1) then Some l else WaitForLeader os)"

text \<open>
  \<open>Submit\<close> of a cluster.  A round knows the context's error, the cluster and what the node's own
  \<open>Submit\<close> answers; the result is the answer with the nodes asked so far, or \<open>None\<close> while it polls.
\<close>

record submitPoll =
  sErr :: error
  sSeen :: SimCluster
  sCall :: "nodeid \<Rightarrow> bytes \<Rightarrow> bytes \<times> error"

fun tryEach :: "(nodeid \<Rightarrow> bytes \<Rightarrow> bytes \<times> error) \<Rightarrow> bytes \<Rightarrow> nodeid list \<Rightarrow> bytes option \<times> nodeid list" where
  "tryEach call cmd [] = (None, [])"
| "tryEach call cmd (i # is) =
     (case call i cmd of (res, err) \<Rightarrow>
        if err = None then (Some res, [i])
        else let (r, qs) = tryEach call cmd is in (r, i # qs))"

fun SubmitTo :: "submitPoll list \<Rightarrow> bytes \<Rightarrow> ((bytes \<times> error) \<times> nodeid list) option" where
  "SubmitTo [] cmd = None"
| "SubmitTo (o1 # os) cmd =
     (if sErr o1 \<noteq> None then Some ((NoBytes, sErr o1), [])
      else
        let cands = leaderCandidates (sSeen o1) in
        if cands = [] then SubmitTo os cmd
        else
          case tryEach (sCall o1) cmd cands of
            (Some res, qs) \<Rightarrow> Some ((res, None), qs)
          | (None, qs) \<Rightarrow> map_option (\<lambda>(r, later). (r, qs @ later)) (SubmitTo os cmd))"

section \<open>The leader found is the newest\<close>

text \<open>
  \<open>seen_since s c\<close>: every node of \<open>c\<close> was read at some moment after the state \<open>s\<close> of the system.
\<close>

definition seen_since :: "bool \<Rightarrow> Options \<Rightarrow> nodeid list \<Rightarrow> sys \<Rightarrow> SimCluster \<Rightarrow> bool" where
  "seen_since reads opts ids s c \<longleftrightarrow> scIds c = ids \<and>
     (\<forall>i\<in>set ids. \<forall>n. NodeOf c i = Some n \<longrightarrow> (\<exists>s'. (sys_step reads opts ids)\<^sup>*\<^sup>* s s' \<and> n = nodes s' i))"

lemma terms_grow:
  assumes "(sys_step reads opts ids)\<^sup>*\<^sup>* s s'" "reachable reads opts ids s" "p \<in> set ids"
  shows "currentTerm (nodes s p) \<le> currentTerm (nodes s' p)"
  using assms(1)
proof (induction rule: rtranclp_induct)
  case (step a b)
  have "base_ok ids a" using sys_steps_reachable [OF step(1) assms(2)] reachable_base by blast
  then show ?case using sys_step_votes [OF step(2) _ assms(3)] step(3) by (simp add: votes_kept_def)
qed simp

text \<open>A leader of term \<open>t\<close> had a majority whose terms reached \<open>t\<close>.\<close>

lemma leader_majority:
  assumes "cluster_ok ids" "reachable reads opts ids s" "p \<in> set ids" "role (nodes s p) = Leader"
  obtains G where "G \<subseteq> set ids" "length ids div 2 < card G" "\<And>v. v \<in> G \<Longrightarrow> currentTerm (nodes s p) \<le> currentTerm (nodes s v)"
proof -
  note ok = reachable_elect_ok [OF assms(2,1)]
  let ?t = "currentTerm (nodes s p)"
  have "elected ids s p ?t" using elect_okD(14) [OF ok assms(3,4)] .
  then show thesis
  proof (cases "length ids \<le> 1")
    case True
    then show ?thesis using assms(3) by (intro that [of "{p}"]) auto
  next
    case False
    then obtain G where G: "G \<subseteq> set ids - {p}" "length ids div 2 \<le> card G" "\<forall>v\<in>G. granted_to s v p ?t"
      using \<open>elected ids s p ?t\<close> unfolding elected_def by auto
    have "?t \<le> currentTerm (nodes s v)" if "v \<in> G" for v
      using G(3) that elect_okD(7) [OF ok, of v p ?t] by (auto simp: voted_def)
    moreover have "card (insert p G) = Suc (card G)" using G(1) finite_subset [OF G(1)] by (intro card_insert_disjoint) auto
    ultimately show ?thesis using G(1,2) assms(3) by (intro that [of "insert p G"]) auto
  qed
qed

lemma stable_bounds_terms:
  assumes ok: "cluster_ok ids" "reachable reads opts ids s" and seen: "seen_since reads opts ids s c" and st: "leaderStable l c"
    and p: "p \<in> set ids" "role (nodes s p) = Leader"
  shows "currentTerm (nodes s p) \<le> currentTerm l"
proof -
  define A where "A = {i \<in> set ids. \<exists>n. NodeOf c i = Some n \<and> currentTerm n = currentTerm l}"
  obtain G where G: "G \<subseteq> set ids" "length ids div 2 < card G" "\<And>v. v \<in> G \<Longrightarrow> currentTerm (nodes s p) \<le> currentTerm (nodes s v)"
    using leader_majority [OF ok p] by blast
  have d: "distinct ids" using ok(1) by (simp add: cluster_ok_def)
  have ids: "scIds c = ids" using seen by (simp add: seen_since_def)
  define P where "P = (\<lambda>i. case NodeOf c i of None \<Rightarrow> False | Some n \<Rightarrow> stTerm (NodeStatus n) = stTerm (NodeStatus l))"
  have "set (filter P ids) = A" by (auto simp: A_def P_def NodeStatus_def split: option.splits)
  then have "card A = length (filter P ids)" using distinct_card [OF distinct_filter [OF d, of P]] by simp
  then have "length ids div 2 + 1 \<le> card A" using st by (simp add: leaderStable_def Let_def ids P_def)
  then obtain v where v: "v \<in> A" "v \<in> G"
    using majorities_meet [of "set ids" A G] G(1,2) distinct_card [OF d] by (auto simp: A_def)
  then obtain n s' where n: "NodeOf c v = Some n" "currentTerm n = currentTerm l" "(sys_step reads opts ids)\<^sup>*\<^sup>* s s'" "n = nodes s' v"
    using seen unfolding A_def seen_since_def by blast
  have "currentTerm (nodes s p) \<le> currentTerm (nodes s v)" using G(3) v(2) .
  also have "\<dots> \<le> currentTerm n" using terms_grow [OF n(3) ok(2)] v(2) G(1) n(4) by auto
  finally show ?thesis using n(2) by simp
qed

lemma LeaderOf_Some: "LeaderOf c = Some l \<Longrightarrow> claims c l \<and> l \<in> set (scIds c) \<and> (\<forall>q\<in>set (scIds c). claims c q \<longrightarrow> q = l)"
proof -
  assume "LeaderOf c = Some l"
  then have "filter (claims c) (scIds c) = [l]" by (auto simp: LeaderOf_def Let_def length_Suc_conv split: if_splits)
  then have "{q \<in> set (scIds c). claims c q} = {l}" by (metis list.set(1,2) set_filter)
  then show ?thesis by blast
qed

lemma WaitForLeader_Some:
  "WaitForLeader os = Some l \<Longrightarrow> \<exists>o1\<in>set os. LeaderOf (pSeen o1) = Some l \<and> leaderStable (pLeader o1) (pLater o1)"
  by (induction os) (auto split: option.splits if_splits)

text \<open>
  C5: When \<open>WaitForLeader\<close> returns a node, then in the round that found it this node was the only
  running one that claimed to lead, and no server, running or not, led a later term when the round
  began.  Each node may be read at a different moment of the round.
\<close>

theorem WaitForLeader_newest:
  assumes "cluster_ok ids" "WaitForLeader os = Some l"
    and "\<And>o1. o1 \<in> set os \<Longrightarrow> reachable reads opts ids (st o1) \<and> scIds (pSeen o1) = ids \<and> seen_since reads opts ids (st o1) (pLater o1)"
  shows "\<exists>o1\<in>set os. claims (pSeen o1) l \<and> (\<forall>q\<in>set ids. claims (pSeen o1) q \<longrightarrow> q = l) \<and>
     (\<forall>p\<in>set ids. role (nodes (st o1) p) = Leader \<longrightarrow> currentTerm (nodes (st o1) p) \<le> currentTerm (pLeader o1))"
proof -
  obtain o1 where o1: "o1 \<in> set os" "LeaderOf (pSeen o1) = Some l" "leaderStable (pLeader o1) (pLater o1)"
    using WaitForLeader_Some [OF assms(2)] by blast
  note r = assms(3) [OF o1(1)]
  have "currentTerm (nodes (st o1) p) \<le> currentTerm (pLeader o1)" if "p \<in> set ids" "role (nodes (st o1) p) = Leader" for p
    using stable_bounds_terms [OF assms(1) _ _ o1(3) that] r by blast
  then show ?thesis using o1(1) LeaderOf_Some [OF o1(2)] r by blast
qed

text \<open>The cluster of three after its first election, read at one moment.\<close>

definition view_of :: "Options \<Rightarrow> nodeid list \<Rightarrow> sys \<Rightarrow> SimCluster" where
  "view_of opts ids s = \<lparr>Net = NewNetwork, alive = up s, scIds = ids, scOpts = opts, scNodes = (\<lambda>i. Some (nodes s i))\<rparr>"

lemma seen_view: "seen_since reads opts ids s (view_of opts ids s)"
  by (auto simp: seen_since_def view_of_def NodeOf_def split: if_splits)

theorem WaitForLeader_newest_witness:
  "\<exists>s. reachable True DefaultOptions abc s \<and>
     WaitForLeader [\<lparr>pSeen = view_of DefaultOptions abc s, pLeader = nodes s ''a'', pLater = view_of DefaultOptions abc s\<rparr>] = Some ''a'' \<and>
     \<not> (role (nodes s ''b'') = Leader \<and> 1 < currentTerm (nodes s ''b''))"
proof -
  obtain s where s: "reachable True DefaultOptions abc s" "\<And>p. up s p" "crowned (boot ''a'') (nodes s ''a'')"
    "sided 1 (boot ''b'') (nodes s ''b'')" "nodes s ''c'' = boot ''c''"
    using first_election [of True] by blast
  define o1 where "o1 = \<lparr>pSeen = view_of DefaultOptions abc s, pLeader = nodes s ''a'', pLater = view_of DefaultOptions abc s\<rparr>"
  have f: "role (nodes s ''a'') = Leader" "currentTerm (nodes s ''a'') = 1" "role (nodes s ''b'') \<noteq> Leader" "currentTerm (nodes s ''b'') = 1"
    "role (nodes s ''c'') \<noteq> Leader"
    using s(3-5) by (simp_all add: crowned_def sided_def boot_fields)
  have w: "WaitForLeader [o1] = Some ''a''"
    using f s(2) by (simp add: o1_def LeaderOf_def leaderStable_def claims_def NodeOf_def view_of_def abc_def IsLeader_def NodeStatus_def Let_def)
  have "role (nodes s ''b'') = Leader \<longrightarrow> currentTerm (nodes s ''b'') \<le> 1"
    using WaitForLeader_newest [OF abc_ok(1) w, of True DefaultOptions "\<lambda>_. s"] s(1) f(2) seen_view
    by (auto simp: o1_def view_of_def abc_ok(4))
  then show ?thesis using s(1) w by (intro exI [of _ s]) (auto simp: o1_def)
qed

end
