(* ===== verification/Demo.thy ===== *)
theory Demo
  imports SimCluster Server
begin

text \<open>
  The browser demo, \<open>src/cmd/wasm/main.go\<close>: a simulated cluster in a page, the controls the page
  calls, and the view it draws.  A call from the page runs to its end before the next one, so the
  mutex needs no model; between calls the nodes of the cluster run on.  Encoding the view as JSON
  is left out.
\<close>

section \<open>State and view\<close>

record nodeView =
  nvID :: string
  nvRole :: string
  nvTerm :: uint64
  nvCommit :: uint64
  nvApplied :: uint64
  nvLastIndex :: uint64
  nvLogSize :: int
  nvSnapshotIdx :: uint64
  nvLeader :: bool
  nvDown :: bool
  nvIsolated :: bool

record clusterView =
  vNodes :: "nodeView list"
  vLeaderID :: string
  vQueue :: "Song list"
  vNowPlaying :: "Song option"
  vSkipVotes :: nat
  vDelivered :: uint64
  vDropped :: uint64
  vDropRate :: real
  vSize :: nat

definition noView :: clusterView where
  "noView = \<lparr>vNodes = [], vLeaderID = '''', vQueue = [], vNowPlaying = None, vSkipVotes = 0, vDelivered = 0, vDropped = 0,
     vDropRate = 0, vSize = 0\<rparr>"

record demo =
  dC :: "SimCluster option"
  dIds :: "nodeid list"
  dDown :: "nodeid \<Rightarrow> bool"
  dIsolated :: "nodeid \<Rightarrow> bool"
  dDropRate :: real
  dLastView :: clusterView
  dSeq :: uint64

definition demo0 :: demo where
  "demo0 = \<lparr>dC = None, dIds = [], dDown = (\<lambda>_. False), dIsolated = (\<lambda>_. False), dDropRate = 0, dLastView = noView, dSeq = 0\<rparr>"

section \<open>Controls\<close>

definition demoIds :: "nat \<Rightarrow> nodeid list" where
  "demoIds n = map (\<lambda>i. ''n'' @ itoa i) [0..<n]"

text \<open>The previous cluster is stopped and dropped.\<close>

definition demo_reset :: "(nodeid \<Rightarrow> env) \<Rightarrow> int \<Rightarrow> demo \<Rightarrow> demo option" where
  "demo_reset es n d =
     (let n = (if n < 1 then 1 else n);
          n = (if 7 < n then 7 else n);
          is = demoIds (nat n);
          opts = DefaultOptions\<lparr>oSnapshotThreshold := 25\<rparr>
      in case NewCluster es is opts of
           None \<Rightarrow> None
         | Some c \<Rightarrow> Some \<lparr>dC = Some (c\<lparr>Net := SetLatency (2 * Millisecond) (12 * Millisecond) (Net c)\<rparr>), dIds = is,
             dDown = (\<lambda>_. False), dIsolated = (\<lambda>_. False), dDropRate = 0, dLastView = noView, dSeq = 0\<rparr>)"

text \<open>\<open>submit\<close> hands the encoded command to a goroutine that calls the cluster's \<open>Submit\<close>.\<close>

definition demo_submit :: "Command \<Rightarrow> demo \<Rightarrow> demo \<times> bytes option" where
  "demo_submit cmd d =
     (let d = d\<lparr>dSeq := add64 (dSeq d) 1\<rparr>;
          cmd = cmd\<lparr>cClientID := ''ui'', cSeq := dSeq d\<rparr>
      in (d, case dC d of None \<Rightarrow> None | Some c \<Rightarrow> Some (Encode cmd)))"

definition demo_kill :: "nodeid \<Rightarrow> demo \<Rightarrow> demo" where
  "demo_kill i d =
     (let d = (if dDown d i then d else d\<lparr>dDown := (dDown d)(i := True)\<rparr>)
      in d\<lparr>dC := map_option (CrashNode i) (dC d)\<rparr>)"

definition demo_restart :: "env \<Rightarrow> nodeid \<Rightarrow> demo \<Rightarrow> demo option" where
  "demo_restart e i d =
     (let d = d\<lparr>dDown := (dDown d)(i := False)\<rparr>
      in case dC d of None \<Rightarrow> Some d
         | Some c \<Rightarrow> map_option (\<lambda>c. d\<lparr>dC := Some c\<rparr>) (RestartNode e i c))"

definition demo_toggleIsolate :: "nodeid \<Rightarrow> demo \<Rightarrow> demo" where
  "demo_toggleIsolate i d =
     (if dIsolated d i then
        d\<lparr>dIsolated := (dIsolated d)(i := False), dC := map_option (\<lambda>c. c\<lparr>Net := Rejoin i (Net c)\<rparr>) (dC d)\<rparr>
      else
        d\<lparr>dIsolated := (dIsolated d)(i := True), dC := map_option (\<lambda>c. c\<lparr>Net := Isolate i (Net c)\<rparr>) (dC d)\<rparr>)"

definition demo_setDrop :: "real \<Rightarrow> demo \<Rightarrow> demo" where
  "demo_setDrop rate d = d\<lparr>dDropRate := rate, dC := map_option (\<lambda>c. c\<lparr>Net := SetDropRate rate (Net c)\<rparr>) (dC d)\<rparr>"

definition demo_heal :: "demo \<Rightarrow> demo" where
  "demo_heal d = d\<lparr>dIsolated := (\<lambda>_. False), dDropRate := 0,
     dC := map_option (\<lambda>c. c\<lparr>Net := SetDropRate 0 (Heal (Net c))\<rparr>) (dC d)\<rparr>"

section \<open>The view\<close>

definition nodeView_of :: "demo \<Rightarrow> SimCluster \<Rightarrow> nodeid \<Rightarrow> nodeView" where
  "nodeView_of d c i =
     (let nv = \<lparr>nvID = i, nvRole = '''', nvTerm = 0, nvCommit = 0, nvApplied = 0, nvLastIndex = 0, nvLogSize = 0,
                nvSnapshotIdx = 0, nvLeader = False, nvDown = dDown d i, nvIsolated = dIsolated d i\<rparr>
      in case NodeOf c i of
           None \<Rightarrow> nv\<lparr>nvRole := ''down''\<rparr>
         | Some n \<Rightarrow>
             let st = NodeStatus n in
             nv\<lparr>nvRole := stRole st, nvTerm := stTerm st, nvCommit := stCommitIndex st, nvApplied := stLastApplied st,
                nvLastIndex := stLastIndex st, nvLogSize := stLogSize st, nvSnapshotIdx := stSnapshotIdx st,
                nvLeader := IsLeader n\<rparr>)"

text \<open>The loop over the nodes; \<open>leader\<close> is the last one that leads and is not isolated.\<close>

fun viewLoop :: "demo \<Rightarrow> SimCluster \<Rightarrow> nodeid list \<Rightarrow> string \<Rightarrow> nodeView list \<Rightarrow> string \<times> nodeView list" where
  "viewLoop d c [] leader vs = (leader, vs)"
| "viewLoop d c (i # is) leader vs =
     (let nv = nodeView_of d c i;
          leader = (if nvLeader nv \<and> \<not> nvIsolated nv then i else leader)
      in viewLoop d c is leader (vs @ [nv]))"

text \<open>
  \<open>None\<close> is the empty object the page gets before the first reset.  The leader of the loop is a
  running node, so its state machine is there.
\<close>

definition demo_state :: "demo \<Rightarrow> demo \<times> clusterView option" where
  "demo_state d =
     (case dC d of None \<Rightarrow> (d, None)
      | Some c \<Rightarrow>
          let (del, drp) = Stats (Net c);
              (leader, vs) = viewLoop d c (dIds d) '''' [];
              view = noView\<lparr>vSize := length (dIds d), vDropRate := dDropRate d, vDelivered := del, vDropped := drp,
                            vNodes := vs, vLeaderID := leader\<rparr>
          in if leader \<noteq> '''' then
               (case StateMachineOf c leader of
                  None \<Rightarrow> (d, Some view)
                | Some st \<Rightarrow>
                    let r = View st;
                        view = view\<lparr>vQueue := rQueue r, vNowPlaying := rNowPlaying r, vSkipVotes := rSkipVotes r\<rparr>
                    in (d\<lparr>dLastView := view\<rparr>, Some view))
             else
               (d, Some (view\<lparr>vQueue := vQueue (dLastView d), vNowPlaying := vNowPlaying (dLastView d),
                              vSkipVotes := vSkipVotes (dLastView d)\<rparr>)))"

section \<open>Calls from the page\<close>

datatype jsCall =
    JrReset "int option"
  | JrState
  | JrEnqueue "string list"
  | JrPlayNext
  | JrVoteSkip "string list"
  | JrKill string
  | JrRestart string
  | JrToggleIsolate string
  | JrSetDrop "real option"
  | JrHeal

definition uiCommand :: "string \<Rightarrow> Command" where
  "uiCommand op = \<lparr>cOp = op, cClientID = '''', cSeq = 0, cSong = None, cSongID = '''', cToIndex = 0, cVoter = ''''\<rparr>"

definition arg :: "string list \<Rightarrow> nat \<Rightarrow> string \<Rightarrow> string" where
  "arg args k dflt = (if k < length args then args ! k else dflt)"

text \<open>The demo after a call, \<open>None\<close> for a panic; with it, the command a goroutine submits.\<close>

definition js_call :: "(nodeid \<Rightarrow> env) \<Rightarrow> jsCall \<Rightarrow> demo \<Rightarrow> (demo \<times> bytes option) option" where
  "js_call es call d =
     (case call of
        JrReset n \<Rightarrow> map_option (\<lambda>d. (d, None)) (demo_reset es (case n of None \<Rightarrow> 5 | Some n \<Rightarrow> n) d)
      | JrState \<Rightarrow> Some (fst (demo_state d), None)
      | JrEnqueue args \<Rightarrow>
          Some (demo_submit ((uiCommand OpEnqueue)\<lparr>cSong := Some \<lparr>sID = '''', sTitle = arg args 0 '''', sAddedBy = arg args 1 ''''\<rparr>\<rparr>) d)
      | JrPlayNext \<Rightarrow> Some (demo_submit (uiCommand OpPlayNext) d)
      | JrVoteSkip args \<Rightarrow> Some (demo_submit ((uiCommand OpVoteSkip)\<lparr>cVoter := arg args 0 ''guest''\<rparr>) d)
      | JrKill i \<Rightarrow> Some (demo_kill i d, None)
      | JrRestart i \<Rightarrow> map_option (\<lambda>d. (d, None)) (demo_restart (es i) i d)
      | JrToggleIsolate i \<Rightarrow> Some (demo_toggleIsolate i d, None)
      | JrSetDrop rate \<Rightarrow> Some (case rate of None \<Rightarrow> d | Some r \<Rightarrow> demo_setDrop r d, None)
      | JrHeal \<Rightarrow> Some (demo_heal d, None))"

section \<open>The page shows the cluster\<close>

text \<open>Between two calls the nodes run: they and the counters of the network change, the controls do not.\<close>

definition same_controls :: "SimCluster \<Rightarrow> SimCluster \<Rightarrow> bool" where
  "same_controls c c' \<longleftrightarrow> scIds c' = scIds c \<and> alive c' = alive c \<and> isolated (Net c') = isolated (Net c) \<and>
     grp (Net c') = grp (Net c) \<and> dropRate (Net c') = dropRate (Net c) \<and> (\<forall>i. scNodes c i \<noteq> None \<longrightarrow> scNodes c' i \<noteq> None)"

inductive demo_run :: "demo \<Rightarrow> bool" where
  boot: "demo_run demo0"
| call: "demo_run d \<Longrightarrow> js_call es call d = Some (d', cmd) \<Longrightarrow> demo_run d'"
| nodes_run: "demo_run d \<Longrightarrow> dC d = Some c \<Longrightarrow> same_controls c c' \<Longrightarrow> demo_run (d\<lparr>dC := Some c'\<rparr>)"

definition mirrors :: "demo \<Rightarrow> SimCluster \<Rightarrow> bool" where
  "mirrors d c \<longleftrightarrow> scIds c = dIds d \<and> '''' \<notin> set (dIds d) \<and> isolated (Net c) = dIsolated d \<and> grp (Net c) = Map.empty \<and> dropRate (Net c) = dDropRate d \<and>
     (\<forall>i\<in>set (dIds d). alive c i = (\<not> dDown d i)) \<and> (\<forall>i. alive c i \<longrightarrow> scNodes c i \<noteq> None)"

definition demo_ok :: "demo \<Rightarrow> bool" where
  "demo_ok d \<longleftrightarrow> (case dC d of None \<Rightarrow> True | Some c \<Rightarrow> mirrors d c)"

lemma demo_ok_reset:
  assumes "demo_reset es n d = Some d'"
  shows "demo_ok d'"
proof -
  define k where "k = nat (if 7 < (if n < 1 then 1 else n) then 7 else (if n < 1 then 1 else n))"
  obtain c where c: "NewCluster es (demoIds k) (DefaultOptions\<lparr>oSnapshotThreshold := 25\<rparr>) = Some c"
    "d' = \<lparr>dC = Some (c\<lparr>Net := SetLatency (2 * Millisecond) (12 * Millisecond) (Net c)\<rparr>), dIds = demoIds k,
       dDown = (\<lambda>_. False), dIsolated = (\<lambda>_. False), dDropRate = 0, dLastView = noView, dSeq = 0\<rparr>"
    using assms unfolding demo_reset_def Let_def k_def [symmetric] by (auto split: option.splits)
  have "'''' \<notin> set (demoIds k)" by (auto simp: demoIds_def)
  then show ?thesis
    using startAll_fields [OF c(1) [unfolded NewCluster_def]] by (simp add: c(2) demo_ok_def mirrors_def SetLatency_def NewNetwork_def)
qed

lemma demo_ok_restart: "demo_restart e i d = Some d' \<Longrightarrow> demo_ok d \<Longrightarrow> demo_ok d'"
proof -
  assume st: "demo_restart e i d = Some d'" and ok: "demo_ok d"
  show "demo_ok d'"
  proof (cases "dC d")
    case None
    then show ?thesis using st by (auto simp: demo_restart_def demo_ok_def Let_def)
  next
    case (Some c)
    then obtain c' where c': "RestartNode e i c = Some c'" "d' = d\<lparr>dDown := (dDown d)(i := False), dC := Some c'\<rparr>"
      using st by (auto simp: demo_restart_def Let_def)
    have m: "mirrors d c" using ok Some by (simp add: demo_ok_def)
    show ?thesis
    proof (cases "alive c i")
      case True
      then show ?thesis using c' m by (auto simp: RestartNode_def demo_ok_def mirrors_def)
    next
      case False
      then have "startMember e (map_option disk (scNodes c i)) i c = Some c'" using c'(1) by (simp add: RestartNode_def)
      from startMember_fields [OF this] show ?thesis using c'(2) m by (auto simp: demo_ok_def mirrors_def)
    qed
  qed
qed

lemma demo_ok_state: "demo_ok d \<Longrightarrow> demo_ok (fst (demo_state d))"
  by (auto simp: demo_state_def demo_ok_def mirrors_def Let_def split: option.splits prod.splits)

lemma demo_ok_submit: "demo_submit cmd d = (d', out) \<Longrightarrow> demo_ok d \<Longrightarrow> demo_ok d'"
  by (auto simp: demo_submit_def demo_ok_def mirrors_def Let_def split: option.splits)

lemma demo_ok_kill: "demo_ok d \<Longrightarrow> demo_ok (demo_kill i d)"
  using CrashNode_fields by (auto simp: demo_kill_def demo_ok_def mirrors_def Let_def split: option.splits)

lemma demo_ok_net:
  "demo_ok d \<Longrightarrow> demo_ok (demo_toggleIsolate i d)" "demo_ok d \<Longrightarrow> demo_ok (demo_setDrop r d)" "demo_ok d \<Longrightarrow> demo_ok (demo_heal d)"
  by (cases "dC d"; simp add: demo_ok_def mirrors_def demo_toggleIsolate_def demo_setDrop_def demo_heal_def Rejoin_def Isolate_def
      SetDropRate_def Heal_def)+

lemma demo_ok_call: "js_call es call d = Some (d', cmd) \<Longrightarrow> demo_ok d \<Longrightarrow> demo_ok d'"
  by (cases call)
    (auto simp: js_call_def demo_ok_state demo_ok_kill demo_ok_net intro: demo_ok_reset demo_ok_restart demo_ok_submit
      split: option.splits)

lemma demo_run_ok: "demo_run d \<Longrightarrow> demo_ok d"
proof (induction rule: demo_run.induct)
  case boot
  show ?case by (simp add: demo_ok_def demo0_def)
next
  case (call d es call d' cmd)
  then show ?case using demo_ok_call by blast
next
  case (nodes_run d c c')
  then show ?case by (auto simp: demo_ok_def mirrors_def same_controls_def)
qed

lemma viewLoop_result:
  "viewLoop d c is l vs = (l', vs') \<Longrightarrow> vs' = vs @ map (nodeView_of d c) is \<and>
     (l' = l \<and> (\<forall>i\<in>set is. \<not> (claims c i \<and> \<not> dIsolated d i)) \<or> l' \<in> set is \<and> claims c l' \<and> \<not> dIsolated d l')"
proof (induction "is" arbitrary: l vs)
  case (Cons i "is")
  define l1 where "l1 = (if claims c i \<and> \<not> dIsolated d i then i else l)"
  have "(nvLeader (nodeView_of d c i) \<and> \<not> nvIsolated (nodeView_of d c i)) = (claims c i \<and> \<not> dIsolated d i)"
    by (auto simp: nodeView_of_def claims_def Let_def split: option.splits)
  then have "viewLoop d c is l1 (vs @ [nodeView_of d c i]) = (l', vs')" using Cons.prems by (simp add: Let_def l1_def)
  from Cons.IH [OF this] show ?case unfolding l1_def by (cases "claims c i \<and> \<not> dIsolated d i") auto
qed simp

lemma nodeView_fields:
  assumes "mirrors d c" "i \<in> set (dIds d)"
  shows "nvID (nodeView_of d c i) = i" "nvDown (nodeView_of d c i) = (\<not> alive c i)" "nvIsolated (nodeView_of d c i) = isolated (Net c) i"
    "nvRole (nodeView_of d c i) = ''down'' \<longleftrightarrow> \<not> alive c i" "nvLeader (nodeView_of d c i) = claims c i"
proof -
  have r: "Role_String x \<noteq> ''down''" for x by (cases x) simp_all
  show "nvRole (nodeView_of d c i) = ''down'' \<longleftrightarrow> \<not> alive c i"
    using assms by (auto simp: mirrors_def nodeView_of_def NodeOf_def NodeStatus_def Let_def r split: option.splits)
qed (use assms in \<open>auto simp: mirrors_def nodeView_of_def claims_def Let_def split: option.splits\<close>)

text \<open>
  C39: Whatever the page calls and however the nodes run in between, the view is true: it lists
  every server, shows exactly the crashed ones as down and the isolated ones as isolated and the
  drop rate of the network; the leader it names is a running server that claims to lead and is not
  isolated, and the queue is that server's; it names none only when there is no such server.
\<close>

theorem demo_shows_cluster:
  assumes "demo_run d" "dC d = Some c" "demo_state d = (d', Some v)"
  shows "map nvID (vNodes v) = scIds c \<and> vDropRate v = dropRate (Net c) \<and>
    (\<forall>nv\<in>set (vNodes v). (nvDown nv \<longleftrightarrow> \<not> alive c (nvID nv)) \<and> (nvRole nv = ''down'' \<longleftrightarrow> \<not> alive c (nvID nv)) \<and>
       (nvIsolated nv \<longleftrightarrow> isolated (Net c) (nvID nv)) \<and> (nvLeader nv \<longleftrightarrow> claims c (nvID nv))) \<and>
    (if vLeaderID v = '''' then \<forall>i\<in>set (scIds c). claims c i \<longrightarrow> isolated (Net c) i
     else claims c (vLeaderID v) \<and> \<not> isolated (Net c) (vLeaderID v) \<and>
       (\<exists>st. StateMachineOf c (vLeaderID v) = Some st \<and> vQueue v = Queue st \<and> vNowPlaying v = NowPlaying st))"
proof -
  have m: "mirrors d c" using demo_run_ok [OF assms(1)] assms(2) by (simp add: demo_ok_def)
  obtain l vs where vl: "viewLoop d c (dIds d) '''' [] = (l, vs)" by fastforce
  note vr = viewLoop_result [OF vl]
  have v: "vNodes v = vs" "vLeaderID v = l" "vDropRate v = dDropRate d"
    using assms(2,3) vl by (auto simp: demo_state_def noView_def Let_def split: prod.splits option.splits if_splits)
  have nodes: "(nvDown nv \<longleftrightarrow> \<not> alive c (nvID nv)) \<and> (nvRole nv = ''down'' \<longleftrightarrow> \<not> alive c (nvID nv)) \<and>
       (nvIsolated nv \<longleftrightarrow> isolated (Net c) (nvID nv)) \<and> (nvLeader nv \<longleftrightarrow> claims c (nvID nv))" if "nv \<in> set (vNodes v)" for nv
    using that vr v(1) nodeView_fields [OF m] by auto
  have ids: "map nvID (vNodes v) = scIds c"
    using vr v(1) m nodeView_fields(1) [OF m] by (auto simp: mirrors_def intro!: map_idI)
  have none: "claims c i \<longrightarrow> isolated (Net c) i" if "vLeaderID v = ''''" "i \<in> set (scIds c)" for i
    using that vr v(2) m by (auto simp: mirrors_def)
  have some: "claims c l \<and> \<not> isolated (Net c) l" if "l \<noteq> ''''" using that vr m by (auto simp: mirrors_def)
  have queue: "\<exists>st. StateMachineOf c l = Some st \<and> vQueue v = Queue st \<and> vNowPlaying v = NowPlaying st" if ne: "l \<noteq> ''''"
  proof -
    obtain st where "StateMachineOf c l = Some st" using some [OF ne] by (auto simp: claims_def NodeOf_def StateMachineOf_def split: option.splits if_splits)
    then show ?thesis using ne assms(2,3) vl
      by (auto simp: demo_state_def Let_def View_def snapshotResult_def cloneQueue_def split: prod.splits)
  qed
  show ?thesis using ids v(2,3) nodes none some queue m by (auto simp: mirrors_def)
qed

text \<open>A page that resets to two servers and isolates the first.\<close>

theorem demo_shows_cluster_witness:
  "\<exists>d c d' v. dC d = Some c \<and> demo_state d = (d', Some v) \<and> map nvID (vNodes v) = [''n0'', ''n1''] \<and>
     map nvIsolated (vNodes v) = [True, False] \<and> map nvDown (vNodes v) = [False, False] \<and> alive c ''n0'' \<and> isolated (Net c) ''n0''"
proof -
  have ids: "demoIds 2 = [''n0'', ''n1'']"
    by code_simp
  obtain c0 where c0: "NewCluster (\<lambda>_. env0) [''n0'', ''n1''] (DefaultOptions\<lparr>oSnapshotThreshold := 25\<rparr>) = Some c0"
    using startAll_succeeds unfolding NewCluster_def by blast
  define d0 where "d0 = \<lparr>dC = Some (c0\<lparr>Net := SetLatency (2 * Millisecond) (12 * Millisecond) (Net c0)\<rparr>), dIds = [''n0'', ''n1''],
       dDown = (\<lambda>_. False), dIsolated = (\<lambda>_. False), dDropRate = 0, dLastView = noView, dSeq = 0\<rparr>"
  have "js_call (\<lambda>_. env0) (JrReset (Some 2)) demo0 = Some (d0, None)"
    using c0 ids by (simp add: js_call_def demo_reset_def d0_def)
  then have r0: "demo_run d0" by (rule demo_run.call [OF demo_run.boot])
  define d where "d = demo_toggleIsolate ''n0'' d0"
  have r: "demo_run d" by (rule demo_run.call [OF r0, of "\<lambda>_. env0" "JrToggleIsolate ''n0''" d None]) (simp add: js_call_def d_def)
  define c where "c = c0\<lparr>Net := Isolate ''n0'' (SetLatency (2 * Millisecond) (12 * Millisecond) (Net c0))\<rparr>"
  have c: "dC d = Some c" by (simp add: d_def d0_def demo_toggleIsolate_def c_def)
  have "snd (demo_state d) \<noteq> None" using c by (auto simp: demo_state_def Let_def split: prod.splits option.splits)
  then obtain d' v where v: "demo_state d = (d', Some v)" by (metis not_None_eq prod.collapse)
  note th = demo_shows_cluster [OF r c v]
  note m = startAll_fields [OF c0 [unfolded NewCluster_def]]
  have f: "scIds c = [''n0'', ''n1'']" "alive c ''n0''" "alive c ''n1''" "isolated (Net c) ''n0''" "\<not> isolated (Net c) ''n1''"
    using m by (simp_all add: c_def Isolate_def SetLatency_def NewNetwork_def)
  obtain x y where xy: "vNodes v = [x, y]" "nvID x = ''n0''" "nvID y = ''n1''"
    using th f(1) by (auto simp: map_eq_Cons_conv)
  show ?thesis using th xy f c v by (intro exI [of _ d] exI [of _ c] exI [of _ d'] exI [of _ v]) simp
qed

end
