(* ===== verification/QueueModel.thy ===== *)
theory QueueModel
  imports Complex_Main Server
begin

text \<open>
  The sequential specification the chaos harness checks histories against
  (\<open>src/chaos/model.go\<close>), and what a harness client submits and records
  (\<open>src/chaos/harness.go\<close>).  The main result is that the jukebox refines the queue model: every
  enqueue and play-next that takes effect is a step the model accepts, with the output the
  client decodes from the answer.
\<close>

section \<open>The model\<close>

definition KindEnqueue :: string where "KindEnqueue = ''enqueue''"
definition KindDequeue :: string where "KindDequeue = ''dequeue''"

record ModelInput =
  Kind :: string
  Value :: string

abbreviation unit_sep :: char where
  "unit_sep \<equiv> char_of (31 :: nat)"

definition encodeQueue :: "string list \<Rightarrow> string" where
  "encodeQueue q = join_sep unit_sep q"

definition decodeQueue :: "string \<Rightarrow> string list" where
  "decodeQueue s = (if s = '''' then [] else split_sep unit_sep s)"

definition QueueModel_Init :: string where
  "QueueModel_Init = ''''"

definition QueueModel_Step :: "string \<Rightarrow> ModelInput \<Rightarrow> string \<Rightarrow> bool \<times> string" where
  "QueueModel_Step state inp out =
     (let q = decodeQueue state in
      if Kind inp = KindEnqueue then (True, encodeQueue (q @ [Value inp]))
      else if Kind inp = KindDequeue then
        (case q of
           [] \<Rightarrow> (out = '''', state)
         | x # xs \<Rightarrow> if out \<noteq> x then (False, state) else (True, encodeQueue xs))
      else (False, state))"

definition QueueModel_Equal :: "string \<Rightarrow> string \<Rightarrow> bool" where
  "QueueModel_Equal a b \<longleftrightarrow> a = b"

definition QueueModel_Describe :: "ModelInput \<Rightarrow> string \<Rightarrow> string" where
  "QueueModel_Describe inp out =
     (if Kind inp = KindEnqueue then ''enqueue('' @ Value inp @ '')'' else ''play-next() -> '' @ out)"

section \<open>What a client of the harness does\<close>

text \<open>\<open>fmt.Sprintf\<close> with \<open>%d\<close> writes what \<open>itoa\<close> writes.\<close>

definition chaosValue :: "string \<Rightarrow> uint64 \<Rightarrow> string" where
  "chaosValue clientID seq = clientID @ ''-'' @ itoa seq"

definition chaosEnqueue :: "string \<Rightarrow> uint64 \<Rightarrow> Command" where
  "chaosEnqueue clientID seq = (op_command OpEnqueue)\<lparr>cClientID := clientID, cSeq := seq,
     cSong := Some \<lparr>sID = chaosValue clientID seq, sTitle = chaosValue clientID seq, sAddedBy = ''''\<rparr>\<rparr>"

definition chaosPlayNext :: "string \<Rightarrow> uint64 \<Rightarrow> Command" where
  "chaosPlayNext clientID seq = (op_command OpPlayNext)\<lparr>cClientID := clientID, cSeq := seq\<rparr>"

text \<open>The operations of one client, from the draws of its random generator.\<close>

fun clientOps :: "real \<Rightarrow> string \<Rightarrow> uint64 \<Rightarrow> real list \<Rightarrow> Command list" where
  "clientOps ratio clientID seq [] = []"
| "clientOps ratio clientID seq (f # fs) =
     (let seq = add64 seq 1 in
      (if f < ratio then chaosEnqueue clientID seq else chaosPlayNext clientID seq) # clientOps ratio clientID seq fs)"

text \<open>The output recorded for a play-next: the id of the song now playing, empty if there is none.\<close>

definition dequeued :: "Result \<Rightarrow> string" where
  "dequeued r = (case rNowPlaying r of None \<Rightarrow> '''' | Some s \<Rightarrow> sID s)"

definition enqueueInput :: "string \<Rightarrow> ModelInput" where
  "enqueueInput v = \<lparr>Kind = KindEnqueue, Value = v\<rparr>"

definition dequeueInput :: ModelInput where
  "dequeueInput = \<lparr>Kind = KindDequeue, Value = ''''\<rparr>"

section \<open>The jukebox refines the queue\<close>

definition clean :: "string \<Rightarrow> bool" where
  "clean v \<longleftrightarrow> v \<noteq> '''' \<and> unit_sep \<notin> set v"

definition clean_state :: "State \<Rightarrow> bool" where
  "clean_state st \<longleftrightarrow> (\<forall>s\<in>set (Queue st). clean (sID s))"

definition queue_abs :: "State \<Rightarrow> string" where
  "queue_abs st = encodeQueue (map sID (Queue st))"

lemma join_sep_empty: "join_sep c xs = [] \<Longrightarrow> \<forall>x\<in>set xs. x \<noteq> [] \<Longrightarrow> xs = []"
  by (induction c xs rule: join_sep.induct) auto

lemma decode_encode:
  assumes "\<forall>x\<in>set q. clean x"
  shows "decodeQueue (encodeQueue q) = q"
proof (cases "q = []")
  case False
  then have "join_sep unit_sep q \<noteq> ''''" using join_sep_empty [of unit_sep q] assms by (auto simp: clean_def)
  then show ?thesis using False assms by (auto simp: decodeQueue_def encodeQueue_def clean_def intro!: split_join_sep)
qed (simp add: decodeQueue_def encodeQueue_def)

lemma enqueue_refines:
  assumes "clean_state st" "cOp c = OpEnqueue" "cSong c = Some s" "sTitle s \<noteq> ''''"
  shows "QueueModel_Step (queue_abs st) (enqueueInput (sID s)) out = (True, queue_abs (fst (applyInner st c)))"
  using assms decode_encode [of "map sID (Queue st)"]
  by (simp add: clean_state_def queue_abs_def QueueModel_Step_def enqueueInput_def applyInner_def applyEnqueue_def op_defs Let_def)

lemma dequeue_refines:
  assumes "clean_state st" "cOp c = OpPlayNext"
  shows "QueueModel_Step (queue_abs st) dequeueInput (dequeued (snd (applyInner st c))) = (True, queue_abs (fst (applyInner st c)))"
proof -
  have dec: "decodeQueue (queue_abs st) = map sID (Queue st)"
    using assms(1) by (simp add: queue_abs_def decode_encode clean_state_def)
  show ?thesis
  proof (cases "Queue st")
    case Nil
    then show ?thesis
      using assms(2) dec by (auto simp: QueueModel_Step_def dequeueInput_def applyInner_def applyPlayNext_def op_defs KindEnqueue_def KindDequeue_def
          dequeued_def snapshotResult_def queue_abs_def Let_def split: option.splits)
  next
    case (Cons s q)
    then show ?thesis
      using assms(2) dec by (simp add: QueueModel_Step_def dequeueInput_def applyInner_def applyPlayNext_def op_defs KindEnqueue_def KindDequeue_def
          dequeued_def snapshotResult_def queue_abs_def Let_def split: option.splits)
  qed
qed

section \<open>Histories\<close>

text \<open>
  What a client of the harness records for its command \<open>c\<close> once it has the answer \<open>out\<close>; the
  history of a log lists the commands that take effect, in the order of the log.
\<close>

definition chaosInput :: "Command \<Rightarrow> ModelInput" where
  "chaosInput c =
     (if cOp c = OpEnqueue then enqueueInput (case cSong c of None \<Rightarrow> '''' | Some s \<Rightarrow> sID s) else dequeueInput)"

definition chaosOutput :: "Command \<Rightarrow> bytes \<Rightarrow> string" where
  "chaosOutput c out = (if cOp c = OpEnqueue then '''' else dequeued (fst (unmarshal_result out)))"

fun history :: "State \<Rightarrow> Command list \<Rightarrow> (ModelInput \<times> string) list" where
  "history st [] = []"
| "history st (c # cs) =
     (if cOp c = OpNoop \<or> cached st c \<noteq> None then [] else [(chaosInput c, chaosOutput c (snd (Apply st (Encode c))))]) @
     history (fst (Apply st (Encode c))) cs"

text \<open>The model run over a sequential history: \<open>None\<close> when it rejects a step.\<close>

fun accepts :: "string \<Rightarrow> (ModelInput \<times> string) list \<Rightarrow> string option" where
  "accepts q [] = Some q"
| "accepts q ((inp, out) # h) = (case QueueModel_Step q inp out of (ok, q') \<Rightarrow> if ok then accepts q' h else None)"

text \<open>The commands of a harness run: the leaders' no-ops and the clients' operations.\<close>

definition chaos_command :: "Command \<Rightarrow> bool" where
  "chaos_command c \<longleftrightarrow> c = op_command OpNoop \<or>
     (\<exists>k n. clean k \<and> 0 < n \<and> n < two64 \<and> (c = chaosEnqueue k n \<or> c = chaosPlayNext k n))"

lemma unit_sep_eq [simp]: "unit_sep = c \<longleftrightarrow> (of_char c :: nat) = 31"
proof
  assume "(of_char c :: nat) = 31"
  then have "char_of (of_char c :: nat) = (char_of (31 :: nat) :: char)" by simp
  then show "unit_sep = c" by simp
qed auto

lemma chaosValue_clean: "clean k \<Longrightarrow> clean (chaosValue k n)"
proof -
  assume "clean k"
  moreover have "\<not> digit unit_sep" by (simp add: digit_def)
  then have "unit_sep \<notin> set (itoa n)" using itoa_value(2) [of n] by (auto simp: list_all_iff)
  ultimately show ?thesis by (simp add: clean_def chaosValue_def)
qed

lemma chaos_ops [simp]:
  "cOp (chaosEnqueue k n) = OpEnqueue" "cOp (chaosPlayNext k n) = OpPlayNext" "cOp (op_command op) = op"
  "cSong (chaosEnqueue k n) = Some \<lparr>sID = chaosValue k n, sTitle = chaosValue k n, sAddedBy = ''''\<rparr>"
  by (simp_all add: chaosEnqueue_def chaosPlayNext_def op_command_def)

lemma chaos_command_roundtrip: "chaos_command c \<Longrightarrow> unmarshal_command (Encode c) = (c, None)"
  by (rule unmarshal_Encode) (auto simp: chaos_command_def op_command_def chaosEnqueue_def chaosPlayNext_def)

lemma queue_abs_sessions [simp]:
  "queue_abs (st\<lparr>LastSeq := x, LastResult := y\<rparr>) = queue_abs st" "clean_state (st\<lparr>LastSeq := x, LastResult := y\<rparr>) \<longleftrightarrow> clean_state st"
  by (simp_all add: queue_abs_def clean_state_def)

lemma clean_applyInner:
  assumes "clean_state st" "chaos_command c"
  shows "clean_state (fst (applyInner st c))"
  using assms(2) unfolding chaos_command_def
proof (elim disjE exE conjE)
  fix k n assume "c = chaosEnqueue k n" "clean k"
  then show ?thesis using assms(1) chaosValue_clean [of k n]
    by (auto simp: clean_state_def applyInner_def applyEnqueue_def op_defs Let_def)
next
  fix k n assume "c = chaosPlayNext k n"
  then show ?thesis using assms(1)
    by (auto simp: clean_state_def applyInner_def applyPlayNext_def op_defs Let_def split: option.splits list.splits)
qed (use assms(1) in \<open>simp add: applyInner_def\<close>)

lemma clean_Apply: "clean_state st \<Longrightarrow> chaos_command c \<Longrightarrow> clean_state (fst (Apply st (Encode c)))"
  using clean_applyInner [of st c] by (cases "cached st c")
    (auto simp: Apply_cached Apply_fresh chaos_command_roundtrip Let_def case_prod_beta)

lemma queue_Apply: "chaos_command c \<Longrightarrow>
    queue_abs (fst (Apply st (Encode c))) = (if cached st c = None then queue_abs (fst (applyInner st c)) else queue_abs st)"
  by (cases "cached st c") (auto simp: Apply_cached Apply_fresh chaos_command_roundtrip Let_def case_prod_beta)

text \<open>A play-next empties the votes, so its answer survives the wire.\<close>

lemma play_answer:
  assumes "cached st (chaosPlayNext k n) = None" "chaos_command (chaosPlayNext k n)"
  shows "chaosOutput (chaosPlayNext k n) (snd (Apply st (Encode (chaosPlayNext k n)))) = dequeued (snd (applyInner st (chaosPlayNext k n)))"
proof -
  have "rSkipVotes (snd (applyInner st (chaosPlayNext k n))) = 0"
    by (simp add: applyInner_def op_defs applyPlayNext_def snapshotResult_def Let_def)
  then show ?thesis using assms
    by (simp add: chaosOutput_def Apply_fresh chaos_command_roundtrip Let_def case_prod_beta result_roundtrip) (simp add: op_defs)
qed

lemma step_accepted:
  assumes "clean_state st" "chaos_command c" "cOp c \<noteq> OpNoop" "cached st c = None"
  shows "QueueModel_Step (queue_abs st) (chaosInput c) (chaosOutput c (snd (Apply st (Encode c)))) = (True, queue_abs (fst (Apply st (Encode c))))"
  using assms(2) unfolding chaos_command_def
proof (elim disjE exE conjE)
  fix k n assume c: "c = chaosEnqueue k n" "clean k"
  then have "chaosValue k n \<noteq> ''''" using chaosValue_clean by (simp add: clean_def)
  then show ?thesis
    using enqueue_refines [OF assms(1), of c "\<lparr>sID = chaosValue k n, sTitle = chaosValue k n, sAddedBy = ''''\<rparr>"] c assms(2,4)
    by (simp add: chaosInput_def queue_Apply)
next
  fix k n assume "c = chaosPlayNext k n"
  then show ?thesis using dequeue_refines [OF assms(1), of c] assms(2,4) play_answer [of st k n]
    by (simp add: chaosInput_def queue_Apply) (simp add: op_defs)
qed (use assms(3) in simp)

lemma accepts_history:
  assumes "clean_state st" "\<forall>c\<in>set cmds. chaos_command c"
  shows "accepts (queue_abs st) (history st cmds) = Some (queue_abs (run st (map Encode cmds)))"
  using assms
proof (induction cmds arbitrary: st)
  case (Cons c cmds)
  have IH: "accepts (queue_abs (fst (Apply st (Encode c)))) (history (fst (Apply st (Encode c))) cmds) =
      Some (queue_abs (run st (map Encode (c # cmds))))"
    using Cons.IH [OF clean_Apply] Cons.prems by simp
  show ?case
  proof (cases "cOp c = OpNoop \<or> cached st c \<noteq> None")
    case True
    then have "queue_abs (fst (Apply st (Encode c))) = queue_abs st" using Cons.prems(2) by (auto simp: queue_Apply applyInner_def)
    then show ?thesis using IH True by simp
  next
    case False
    then show ?thesis using IH step_accepted [of st c] Cons.prems by simp
  qed
qed simp

definition clientName :: "nat \<Rightarrow> string" where
  "clientName ci = ''c'' @ itoa ci"

lemma clientName_clean: "clean (clientName ci)"
  using itoa_value(2) [of ci] by (auto simp: clean_def clientName_def list_all_iff digit_def)

lemma clientOps_chaos:
  assumes "clean k" "seq + length fs < two64" "c \<in> set (clientOps ratio k seq fs)"
  shows "chaos_command c"
  using assms(2,3)
proof (induction fs arbitrary: seq)
  case (Cons f fs)
  have s: "add64 seq 1 = Suc seq" "Suc seq < two64" using Cons.prems(1) by (simp_all add: add64_def)
  then have "chaos_command (chaosEnqueue k (Suc seq))" "chaos_command (chaosPlayNext k (Suc seq))"
    using assms(1) unfolding chaos_command_def by blast+
  then show ?case using Cons.IH [of "Suc seq"] Cons.prems s by (auto simp: Let_def split: if_splits)
qed simp

text \<open>
  C30: The jukebox refines the queue model of the checker: for any log of no-ops and operations of
  the harness clients, in any interleaving and with any number of retried copies, the operations
  that take effect, with the outputs the clients decode from the answers, form a sequential
  history the model accepts from its initial state, and it ends with the queue of the jukebox.
\<close>

theorem jukebox_refines_QueueModel:
  assumes "\<forall>c\<in>set cmds. c = op_command OpNoop \<or> (\<exists>ci fs. length fs < two64 \<and> c \<in> set (clientOps ratio (clientName ci) 0 fs))"
  shows "accepts QueueModel_Init (history New_jukebox cmds) = Some (queue_abs (run New_jukebox (map Encode cmds)))"
proof -
  have "queue_abs New_jukebox = QueueModel_Init" "clean_state New_jukebox"
    by (simp_all add: queue_abs_def QueueModel_Init_def encodeQueue_def clean_state_def New_jukebox_def zero_state_def)
  moreover have "chaos_command (op_command OpNoop)" by (simp add: chaos_command_def)
  then have "\<forall>c\<in>set cmds. chaos_command c"
    using assms clientOps_chaos [OF clientName_clean, of 0] by (metis add_0)
  ultimately show ?thesis using accepts_history by metis
qed

theorem jukebox_refines_QueueModel_witness:
  "let cmds = op_command OpNoop # clientOps (7 / 10) (clientName 0) 0 [0, 9 / 10] @ clientOps (7 / 10) (clientName 0) 0 [0, 9 / 10]
   in accepts QueueModel_Init (history New_jukebox cmds) = Some (queue_abs (run New_jukebox (map Encode cmds)))"
  unfolding Let_def
proof (rule jukebox_refines_QueueModel [of _ "7 / 10"], intro ballI)
  have "length [0, 9 / 10 :: real] < two64" by (simp add: two64_def)
  then show "c = op_command OpNoop \<or> (\<exists>ci fs. length fs < two64 \<and> c \<in> set (clientOps (7 / 10) (clientName ci) 0 fs))"
    if "c \<in> set (op_command OpNoop # clientOps (7 / 10) (clientName 0) 0 [0, 9 / 10] @ clientOps (7 / 10) (clientName 0) 0 [0, 9 / 10])" for c
    using that by (metis (no_types, lifting) Un_iff insert_iff list.set(2) set_append)
qed

text \<open>
  The checker's encoding of a queue is faithful for values that are not empty and contain no
  unit separator, which is what the harness enqueues.  It is not for others: the queue with one
  empty value has the encoding of the empty queue.
\<close>

lemma queue_encoding:
  "((\<forall>x\<in>set q. clean x) \<longrightarrow> decodeQueue (encodeQueue q) = q) \<and> (clean k \<longrightarrow> clean (chaosValue k n)) \<and>
   encodeQueue [''''] = encodeQueue [] \<and> decodeQueue (encodeQueue ['''']) = []"
  using decode_encode chaosValue_clean by (auto simp: encodeQueue_def decodeQueue_def)

end
