(* ===== verification/Harness.thy ===== *)
theory Harness
  imports QueueModel SimCluster
begin

text \<open>
  A run of the chaos harness, \<open>Run\<close> of \<open>src/chaos/harness.go\<close>: the cluster it opens, its clients, which
  are goroutines that each work through their own operations, and how it leaves the cluster.  A client
  reads the clock, submits, reads the clock again, and records the operation under the mutex; the
  steps of different clients interleave in any order.  What the random generator of a client draws
  is an input, the readings of the clock never go back.
\<close>

section \<open>Configuration and results\<close>

record chaosConfig =
  ccNodes :: nat
  ccClients :: nat
  ccOpsPerClient :: nat
  ccEnqueueRatio :: real
  ccSeed :: int
  ccFaults :: bool
  ccOpTimeout :: int

definition DefaultChaos :: chaosConfig where
  "DefaultChaos = \<lparr>ccNodes = 5, ccClients = 3, ccOpsPerClient = 30, ccEnqueueRatio = 7 / 10, ccSeed = 1, ccFaults = True,
     ccOpTimeout = 20000 * Millisecond\<rparr>"

text \<open>\<open>porcupine.Operation\<close> and \<open>Result\<close>.\<close>

record operation =
  opClientId :: nat
  opInput :: ModelInput
  opOutput :: string
  opCall :: int
  opReturn :: int

record chaosResult =
  resOperations :: "operation list"
  resEnqueues :: int
  resDequeues :: int
  resFaults :: int

definition recordOp :: "operation \<Rightarrow> chaosResult \<Rightarrow> chaosResult" where
  "recordOp o1 r =
     (let r = r\<lparr>resOperations := resOperations r @ [o1]\<rparr> in
      if Kind (opInput o1) = KindEnqueue then r\<lparr>resEnqueues := resEnqueues r + 1\<rparr> else r\<lparr>resDequeues := resDequeues r + 1\<rparr>)"

section \<open>The cluster of a run\<close>

definition chaosIds :: "chaosConfig \<Rightarrow> nodeid list" where
  "chaosIds cc = map (\<lambda>i. ''n'' @ itoa i) [0..<ccNodes cc]"

definition chaosOptions :: Options where
  "chaosOptions = DefaultOptions\<lparr>oSnapshotThreshold := 40\<rparr>"

text \<open>Opening the cluster: no leader within the polls is a panic (\<open>None\<close>).\<close>

definition openRun :: "(nodeid \<Rightarrow> env) \<Rightarrow> chaosConfig \<Rightarrow> leaderPoll list \<Rightarrow> SimCluster option" where
  "openRun es cc polls =
     (case NewCluster es (chaosIds cc) chaosOptions of None \<Rightarrow> None
      | Some c \<Rightarrow>
          let c = c\<lparr>Net := SetLatency Millisecond (6 * Millisecond) (Net c)\<rparr> in
          (case WaitForLeader polls of None \<Rightarrow> None | Some _ \<Rightarrow> Some c))"

fun restartAll :: "(nodeid \<Rightarrow> env) \<Rightarrow> nodeid list \<Rightarrow> SimCluster \<Rightarrow> SimCluster option" where
  "restartAll es [] c = Some c"
| "restartAll es (i # is) c = (case RestartNode (es i) i c of None \<Rightarrow> None | Some c \<Rightarrow> restartAll es is c)"

text \<open>The goroutine of the faults, over what its rounds draw until it is stopped.\<close>

definition faultsOfRun :: "chaosConfig \<Rightarrow> (nodeid \<Rightarrow> 'h) \<Rightarrow> nodeid list \<Rightarrow> faultDraws list \<Rightarrow> 'h simCluster \<Rightarrow> 'h simCluster \<times> int" where
  "faultsOfRun cc newNode ids ds c = (if ccFaults cc then runFaults newNode ids ds c 0 else (c, 0))"

text \<open>After the faults have stopped.\<close>

definition closeRun :: "(nodeid \<Rightarrow> env) \<Rightarrow> nodeid list \<Rightarrow> SimCluster \<Rightarrow> SimCluster option" where
  "closeRun es ids c = restartAll es ids (c\<lparr>Net := Heal (Net c)\<rparr>)"

lemma restartAll_fields:
  "restartAll es is c = Some c' \<Longrightarrow>
   isolated (Net c') = isolated (Net c) \<and> grp (Net c') = grp (Net c) \<and> (\<forall>i. alive c' i = (alive c i \<or> i \<in> set is))"
proof (induction "is" arbitrary: c)
  case (Cons i "is")
  then obtain c1 where c1: "RestartNode (es i) i c = Some c1" "restartAll es is c1 = Some c'" by (auto split: option.splits)
  then show ?case
    using Cons.IH [OF c1(2)] startMember_fields [of "es i" _ i c c1] by (auto simp: RestartNode_def split: if_splits)
qed simp

lemma closeRun_heals:
  assumes "closeRun es ids c = Some c'" "p \<in> set ids" "q \<in> set ids"
  shows "alive c' p" "dropRate (Net c') \<le> 0 \<Longrightarrow> canDeliver e (Net c') p q"
  using restartAll_fields [OF assms(1) [unfolded closeRun_def]] assms(2,3) by (auto simp: canDeliver_def Heal_def)

section \<open>The clients\<close>

text \<open>\<open>mustSubmit\<close>: \<open>None\<close> is its panic, or that it has not returned within the polls.\<close>

definition mustSubmit :: "submitPoll list \<Rightarrow> Command \<Rightarrow> bytes option" where
  "mustSubmit polls c =
     (case SubmitTo polls (Encode c) of
        Some ((out, None), _) \<Rightarrow> Some out
      | _ \<Rightarrow> None)"

datatype phase = Idle | Waiting Command int | Answered Command int bytes int

record chaosClient =
  clSeq :: uint64
  clDraws :: "real list"
  clPhase :: phase

record chaosState =
  chClients :: "nat \<Rightarrow> chaosClient"
  chClock :: int
  chResult :: chaosResult

definition chaosStart :: "(nat \<Rightarrow> real list) \<Rightarrow> chaosState" where
  "chaosStart draws = \<lparr>chClients = (\<lambda>ci. \<lparr>clSeq = 0, clDraws = draws ci, clPhase = Idle\<rparr>), chClock = 0,
     chResult = \<lparr>resOperations = [], resEnqueues = 0, resDequeues = 0, resFaults = 0\<rparr>\<rparr>"

definition setClient :: "nat \<Rightarrow> chaosClient \<Rightarrow> chaosState \<Rightarrow> chaosState" where
  "setClient ci cl s = s\<lparr>chClients := (chClients s)(ci := cl)\<rparr>"

definition chooseOp :: "real \<Rightarrow> string \<Rightarrow> uint64 \<Rightarrow> real \<Rightarrow> Command" where
  "chooseOp ratio clientID seq f = (if f < ratio then chaosEnqueue clientID seq else chaosPlayNext clientID seq)"

text \<open>The head of the loop: the next command, and the clock when it is called.\<close>

definition beginOp :: "chaosConfig \<Rightarrow> nat \<Rightarrow> int \<Rightarrow> chaosClient \<Rightarrow> chaosClient" where
  "beginOp cc ci t cl =
     (let seq = add64 (clSeq cl) 1;
          cmd = chooseOp (ccEnqueueRatio cc) (clientName ci) seq (hd (clDraws cl))
      in \<lparr>clSeq = seq, clDraws = tl (clDraws cl), clPhase = Waiting cmd t\<rparr>)"

definition operationOf :: "nat \<Rightarrow> Command \<Rightarrow> int \<Rightarrow> bytes \<Rightarrow> int \<Rightarrow> operation" where
  "operationOf ci cmd call out ret =
     \<lparr>opClientId = ci, opInput = chaosInput cmd, opOutput = chaosOutput cmd out, opCall = call, opReturn = ret\<rparr>"

inductive chaos_step :: "chaosConfig \<Rightarrow> chaosState \<Rightarrow> chaosState \<Rightarrow> bool" for cc where
  call: "ci < ccClients cc \<Longrightarrow> chClients s ci = cl \<Longrightarrow> clPhase cl = Idle \<Longrightarrow> clDraws cl \<noteq> [] \<Longrightarrow> chClock s \<le> t \<Longrightarrow>
    chaos_step cc s (setClient ci (beginOp cc ci t cl) (s\<lparr>chClock := t\<rparr>))"
| answer: "ci < ccClients cc \<Longrightarrow> chClients s ci = cl \<Longrightarrow> clPhase cl = Waiting cmd t0 \<Longrightarrow> mustSubmit polls cmd = Some out \<Longrightarrow> chClock s \<le> t \<Longrightarrow>
    chaos_step cc s (setClient ci (cl\<lparr>clPhase := Answered cmd t0 out t\<rparr>) (s\<lparr>chClock := t\<rparr>))"
| log_op: "ci < ccClients cc \<Longrightarrow> chClients s ci = cl \<Longrightarrow> clPhase cl = Answered cmd t0 out t1 \<Longrightarrow>
    chaos_step cc s (setClient ci (cl\<lparr>clPhase := Idle\<rparr>) (s\<lparr>chResult := recordOp (operationOf ci cmd t0 out t1) (chResult s)\<rparr>))"

text \<open>The clients have ended (\<open>wg.Wait\<close>).\<close>

definition clients_done :: "chaosConfig \<Rightarrow> chaosState \<Rightarrow> bool" where
  "clients_done cc s \<longleftrightarrow> (\<forall>ci<ccClients cc. clDraws (chClients s ci) = [] \<and> clPhase (chClients s ci) = Idle)"

section \<open>The recorded history\<close>

text \<open>A client's operations do not overlap.\<close>

definition sequential :: "operation list \<Rightarrow> bool" where
  "sequential h \<longleftrightarrow> (\<forall>o1\<in>set h. opCall o1 \<le> opReturn o1) \<and> sorted_wrt (\<lambda>a b. opReturn a \<le> opCall b) h"

definition opsOf :: "chaosState \<Rightarrow> nat \<Rightarrow> operation list" where
  "opsOf s ci = filter (\<lambda>o1. opClientId o1 = ci) (resOperations (chResult s))"

lemma clientOps_snoc:
  "n + length fs + 1 < two64 \<Longrightarrow> clientOps r k n (fs @ [f]) = clientOps r k n fs @ [chooseOp r k (n + length fs + 1) f]"
  by (induction fs arbitrary: n) (simp_all add: Let_def chooseOp_def)

lemma length_clientOps [simp]: "length (clientOps r k n fs) = length fs"
  by (induction fs arbitrary: n) (simp_all add: Let_def)

text \<open>What holds of the client \<open>ci\<close>: \<open>ds\<close> are all its draws, \<open>h\<close> what it has recorded, \<open>t\<close> the clock.\<close>

definition progress_ok :: "chaosConfig \<Rightarrow> nat \<Rightarrow> real list \<Rightarrow> int \<Rightarrow> operation list \<Rightarrow> chaosClient \<Rightarrow> bool" where
  "progress_ok cc ci ds t h cl \<longleftrightarrow> sequential h \<and> (\<forall>o1\<in>set h. opReturn o1 \<le> t) \<and>
     (\<exists>fs. ds = fs @ clDraws cl \<and> clSeq cl = length fs \<and>
       map opInput h @ (case clPhase cl of Idle \<Rightarrow> [] | Waiting cmd _ \<Rightarrow> [chaosInput cmd] | Answered cmd _ _ _ \<Rightarrow> [chaosInput cmd]) =
         map chaosInput (clientOps (ccEnqueueRatio cc) (clientName ci) 0 fs)) \<and>
     (case clPhase cl of Idle \<Rightarrow> True
      | Waiting cmd t0 \<Rightarrow> t0 \<le> t \<and> (\<forall>o1\<in>set h. opReturn o1 \<le> t0)
      | Answered cmd t0 out t1 \<Rightarrow> t0 \<le> t1 \<and> t1 \<le> t \<and> (\<forall>o1\<in>set h. opReturn o1 \<le> t0))"

lemma progress_later: "progress_ok cc ci ds t h cl \<Longrightarrow> t \<le> t' \<Longrightarrow> progress_ok cc ci ds t' h cl"
  unfolding progress_ok_def by (fastforce split: phase.splits)

lemma progress_call:
  assumes "progress_ok cc ci ds t h cl" "clPhase cl = Idle" "clDraws cl \<noteq> []" "length ds < two64" "t \<le> t'"
  shows "progress_ok cc ci ds t' h (beginOp cc ci t' cl)"
proof -
  obtain fs where fs: "ds = fs @ clDraws cl" "clSeq cl = length fs"
      "map opInput h = map chaosInput (clientOps (ccEnqueueRatio cc) (clientName ci) 0 fs)"
    using assms(1,2) by (auto simp: progress_ok_def)
  obtain f gs where g: "clDraws cl = f # gs" using assms(3) by (cases "clDraws cl") auto
  have "length fs + 1 < two64" using assms(4) fs(1) g by simp
  then have "\<exists>xs. ds = xs @ gs \<and> add64 (clSeq cl) 1 = length xs \<and>
      map opInput h @ [chaosInput (chooseOp (ccEnqueueRatio cc) (clientName ci) (add64 (clSeq cl) 1) f)] =
        map chaosInput (clientOps (ccEnqueueRatio cc) (clientName ci) 0 xs)"
    using fs g by (intro exI [of _ "fs @ [f]"]) (simp add: clientOps_snoc)
  moreover have "\<forall>o1\<in>set h. opReturn o1 \<le> t'" "sequential h" using assms(1,5) by (auto simp: progress_ok_def)
  ultimately show ?thesis by (simp add: progress_ok_def beginOp_def g Let_def)
qed

lemma progress_answer:
  assumes "progress_ok cc ci ds t h cl" "clPhase cl = Waiting cmd t0" "t \<le> t'"
  shows "progress_ok cc ci ds t' h (cl\<lparr>clPhase := Answered cmd t0 out t'\<rparr>)"
  using assms by (fastforce simp: progress_ok_def)

lemma progress_log:
  assumes "progress_ok cc ci ds t h cl" "clPhase cl = Answered cmd t0 out t1"
  shows "progress_ok cc ci ds t (h @ [operationOf ci cmd t0 out t1]) (cl\<lparr>clPhase := Idle\<rparr>)"
  using assms by (auto simp: progress_ok_def operationOf_def sequential_def sorted_wrt_append)

definition run_ok :: "chaosConfig \<Rightarrow> (nat \<Rightarrow> real list) \<Rightarrow> chaosState \<Rightarrow> bool" where
  "run_ok cc draws s \<longleftrightarrow>
     (\<forall>ci<ccClients cc. progress_ok cc ci (draws ci) (chClock s) (opsOf s ci) (chClients s ci)) \<and>
     (\<forall>o1\<in>set (resOperations (chResult s)). opClientId o1 < ccClients cc) \<and>
     resEnqueues (chResult s) = int (length (filter (\<lambda>o1. Kind (opInput o1) = KindEnqueue) (resOperations (chResult s)))) \<and>
     resDequeues (chResult s) = int (length (filter (\<lambda>o1. Kind (opInput o1) \<noteq> KindEnqueue) (resOperations (chResult s))))"

lemma client_set [simp]:
  "chClients (setClient ci cl s) = (chClients s)(ci := cl)" "chClock (setClient ci cl s) = chClock s" "chResult (setClient ci cl s) = chResult s"
  by (simp_all add: setClient_def)

lemma opsOf_set [simp]: "opsOf (setClient ci cl s) cj = opsOf s cj" "opsOf (s\<lparr>chClock := t\<rparr>) cj = opsOf s cj"
  by (simp_all add: opsOf_def)

lemma opsOf_log: "opsOf (s\<lparr>chResult := recordOp o1 (chResult s)\<rparr>) cj = opsOf s cj @ (if opClientId o1 = cj then [o1] else [])"
  by (simp add: opsOf_def recordOp_def Let_def)

lemma run_ok_step:
  assumes "chaos_step cc s s'" "run_ok cc draws s" "\<And>ci. ci < ccClients cc \<Longrightarrow> length (draws ci) < two64"
  shows "run_ok cc draws s'"
  using assms
proof (induction rule: chaos_step.induct)
  case (call ci s cl t)
  then have "progress_ok cc ci (draws ci) (chClock s) (opsOf s ci) cl" by (auto simp: run_ok_def)
  from progress_call [OF this call(3,4) call.prems(2) [OF call(1)] call(5)] show ?case
    using call progress_later [OF _ call(5)] by (simp add: run_ok_def)
next
  case (answer ci s cl cmd t0 polls out t)
  then have "progress_ok cc ci (draws ci) (chClock s) (opsOf s ci) cl" by (auto simp: run_ok_def)
  from progress_answer [OF this answer(3,5)] show ?case
    using answer progress_later [OF _ answer(5)] by (simp add: run_ok_def)
next
  case (log_op ci s cl cmd t0 out t1)
  let ?o = "operationOf ci cmd t0 out t1"
  have "progress_ok cc ci (draws ci) (chClock s) (opsOf s ci) cl" using log_op by (auto simp: run_ok_def)
  moreover have "opClientId ?o = ci" by (simp add: operationOf_def)
  ultimately show ?case
    using log_op progress_log [of cc ci "draws ci" "chClock s" "opsOf s ci" cl cmd t0 out t1]
    by (simp add: run_ok_def opsOf_log) (auto simp: recordOp_def Let_def)
qed

lemma sum_by_client:
  "\<forall>o1\<in>set os. opClientId o1 < n \<Longrightarrow> (\<Sum>ci<n. length (filter (\<lambda>o1. opClientId o1 = ci) os)) = length os"
proof (induction os)
  case (Cons o1 os)
  have "(\<Sum>ci<n. length (filter (\<lambda>x. opClientId x = ci) (o1 # os))) =
      (\<Sum>ci<n. (if opClientId o1 = ci then 1 else 0) + length (filter (\<lambda>x. opClientId x = ci) os))"
    by (rule sum.cong) auto
  also have "\<dots> = Suc (length os)" using Cons by (simp add: sum.distrib)
  finally show ?case by simp
qed simp

text \<open>
  C38: The harness records a complete and well-formed history: when all clients have ended, every one of the
  operations each client was to do is recorded exactly once and in the client's order, the operations of one client do
  not overlap in time, and the two counters add up.  (This is what the linearizability checker requires of its input.)
\<close>

theorem recorded_history_complete:
  assumes "\<And>ci. ci < ccClients cc \<Longrightarrow> length (draws ci) = ccOpsPerClient cc" "ccOpsPerClient cc < two64"
    and "(chaos_step cc)\<^sup>*\<^sup>* (chaosStart draws) s" "clients_done cc s"
  shows "length (resOperations (chResult s)) = ccClients cc * ccOpsPerClient cc \<and>
     resEnqueues (chResult s) + resDequeues (chResult s) = int (ccClients cc * ccOpsPerClient cc) \<and>
     (\<forall>ci<ccClients cc. sequential (opsOf s ci) \<and>
        map opInput (opsOf s ci) = map chaosInput (clientOps (ccEnqueueRatio cc) (clientName ci) 0 (draws ci)))"
proof -
  have "run_ok cc draws s"
    using assms(3)
  proof (induction rule: rtranclp_induct)
    case base
    show ?case by (simp add: run_ok_def progress_ok_def chaosStart_def opsOf_def sequential_def)
  next
    case (step a b)
    then show ?case using run_ok_step [OF step(2,3)] assms(1,2) by simp
  qed
  note r = this [unfolded run_ok_def]
  have each: "sequential (opsOf s ci) \<and> map opInput (opsOf s ci) = map chaosInput (clientOps (ccEnqueueRatio cc) (clientName ci) 0 (draws ci))"
    if "ci < ccClients cc" for ci
    using r that assms(4) by (simp add: progress_ok_def clients_done_def)
  have "length (opsOf s ci) = ccOpsPerClient cc" if "ci < ccClients cc" for ci
    using arg_cong [OF conjunct2 [OF each [OF that]], of length] assms(1) [OF that] by (simp add: length_clientOps)
  then have "(\<Sum>ci<ccClients cc. length (opsOf s ci)) = ccClients cc * ccOpsPerClient cc" by simp
  then have len: "length (resOperations (chResult s)) = ccClients cc * ccOpsPerClient cc"
    using sum_by_client [of "resOperations (chResult s)" "ccClients cc"] r by (simp add: opsOf_def)
  moreover have "resEnqueues (chResult s) + resDequeues (chResult s) = int (length (resOperations (chResult s)))"
    using r sum_length_filter_compl [of "\<lambda>o1. Kind (opInput o1) = KindEnqueue" "resOperations (chResult s)"] by linarith
  ultimately show ?thesis using each by simp
qed

text \<open>Two clients with one operation each, which overlap.\<close>

definition w_poll :: submitPoll where
  "w_poll = \<lparr>sErr = None, sSeen = \<lparr>Net = NewNetwork, alive = (\<lambda>_. True), scIds = [''a''], scOpts = DefaultOptions,
     scNodes = (\<lambda>i. Some ((blank i)\<lparr>role := Leader\<rparr>))\<rparr>, sCall = (\<lambda>_ _. (NoBytes, None))\<rparr>"

lemma w_submit: "mustSubmit [w_poll] c = Some NoBytes"
  by (simp add: mustSubmit_def w_poll_def leaderCandidates_def claims_def NodeOf_def IsLeader_def Let_def)

theorem recorded_history_complete_witness:
  "\<exists>s. (chaos_step (DefaultChaos\<lparr>ccClients := 2, ccOpsPerClient := 1\<rparr>))\<^sup>*\<^sup>* (chaosStart (\<lambda>ci. [0])) s \<and>
     length (resOperations (chResult s)) = 2 \<and> resEnqueues (chResult s) + resDequeues (chResult s) = 2"
proof -
  let ?cc = "DefaultChaos\<lparr>ccClients := 2, ccOpsPerClient := 1\<rparr>"
  define cmd where "cmd ci = chaosEnqueue (clientName ci) 1" for ci
  define s0 where "s0 = chaosStart (\<lambda>ci. [0])"
  define called where "called ci t = \<lparr>clSeq = 1, clDraws = [], clPhase = Waiting (cmd ci) t\<rparr>" for ci t
  have c0: "beginOp ?cc ci t (chClients s0 ci) = called ci t" for ci t
    by (simp add: beginOp_def s0_def chaosStart_def called_def cmd_def chooseOp_def DefaultChaos_def two64_def)
  define s1 where "s1 = setClient 0 (called 0 1) (s0\<lparr>chClock := 1\<rparr>)"
  define s2 where "s2 = setClient 1 (called 1 2) (s1\<lparr>chClock := 2\<rparr>)"
  define s3 where "s3 = setClient 1 ((called 1 2)\<lparr>clPhase := Answered (cmd 1) 2 NoBytes 3\<rparr>) (s2\<lparr>chClock := 3\<rparr>)"
  define s4 where "s4 = setClient 0 ((called 0 1)\<lparr>clPhase := Answered (cmd 0) 1 NoBytes 4\<rparr>) (s3\<lparr>chClock := 4\<rparr>)"
  define s5 where "s5 = setClient 0 ((called 0 1)\<lparr>clPhase := Idle\<rparr>) (s4\<lparr>chResult := recordOp (operationOf 0 (cmd 0) 1 NoBytes 4) (chResult s4)\<rparr>)"
  define s6 where "s6 = setClient 1 ((called 1 2)\<lparr>clPhase := Idle\<rparr>) (s5\<lparr>chResult := recordOp (operationOf 1 (cmd 1) 2 NoBytes 3) (chResult s5)\<rparr>)"
  have f: "chClock s0 = 0" "chClients s0 ci = \<lparr>clSeq = 0, clDraws = [0], clPhase = Idle\<rparr>" for ci by (simp_all add: s0_def chaosStart_def)
  have "chaos_step ?cc s0 s1" unfolding s1_def c0 [symmetric] by (rule chaos_step.call) (simp_all add: f)
  moreover have "chClients s1 1 = chClients s0 1" "chClock s1 = 1" by (simp_all add: s1_def)
  then have "chaos_step ?cc s1 s2" unfolding s2_def c0 [symmetric] by (intro chaos_step.call) (simp_all add: f)
  moreover have "chaos_step ?cc s2 s3" unfolding s3_def
    by (rule chaos_step.answer [where polls = "[w_poll]"]) (simp_all add: s2_def called_def w_submit)
  moreover have "chaos_step ?cc s3 s4" unfolding s4_def
    by (rule chaos_step.answer [where polls = "[w_poll]"]) (simp_all add: s3_def s2_def s1_def called_def w_submit)
  moreover have "chaos_step ?cc s4 s5" unfolding s5_def using chaos_step.log_op [of 0 ?cc s4 _ "cmd 0" 1 NoBytes 4]
    by (simp add: s4_def called_def)
  moreover have "chaos_step ?cc s5 s6" unfolding s6_def using chaos_step.log_op [of 1 ?cc s5 _ "cmd 1" 2 NoBytes 3]
    by (simp add: s5_def s4_def s3_def called_def)
  ultimately have run: "(chaos_step ?cc)\<^sup>*\<^sup>* s0 s6" by (meson converse_rtranclp_into_rtranclp r_into_rtranclp)
  have "clients_done ?cc s6" by (auto simp: clients_done_def s6_def s5_def s4_def s3_def s2_def s1_def called_def less_Suc_eq numeral_2_eq_2)
  then show ?thesis
    using recorded_history_complete [of ?cc "\<lambda>ci. [0]" s6] run by (auto simp: s0_def two64_def)
qed

end
