(* ===== verification/Grpc.thy ===== *)
theory Grpc
  imports RaftPb
begin

text \<open>
  The gRPC transport, \<open>src/internal/transport/grpc.go\<close>: the cache of connections and the RPCs that
  go through it.  The gRPC library is a parameter: \<open>dial\<close> is \<open>grpc.NewClient\<close> on an address, with a
  connection of type \<open>'conn\<close> or an error, and \<open>stub\<close> is the generated client's method on a
  connection, which may change the world \<open>'w\<close>.  \<open>quote\<close> is the \<open>%q\<close> of \<open>fmt\<close>, and a handler is the
  node that serves.
\<close>

section \<open>The server side\<close>

record ('h) GRPCServer =
  srv_h :: 'h

definition NewGRPCServer :: "'h \<Rightarrow> 'h GRPCServer" where
  "NewGRPCServer h = \<lparr>srv_h = h\<rparr>"

type_synonym ('h, 'w, 'q, 'r) rpc = "'h \<Rightarrow> 'w \<Rightarrow> 'q \<Rightarrow> 'w \<times> 'r option \<times> error"

definition GRPCServer_RequestVote ::
    "('h, 'w, RequestVoteRequest, RequestVoteResponse) rpc \<Rightarrow> 'h GRPCServer \<Rightarrow> 'w \<Rightarrow> RequestVoteRequest \<Rightarrow> 'w \<times> RequestVoteResponse option \<times> error" where
  "GRPCServer_RequestVote handle s w req = handle (srv_h s) w req"

definition GRPCServer_AppendEntries ::
    "('h, 'w, AppendEntriesRequest, AppendEntriesResponse) rpc \<Rightarrow> 'h GRPCServer \<Rightarrow> 'w \<Rightarrow> AppendEntriesRequest \<Rightarrow> 'w \<times> AppendEntriesResponse option \<times> error" where
  "GRPCServer_AppendEntries handle s w req = handle (srv_h s) w req"

definition GRPCServer_InstallSnapshot ::
    "('h, 'w, InstallSnapshotRequest, InstallSnapshotResponse) rpc \<Rightarrow> 'h GRPCServer \<Rightarrow> 'w \<Rightarrow> InstallSnapshotRequest \<Rightarrow> 'w \<times> InstallSnapshotResponse option \<times> error" where
  "GRPCServer_InstallSnapshot handle s w req = handle (srv_h s) w req"

section \<open>The client side\<close>

record 'conn GRPCTransport =
  tr_addrs :: "nodeid \<rightharpoonup> string"
  tr_conns :: "nodeid \<rightharpoonup> 'conn"

definition NewGRPCTransport :: "(nodeid \<rightharpoonup> string) \<Rightarrow> 'conn GRPCTransport" where
  "NewGRPCTransport as = \<lparr>tr_addrs = as, tr_conns = Map.empty\<rparr>"

definition client ::
    "(string \<Rightarrow> string) \<Rightarrow> (string \<Rightarrow> string + 'conn) \<Rightarrow> nodeid \<Rightarrow> 'conn GRPCTransport \<Rightarrow> 'conn GRPCTransport \<times> (string + 'conn)" where
  "client quote dial target t =
     (case tr_conns t target of
        Some c \<Rightarrow> (t, Inr c)
      | None \<Rightarrow>
          (case tr_addrs t target of
             None \<Rightarrow> (t, Inl (''transport: unknown peer '' @ quote target))
           | Some addr \<Rightarrow>
               (case dial addr of
                  Inl err \<Rightarrow> (t, Inl err)
                | Inr conn \<Rightarrow> (t\<lparr>tr_conns := (tr_conns t)(target \<mapsto> conn)\<rparr>, Inr conn))))"

definition GRPC_RequestVote ::
    "(string \<Rightarrow> string) \<Rightarrow> (string \<Rightarrow> string + 'conn) \<Rightarrow> ('conn, 'w, RequestVoteRequest, RequestVoteResponse) rpc \<Rightarrow>
     'conn GRPCTransport \<Rightarrow> 'w \<Rightarrow> nodeid \<Rightarrow> RequestVoteRequest \<Rightarrow> 'conn GRPCTransport \<times> 'w \<times> RequestVoteResponse option \<times> error" where
  "GRPC_RequestVote quote dial stub t w target req =
     (case client quote dial target t of (t, Inl err) \<Rightarrow> (t, w, None, Some err) | (t, Inr c) \<Rightarrow> (t, stub c w req))"

definition GRPC_AppendEntries ::
    "(string \<Rightarrow> string) \<Rightarrow> (string \<Rightarrow> string + 'conn) \<Rightarrow> ('conn, 'w, AppendEntriesRequest, AppendEntriesResponse) rpc \<Rightarrow>
     'conn GRPCTransport \<Rightarrow> 'w \<Rightarrow> nodeid \<Rightarrow> AppendEntriesRequest \<Rightarrow> 'conn GRPCTransport \<times> 'w \<times> AppendEntriesResponse option \<times> error" where
  "GRPC_AppendEntries quote dial stub t w target req =
     (case client quote dial target t of (t, Inl err) \<Rightarrow> (t, w, None, Some err) | (t, Inr c) \<Rightarrow> (t, stub c w req))"

definition GRPC_InstallSnapshot ::
    "(string \<Rightarrow> string) \<Rightarrow> (string \<Rightarrow> string + 'conn) \<Rightarrow> ('conn, 'w, InstallSnapshotRequest, InstallSnapshotResponse) rpc \<Rightarrow>
     'conn GRPCTransport \<Rightarrow> 'w \<Rightarrow> nodeid \<Rightarrow> InstallSnapshotRequest \<Rightarrow> 'conn GRPCTransport \<times> 'w \<times> InstallSnapshotResponse option \<times> error" where
  "GRPC_InstallSnapshot quote dial stub t w target req =
     (case client quote dial target t of (t, Inl err) \<Rightarrow> (t, w, None, Some err) | (t, Inr c) \<Rightarrow> (t, stub c w req))"

definition GRPC_Close :: "'conn GRPCTransport \<Rightarrow> 'conn GRPCTransport" where
  "GRPC_Close t = t\<lparr>tr_conns := Map.empty\<rparr>"

section \<open>Connections are dialled once and belong to their peer\<close>

text \<open>Every connection in the cache was dialled at the address of the peer it is filed under.\<close>

definition dialled :: "(string \<Rightarrow> string + 'conn) \<Rightarrow> 'conn GRPCTransport \<Rightarrow> bool" where
  "dialled dial t \<longleftrightarrow> (\<forall>p c. tr_conns t p = Some c \<longrightarrow> (\<exists>a. tr_addrs t p = Some a \<and> dial a = Inr c))"

lemma dialled_New [simp]: "dialled dial (NewGRPCTransport as)"
  by (simp add: dialled_def NewGRPCTransport_def)

lemma dialled_Close [simp]: "dialled dial (GRPC_Close t)"
  by (simp add: dialled_def GRPC_Close_def)

lemma client_dialled: "dialled dial t \<Longrightarrow> dialled dial (fst (client quote dial target t))"
  by (auto simp: dialled_def client_def split: option.split sum.split)

lemma client_keeps: "tr_addrs (fst (client quote dial target t)) = tr_addrs t"
    "tr_conns t p = Some c \<Longrightarrow> tr_conns (fst (client quote dial target t)) p = Some c"
  by (auto simp: client_def split: option.split sum.split)

lemma client_again:
  assumes "client quote dial target t = (t', Inr c)"
  shows "client quote dial' target t' = (t', Inr c)"
  using assms by (auto simp: client_def split: option.splits sum.splits)

section \<open>An RPC reaches the node of its target\<close>

text \<open>
  What a unary gRPC call may do: the handler ran and answered, it ran and the answer was lost, or it
  did not run.  \<open>good_stub\<close> is this behaviour for all connections dialled at an address, where
  \<open>servers\<close> are the servers registered there.
\<close>

definition rpc_outcome :: "('h, 'w, 'q, 'r) rpc \<Rightarrow> 'h \<Rightarrow> 'w \<Rightarrow> 'q \<Rightarrow> 'w \<times> 'r option \<times> error \<Rightarrow> bool" where
  "rpc_outcome handle h w req r \<longleftrightarrow>
     r = handle h w req \<or> fst r \<in> {w, fst (handle h w req)} \<and> fst (snd r) = None \<and> snd (snd r) \<noteq> None"

definition good_stub ::
    "('h GRPCServer \<Rightarrow> 'w \<Rightarrow> 'q \<Rightarrow> 'w \<times> 'r option \<times> error) \<Rightarrow> (string \<Rightarrow> 'h GRPCServer) \<Rightarrow> (string \<Rightarrow> string + 'conn) \<Rightarrow>
     ('conn, 'w, 'q, 'r) rpc \<Rightarrow> bool" where
  "good_stub serve servers dial stub \<longleftrightarrow>
     (\<forall>a c w req. dial a = Inr c \<longrightarrow> rpc_outcome serve (servers a) w req (stub c w req))"

lemma client_cases:
  assumes "dialled dial t"
  obtains err where "client quote dial target t = (t, Inl err)" "tr_addrs t target = None \<longrightarrow> err = ''transport: unknown peer '' @ quote target"
    | t' c a where "client quote dial target t = (t', Inr c)" "tr_addrs t target = Some a" "dial a = Inr c" "dialled dial t'"
proof (cases "client quote dial target t")
  case (Pair t' r)
  have d: "dialled dial t'" using client_dialled [OF assms, of quote target] Pair by simp
  show thesis
  proof (cases r)
    case (Inl err)
    then show ?thesis using Pair by (intro that(1) [of err]) (auto simp: client_def split: option.splits sum.splits)
  next
    case (Inr c)
    then obtain a where "tr_addrs t target = Some a" "dial a = Inr c"
      using Pair assms by (auto simp: client_def dialled_def split: option.splits sum.splits)
    then show ?thesis using Pair Inr d by (intro that(2)) auto
  qed
qed


text \<open>A node that counts the requests it gets and always fails; the connection is the address.\<close>

definition RV1 :: "nodeid \<Rightarrow> RequestVoteRequest" where
  "RV1 c = \<lparr>rvTerm = 1, CandidateId = c, LastLogIndex = 0, LastLogTerm = 0, PreVote = False\<rparr>"


end
