(* ===== verification/Commands.thy ===== *)
theory Commands
  imports Harness Grpc "HOL-Library.Sublist"
begin

text \<open>
  The commands.  \<open>src/cmd/chaos/main.go\<close>: the tally over many histories, with what a run returns and what
  the checker says as parameters.  \<open>src/cmd/node/main.go\<close>: the flags and the node built from them;
  \<open>log.Fatalf\<close> is an error value.  Strings are ASCII.  The HTTP and gRPC listeners, signals and the
  storage directory are not modelled.
\<close>

section \<open>The chaos command\<close>

datatype checkResult = CheckOk | CheckUnknown | CheckIllegal

record chaosTally =
  tOk :: int
  tUnknown :: int
  tIllegal :: int
  tTotalOps :: int
  tViolations :: "(int \<times> nat) list"

record chaosFlags =
  cfHistories :: nat
  cfClients :: nat
  cfOps :: nat
  cfNodes :: nat
  cfSeed :: int

definition historyConfig :: "chaosFlags \<Rightarrow> nat \<Rightarrow> chaosConfig" where
  "historyConfig fl i = DefaultChaos\<lparr>ccNodes := cfNodes fl, ccClients := cfClients fl, ccOpsPerClient := cfOps fl, ccSeed := cfSeed fl + int i\<rparr>"

definition tallyHistory :: "int \<Rightarrow> chaosResult \<Rightarrow> checkResult \<Rightarrow> chaosTally \<Rightarrow> chaosTally" where
  "tallyHistory seed r verdict t =
     (let t = t\<lparr>tTotalOps := tTotalOps t + int (length (resOperations r))\<rparr> in
      case verdict of
        CheckOk \<Rightarrow> t\<lparr>tOk := tOk t + 1\<rparr>
      | CheckUnknown \<Rightarrow> t\<lparr>tUnknown := tUnknown t + 1\<rparr>
      | CheckIllegal \<Rightarrow> t\<lparr>tIllegal := tIllegal t + 1, tViolations := tViolations t @ [(seed, length (resOperations r))]\<rparr>)"

fun chaosLoop ::
    "(chaosConfig \<Rightarrow> chaosResult) \<Rightarrow> (operation list \<Rightarrow> checkResult) \<Rightarrow> chaosFlags \<Rightarrow> nat list \<Rightarrow> chaosTally \<Rightarrow> chaosTally" where
  "chaosLoop runOne check fl [] t = t"
| "chaosLoop runOne check fl (i # is) t =
     (let cc = historyConfig fl i; r = runOne cc
      in chaosLoop runOne check fl is (tallyHistory (ccSeed cc) r (check (resOperations r)) t))"

text \<open>The report and the exit code.\<close>

definition chaosMain ::
    "(chaosConfig \<Rightarrow> chaosResult) \<Rightarrow> (operation list \<Rightarrow> checkResult) \<Rightarrow> chaosFlags \<Rightarrow> chaosTally \<times> int" where
  "chaosMain runOne check fl =
     (let t = chaosLoop runOne check fl [0..<cfHistories fl]
                \<lparr>tOk = 0, tUnknown = 0, tIllegal = 0, tTotalOps = 0, tViolations = []\<rparr>
      in (t, if 0 < tIllegal t then 1 else 0))"

lemma chaosLoop_tally:
  "chaosLoop runOne check fl is t = t' \<Longrightarrow>
   tOk t' + tUnknown t' + tIllegal t' = tOk t + tUnknown t + tIllegal t + int (length is) \<and>
   tIllegal t' = tIllegal t + int (length (filter (\<lambda>i. check (resOperations (runOne (historyConfig fl i))) = CheckIllegal) is)) \<and>
   tViolations t' = tViolations t @ map (\<lambda>i. (cfSeed fl + int i, length (resOperations (runOne (historyConfig fl i)))))
     (filter (\<lambda>i. check (resOperations (runOne (historyConfig fl i))) = CheckIllegal) is)"
proof (induction "is" arbitrary: t)
  case (Cons i "is")
  define t1 where "t1 = tallyHistory (cfSeed fl + int i) (runOne (historyConfig fl i)) (check (resOperations (runOne (historyConfig fl i)))) t"
  have "chaosLoop runOne check fl is t1 = t'" using Cons.prems by (simp add: Let_def t1_def historyConfig_def)
  from Cons.IH [OF this] show ?case
    by (cases "check (resOperations (runOne (historyConfig fl i)))") (simp_all add: t1_def tallyHistory_def Let_def)
qed simp

lemma chaosMain_exit:
  "snd (chaosMain runOne check fl) = 1 \<longleftrightarrow> (\<exists>i<cfHistories fl. check (resOperations (runOne (historyConfig fl i))) = CheckIllegal)"
  "tOk (fst (chaosMain runOne check fl)) + tUnknown (fst (chaosMain runOne check fl)) + tIllegal (fst (chaosMain runOne check fl)) = int (cfHistories fl)"
proof -
  define t where "t = fst (chaosMain runOne check fl)"
  let ?bad = "filter (\<lambda>i. check (resOperations (runOne (historyConfig fl i))) = CheckIllegal) [0..<cfHistories fl]"
  have m: "chaosMain runOne check fl = (t, if 0 < tIllegal t then 1 else 0)" by (simp add: t_def chaosMain_def Let_def)
  have "chaosLoop runOne check fl [0..<cfHistories fl] \<lparr>tOk = 0, tUnknown = 0, tIllegal = 0, tTotalOps = 0, tViolations = []\<rparr> = t"
    by (simp add: t_def chaosMain_def Let_def)
  from chaosLoop_tally [OF this] have t: "tOk t + tUnknown t + tIllegal t = int (cfHistories fl)" "tIllegal t = int (length ?bad)"
    by simp_all
  have "snd (chaosMain runOne check fl) = 1 \<longleftrightarrow> ?bad \<noteq> []" unfolding m using t(2) by simp
  then show "snd (chaosMain runOne check fl) = 1 \<longleftrightarrow> (\<exists>i<cfHistories fl. check (resOperations (runOne (historyConfig fl i))) = CheckIllegal)"
    by (auto simp: filter_empty_conv)
  show "tOk (fst (chaosMain runOne check fl)) + tUnknown (fst (chaosMain runOne check fl)) + tIllegal (fst (chaosMain runOne check fl)) = int (cfHistories fl)"
    using t(1) by (simp add: t_def)
qed

section \<open>The flags of a node\<close>

definition is_space :: "char \<Rightarrow> bool" where
  "is_space c \<longleftrightarrow> c = CHR '' '' \<or> (9 \<le> (of_char c :: nat) \<and> (of_char c :: nat) \<le> 13)"

text \<open>\<open>strings.TrimSpace\<close> and \<open>strings.SplitN(s, "=", 2)\<close>.\<close>

definition trim_space :: "string \<Rightarrow> string" where
  "trim_space s = rev (dropWhile is_space (rev (dropWhile is_space s)))"

definition split_pair :: "string \<Rightarrow> (string \<times> string) option" where
  "split_pair s = (case dropWhile (\<lambda>c. c \<noteq> CHR ''='') s of [] \<Rightarrow> None | _ # v \<Rightarrow> Some (takeWhile (\<lambda>c. c \<noteq> CHR ''='') s, v))"

fun pairsLoop :: "(string \<Rightarrow> string) \<Rightarrow> string list \<Rightarrow> (string, string) fmap \<Rightarrow> string + (string, string) fmap" where
  "pairsLoop quote [] m = Inr m"
| "pairsLoop quote (p # ps) m =
     (let part = trim_space p in
      if part = '''' then pairsLoop quote ps m
      else case split_pair part of
        None \<Rightarrow> Inl (''invalid pair '' @ quote part @ '' (want id=value)'')
      | Some (k, v) \<Rightarrow> pairsLoop quote ps (fmupd (trim_space k) (trim_space v) m))"

definition parsePairs :: "(string \<Rightarrow> string) \<Rightarrow> string \<Rightarrow> string + (string, string) fmap" where
  "parsePairs quote s = pairsLoop quote (split_sep (CHR '','') s) fmempty"

record nodeFlags =
  nfId :: nodeid
  nfGrpc :: string
  nfPeers :: string
  nfHeartbeat :: int
  nfElectMin :: int
  nfElectMax :: int
  nfSnapEvery :: int

definition nodePeers :: "(string \<Rightarrow> string) \<Rightarrow> nodeFlags \<Rightarrow> string + (string, string) fmap" where
  "nodePeers quote fl =
     (case parsePairs quote (nfPeers fl) of Inl e \<Rightarrow> Inl e
      | Inr m \<Rightarrow>
          let m = (if m = fmempty then fmupd (nfId fl) (nfGrpc fl) m else m) in
          if fmlookup m (nfId fl) = None then Inl (''peers must include self ('' @ nfId fl @ '')'') else Inr m)"

text \<open>
  The node and its transport.  \<open>ids\<close> is the order in which the loop over the map meets its keys; a store
  with its interface was opened before.
\<close>

definition nodeMain ::
    "(string \<Rightarrow> string) \<Rightarrow> ((string, string) fmap \<Rightarrow> nodeid list) \<Rightarrow> 's Storage \<Rightarrow> 's \<Rightarrow> nodeFlags
     \<Rightarrow> string + ('s, State) Node \<times> 'conn GRPCTransport" where
  "nodeMain quote ids S d fl =
     (case nodePeers quote fl of Inl e \<Rightarrow> Inl e
      | Inr m \<Rightarrow>
          (case New \<lparr>ID = nfId fl, Peers = ids m, cfgStorage = Some S, cfgTransport = Some (nfId fl), cfgStateMachine = Some Jukebox_SM,
               HeartbeatInterval = nfHeartbeat fl, ElectionTimeoutMin = nfElectMin fl, ElectionTimeoutMax = nfElectMax fl,
               SnapshotThreshold = nfSnapEvery fl, DisablePreVote = False\<rparr> d New_jukebox of
             Inl e \<Rightarrow> Inl (''new node: '' @ e)
           | Inr n \<Rightarrow> Inr (n, NewGRPCTransport (fmlookup m))))"

text \<open>The lines a quiet node still logs.\<close>

definition levelWriter_Write :: "string \<Rightarrow> string option" where
  "levelWriter_Write p =
     (if list_ex (\<lambda>w. sublist w p) [''LEADER'', ''election'', ''started'', ''snapshot'', ''ERROR'', ''stepping down''] then Some p else None)"

section \<open>What the flags mean\<close>

definition renderPairs :: "(string \<times> string) list \<Rightarrow> string" where
  "renderPairs kvs = join_sep (CHR '','') (map (\<lambda>(k, v). k @ ''='' @ v) kvs)"

text \<open>Words without separators and without spaces.\<close>

definition word_ok :: "string \<Rightarrow> bool" where
  "word_ok w \<longleftrightarrow> list_all (\<lambda>c. c \<noteq> CHR '','' \<and> \<not> is_space c) w"

lemma trim_word: "word_ok w \<Longrightarrow> trim_space w = w"
proof -
  have "dropWhile is_space s = s" if "list_all (\<lambda>c. c \<noteq> CHR '','' \<and> \<not> is_space c) s" for s using that by (cases s) auto
  then show "word_ok w \<Longrightarrow> trim_space w = w" by (simp add: trim_space_def word_ok_def list_all_rev)
qed

lemma split_pair_word: "CHR ''='' \<notin> set k \<Longrightarrow> split_pair (k @ ''='' @ v) = Some (k, v)"
  by (induction k) (simp_all add: split_pair_def split: list.splits)

lemma pairsLoop_render:
  assumes "\<forall>(k, v)\<in>set kvs. word_ok k \<and> word_ok v \<and> CHR ''='' \<notin> set k"
  shows "pairsLoop quote (map (\<lambda>(k, v). k @ ''='' @ v) kvs) m = Inr (fold (\<lambda>(k, v). fmupd k v) kvs m)"
  using assms
proof (induction kvs arbitrary: m)
  case (Cons kv kvs)
  obtain k v where kv: "kv = (k, v)" by (cases kv)
  have w: "word_ok k" "word_ok v" "CHR ''='' \<notin> set k" using Cons.prems by (simp_all add: kv)
  have "\<not> is_space (CHR ''='')" by (simp add: is_space_def)
  then have "word_ok (k @ ''='' @ v)" using w unfolding word_ok_def by simp
  then have "trim_space (k @ ''='' @ v) = k @ ''='' @ v" by (rule trim_word)
  then have "pairsLoop quote ((k @ ''='' @ v) # ps) m = pairsLoop quote ps (fmupd k v m)" for ps
    using split_pair_word [OF w(3), of v] trim_word [OF w(1)] trim_word [OF w(2)] by (simp add: Let_def)
  then show ?case using Cons by (simp add: kv)
qed simp

lemma parsePairs_render:
  assumes "kvs \<noteq> []" "\<forall>(k, v)\<in>set kvs. word_ok k \<and> word_ok v \<and> CHR ''='' \<notin> set k"
  shows "parsePairs quote (renderPairs kvs) = Inr (fold (\<lambda>(k, v). fmupd k v) kvs fmempty)"
proof -
  have "split_sep (CHR '','') (renderPairs kvs) = map (\<lambda>(k, v). k @ ''='' @ v) kvs"
    unfolding renderPairs_def
  proof (rule split_join_sep)
    have "CHR '','' \<notin> set (k @ ''='' @ v)" if "(k, v) \<in> set kvs" for k v
      using bspec [OF assms(2) that] by (simp add: word_ok_def list_all_iff) blast
    then show "\<forall>x\<in>set (map (\<lambda>(k, v). k @ ''='' @ v) kvs). CHR '','' \<notin> set x" by fastforce
  qed (use assms(1) in simp)
  then show ?thesis unfolding parsePairs_def by (simp only: pairsLoop_render [OF assms(2)])
qed

lemma fold_pairs: "distinct (map fst kvs) \<Longrightarrow> fmlookup (fold (\<lambda>(k, v). fmupd k v) kvs m) i = (case map_of kvs i of None \<Rightarrow> fmlookup m i | Some v \<Rightarrow> Some v)"
proof (induction kvs arbitrary: m)
  case (Cons kv kvs)
  have "map_of kvs (fst kv) = None" using Cons.prems by (simp add: map_of_eq_None_iff)
  then show ?case using Cons by (cases kv) (auto split: option.split)
qed simp


lemma New_empty:
  assumes "cfgStorage c = Some MemStorage" "cfgTransport c = Some t" "cfgStateMachine c = Some M"
  shows "\<exists>n. New c NewMemStore m = Inr n \<and> nid n = ID c \<and> peers n = filter (\<lambda>p. p \<noteq> ID c) (Peers c) \<and>
     quorum n = length (Peers c) div 2 + 1"
  using assms by (simp add: New_def loadFromStorage_def Let_def mem_defs NewMemStore_def withDefaults_frame)

lemma node_flags_cluster:
  assumes "\<forall>(k, v)\<in>set kvs. word_ok k \<and> word_ok v \<and> CHR ''='' \<notin> set k" "distinct (map fst kvs)" "nfPeers fl = renderPairs kvs"
    and "nfId fl \<in> fst ` set kvs" "\<And>m. distinct (ids m) \<and> set (ids m) = fset (fmdom m)"
  obtains n and tr :: "'conn GRPCTransport" where "nodeMain quote ids MemStorage NewMemStore fl = Inr (n, tr)"
    "nid n = nfId fl" "set (peers n) = fst ` set kvs - {nfId fl}" "quorum n = length kvs div 2 + 1" "\<And>k v. (k, v) \<in> set kvs \<Longrightarrow> tr_addrs tr k = Some v"
proof -
  define m where "m = fold (\<lambda>(k, v). fmupd k v) kvs (fmempty :: (string, string) fmap)"
  have look: "fmlookup m i = map_of kvs i" for i unfolding m_def fold_pairs [OF assms(2)] by (simp split: option.split)
  have "kvs \<noteq> []" using assms(4) by auto
  then have "parsePairs quote (nfPeers fl) = Inr m" unfolding m_def assms(3) using assms(1) by (rule parsePairs_render)
  moreover obtain a where a: "fmlookup m (nfId fl) = Some a" using assms(4) by (auto simp: look map_of_eq_None_iff dest: weak_map_of_SomeI)
  moreover have "m \<noteq> fmempty" using a by auto
  ultimately have np: "nodePeers quote fl = Inr m" by (simp add: nodePeers_def)
  have dom: "fset (fmdom m) = fst ` set kvs" 
  proof (rule set_eqI)
    show "i \<in> fset (fmdom m) \<longleftrightarrow> i \<in> fst ` set kvs" for i
      using look [of i] map_of_eq_None_iff [of kvs i] by (cases "map_of kvs i") (auto intro: fmdomI fmdom_notI)
  qed
  have sids: "set (ids m) = fst ` set kvs" using assms(5) [of m] dom by simp
  moreover have "length (ids m) = card (set (ids m))" using distinct_card [of "ids m"] assms(5) [of m] by metis
  moreover have "card (fst ` set kvs) = length kvs" using assms(2) by (metis distinct_card length_map set_map)
  ultimately have ids: "set (ids m) = fst ` set kvs" "length (ids m) = length kvs" by simp_all
  have tr: "tr_addrs (NewGRPCTransport (fmlookup m) :: 'conn GRPCTransport) k = Some v" if "(k, v) \<in> set kvs" for k v
    using that assms(2) by (simp add: NewGRPCTransport_def look)
  obtain n where n: "nodeMain quote ids MemStorage NewMemStore fl = Inr (n, NewGRPCTransport (fmlookup m) :: 'conn GRPCTransport)"
    "nid n = nfId fl" "peers n = filter (\<lambda>p. p \<noteq> nfId fl) (ids m)" "quorum n = length (ids m) div 2 + 1"
  proof -
    let ?c = "\<lparr>ID = nfId fl, Peers = ids m, cfgStorage = Some MemStorage, cfgTransport = Some (nfId fl), cfgStateMachine = Some Jukebox_SM,
       HeartbeatInterval = nfHeartbeat fl, ElectionTimeoutMin = nfElectMin fl, ElectionTimeoutMax = nfElectMax fl,
       SnapshotThreshold = nfSnapEvery fl, DisablePreVote = False\<rparr>"
    obtain n where n: "New ?c NewMemStore New_jukebox = Inr n" "nid n = nfId fl" "peers n = filter (\<lambda>p. p \<noteq> nfId fl) (ids m)"
      "quorum n = length (ids m) div 2 + 1"
      using New_empty [of ?c "nfId fl" Jukebox_SM New_jukebox] by auto
    have "nodeMain quote ids MemStorage NewMemStore fl = Inr (n, NewGRPCTransport (fmlookup m) :: 'conn GRPCTransport)"
      by (simp add: nodeMain_def np n(1))
    then show thesis using n(2-4) that by blast
  qed
  show thesis by (rule that [OF n(1,2)]) (use n(3,4) ids tr in auto)
qed

end
