(* ===== verification/Spec2Isabelle.thy ===== *)
theory Spec2Isabelle
  imports LogSafety LostWaiter Widths Bolt Client Demo Commands
begin

text \<open>
  This library verifies \<^bold>\<open>jamraft\<close>, a jukebox replicated with the Raft protocol.

  \<^bold>\<open>The program.\<close>  A server (\<open>src/internal/raft\<close>) keeps a log of commands, elects a leader,
  replicates the log and applies committed entries to a state machine, the jukebox
  (\<open>src/internal/jukebox\<close>).  It persists its term, vote, log and snapshot through an interface with
  two implementations (\<open>src/internal/store\<close>), talks to its peers through a transport
  (\<open>src/internal/transport\<close>, gRPC or simulated), and is reached by an HTTP front end
  (\<open>src/internal/server\<close>) and a retrying client (\<open>src/internal/client\<close>).  A simulated cluster
  (\<open>src/internal/cluster\<close>) and a chaos harness (\<open>src/chaos\<close>) test it for linearizability.

  \<^bold>\<open>Foundations.\<close>  \<open>Prelude\<close>: \<open>uint64\<close> arithmetic (a natural number below \<open>two64\<close> with the
  wrap-around written out), finite maps, searching and splitting lists.  \<open>Json\<close>: JSON values and
  Go's rules for decoding them into structs.  \<open>Interfaces\<close>: the state machine and the storage as
  records of methods, with their contracts as locales.  \<open>RaftPb\<close>: the protocol messages.

  \<^bold>\<open>Jukebox\<close> (\<open>jukebox.go\<close>): every operation.  Commands take effect once, retries get the first
  answer, no song is lost or duplicated, play order, votes, reordering, snapshots restore.  It
  interprets the locale \<open>state_machine\<close>.

  \<^bold>\<open>Storage.\<close>  \<open>Store\<close> (\<open>store.go\<close>, \<open>mem.go\<close>) interprets the storage contract; \<open>Bolt\<close> (\<open>bolt.go\<close>)
  refines it, with the bbolt and protobuf libraries as parameters.

  \<^bold>\<open>A server.\<close>  \<open>Node\<close> (\<open>node.go\<close>), \<open>Replication\<close> (\<open>replication.go\<close>), \<open>SnapshotRpc\<close> (\<open>snapshot.go\<close>),
  \<open>Election\<close> (\<open>election.go\<close>) and \<open>ReadIndex\<close> (\<open>readindex.go\<close>) are the code: a node is a record and a
  method is a function on it.  The mutex makes each critical section one function; a method that
  releases the mutex around an RPC or a wait is split there.  The clock and random draws are
  inputs (\<open>env\<close>).  \<open>NodeFacts\<close> and \<open>ReplicationFacts\<close> hold the facts on single methods (the merge of
  entries, the commit rule, idempotence); \<open>Durability\<close> relates memory and store; \<open>NodeSteps\<close> is the
  transition system of one server with crashes, with recovery after a restart and one vote per
  term; \<open>Waiters\<close> is the protocol between \<open>Submit\<close> and the apply loop; \<open>ApplyFacts\<close> shows what the
  apply loop does.  \<open>Samples\<close> holds concrete nodes for the witnesses.

  \<^bold>\<open>A cluster.\<close>  \<open>Cluster\<close> is the system of servers over a network that loses, duplicates, delays
  and reorders; \<open>ClusterFacts\<close> its basic invariants; \<open>ElectionSafety\<close> at most one leader per term;
  \<open>Runs\<close> executes an election; \<open>Progress\<close> shows when a server can always be elected, and the
  standstill of the pre-vote when it cannot; \<open>Widths\<close> that all terms and indices stay below \<open>2\<^sup>64\<close>;
  \<open>ReadAnomalies\<close> executes two runs in which linearizable reads go wrong, \<open>SnapshotRewind\<close> one in
  which a late snapshot makes two state machines diverge, \<open>LostWaiter\<close> one in which a call that is
  cancelled keeps another one from ever being answered.

  \<^bold>\<open>The replicated log.\<close>  \<open>RaftSpec\<close> is the log protocol as an abstract state machine over any
  system of quorums, with the proof that chosen entries survive; \<open>LogView\<close> gives what a server keeps
  behind its snapshot as part of a whole log; \<open>LogSim\<close> (followers) and \<open>LogLeader\<close> (leaders and
  candidates) match every handler with abstract steps; \<open>ClusterSim\<close> shows that every step of the
  cluster is simulated; \<open>LogSafety\<close> draws the conclusions: log matching, leader completeness, and
  that servers never commit different entries at one index.  Linearizable reads are excluded
  there, because their heartbeats break these properties (\<open>ReadAnomalies\<close>).

  \<^bold>\<open>Around it.\<close>  \<open>SimNet\<close> (\<open>sim.go\<close>): the simulated network.  \<open>Grpc\<close> (\<open>grpc.go\<close>): the gRPC transport, with
  the gRPC library as a parameter.  \<open>Faults\<close> (\<open>faults.go\<close>): the fault injector.  \<open>SimCluster\<close>
  (\<open>cluster.go\<close>): the in-process cluster with its nodes, where waiting for a leader finds the newest
  one.  \<open>Demo\<close> (\<open>src/cmd/wasm/main.go\<close>): the browser demo, whose view is true.
  \<open>QueueModel\<close> (\<open>model.go\<close>): the queue model of the checker, which the jukebox refines.
  \<open>Harness\<close> (\<open>harness.go\<close>): a chaos run, whose recorded history is complete and well-formed.
  \<open>Commands\<close> (\<open>src/cmd/chaos\<close>, \<open>src/cmd/node\<close>): the tally of the histories, and what the flags of a node mean.
  \<open>Server\<close> (\<open>server.go\<close>) and \<open>Client\<close> (\<open>client.go\<close>): the HTTP front end and the client; together with
  the jukebox, an operation takes effect once however often it is retried.

  \<^bold>\<open>Bounds and fuel.\<close>  The loops of the program are recursions that end; the retry loops of the
  client carry their attempt limit (20 and 10).  Steps of the cluster that add to the log or
  start an election need room below \<open>2\<^sup>64\<close> for the index and the term.

  \<^bold>\<open>Not modelled.\<close>  The listeners and signals of the command \<open>node\<close>, what the commands print, and the command
  \<open>bench\<close>, which only measures times; the protocol code is generated; \<open>src/web\<close> embeds files.  Text
  logging, HTTP headers and the wall clock are left out.
\<close>

end
